(* ===== verification/Prelude.thy ===== *)
theory Prelude
  imports Main "HOL-Library.Word" "HOL-Library.Char_ord" "HOL-Library.List_Lexorder"
begin

text \<open>
  What every component of the model shares.

  A \<^verbatim>\<open>std::string\<close> is a \<^typ>\<open>string\<close>, that is a list of bytes: a \<^typ>\<open>char\<close> of HOL has eight
  bits, the order of \<open>HOL-Library.Char_ord\<close> compares two of them as unsigned numbers, and the order of
  \<open>HOL-Library.List_Lexorder\<close> is then the order \<^verbatim>\<open>std::string::compare\<close> gives and the order the
  store keeps its keys in. Sizes are \<^typ>\<open>nat\<close>; a number the code lets wrap keeps its width
  (\<^typ>\<open>64 word\<close>); a signed 64 bit number the code only compares is an \<^typ>\<open>int\<close>.

  A \<^verbatim>\<open>std::map\<close> is an association list in strictly ascending key order, because the code walks its
  maps in that order: \<open>map_put\<close> is \<open>m[k] = v\<close>, \<open>map_erase\<close> is \<open>m.erase(k)\<close>, \<open>map_of\<close> is
  \<open>m.find(k)\<close> and \<open>map_ok\<close> is the representation's invariant.

  A method that changes an object and may throw is a state transformer with an error:
  \<open>exec\<close> below. What was changed before the throw stays changed.
\<close>

section \<open>Collections of facts the component proofs are carried by\<close>

named_theorems exec_simps \<open>unfolding of the operations that change state and may throw\<close>

named_theorems map_simps \<open>lookup and invariant of the ordered map\<close>

named_theorems store_simps \<open>what the store answers, over its view\<close>

section \<open>Widths\<close>

type_synonym uint64 = "64 word"

type_synonym uint32 = "32 word"

abbreviation byte_of :: "char \<Rightarrow> nat" where
  "byte_of c \<equiv> of_char c"

abbreviation zero_byte :: char where
  "zero_byte \<equiv> char_of (0::nat)"

lemma byte_of_lt [simp]: "byte_of c < 256"
  by (metis of_char_mod_256 mod_less_divisor zero_less_numeral)

lemma char_less_iff_byte: "(c < d) = (byte_of c < byte_of d)"
  by (simp add: less_char_def)

lemma char_le_iff_byte: "(c \<le> d) = (byte_of c \<le> byte_of d)"
  by (simp add: less_eq_char_def)

lemma char_of_byte_of [simp]: "char_of (byte_of c) = c"
  by simp

lemma byte_of_char_of [simp]: "byte_of (char_of (n::nat)) = n mod 256"
  by simp

lemma zero_byte_le [simp]: "zero_byte \<le> c"
  by (simp add: char_le_iff_byte)

section \<open>Byte strings in the order of the store\<close>

lemma string_Cons_less: "((x::char) # xs < y # ys) = (x < y \<or> x = y \<and> xs < ys)"
  by simp

lemma append_less_append [simp]: "((p @ xs :: string) < p @ ys) = (xs < ys)"
  by (induction p) auto

lemma append_le_append [simp]: "((p @ xs :: string) \<le> p @ ys) = (xs \<le> ys)"
  by (induction p) auto

lemma prefix_le: "(p :: string) \<le> p @ xs"
  by (induction p) auto

text \<open>The least string above another is that string and a zero byte, which is what a cursor resumes at.\<close>

lemma less_snoc_zero: "((k::string) < x) = (k @ [zero_byte] \<le> x)"
proof (induction k arbitrary: x)
  case Nil
  then show ?case
    by (cases x) (auto simp: less_le)
next
  case (Cons a k)
  then show ?case
    by (cases x) auto
qed

text \<open>Two strings that begin with distinct prefixes of one length compare as the prefixes do.\<close>

lemma less_of_prefix_less:
  assumes "length p = length q" and "(p :: string) < q"
  shows "p @ xs < q @ ys"
  using assms by (induction p q rule: list_induct2) auto

section \<open>Finding a character\<close>

text \<open>\<^verbatim>\<open>std::string::find\<close> of one character, \<^verbatim>\<open>npos\<close> being nothing.\<close>

fun find_char :: "char \<Rightarrow> string \<Rightarrow> nat option" where
  "find_char c [] = None"
| "find_char c (x # xs) = (if x = c then Some 0 else map_option Suc (find_char c xs))"

lemma find_char_None_iff: "(find_char c s = None) = (c \<notin> set s)"
  by (induction s) auto

lemma find_char_None [simp]: "c \<notin> set s \<Longrightarrow> find_char c s = None"
  by (simp add: find_char_None_iff)

lemma find_char_Some:
  "find_char c s = Some i \<Longrightarrow> i < length s \<and> s ! i = c \<and> c \<notin> set (take i s)"
  by (induction s arbitrary: i) (auto split: if_splits)

lemma find_char_append [simp]: "c \<notin> set s \<Longrightarrow> find_char c (s @ c # t) = Some (length s)"
  by (induction s) auto

lemma find_char_nth: "distinct s \<Longrightarrow> i < length s \<Longrightarrow> find_char (s ! i) s = Some i"
proof (induction s arbitrary: i)
  case Nil
  then show ?case by simp
next
  case (Cons x s)
  then show ?case by (cases i) auto
qed

text \<open>\<^verbatim>\<open>boost::algorithm::split\<close> on one separator: one token more than there are separators.\<close>

fun split_on :: "char \<Rightarrow> string \<Rightarrow> string list" where
  "split_on c [] = [[]]"
| "split_on c (x # xs) =
     (if x = c then [] # split_on c xs
      else case split_on c xs of [] \<Rightarrow> [[x]] | t # ts \<Rightarrow> (x # t) # ts)"

lemma split_on_not_Nil [simp]: "split_on c s \<noteq> []"
  by (induction s) (auto split: list.splits)

lemma split_on_no_sep [simp]: "c \<notin> set s \<Longrightarrow> split_on c s = [s]"
  by (induction s) auto

lemma split_on_append [simp]: "c \<notin> set s \<Longrightarrow> split_on c (s @ c # t) = s # split_on c t"
  by (induction s) auto

section \<open>std::to\_string\<close>

definition digit :: "nat \<Rightarrow> char" where
  "digit n = char_of (48 + n)"

fun to_string :: "nat \<Rightarrow> string" where
  "to_string n = (if n < 10 then [digit n] else to_string (n div 10) @ [digit (n mod 10)])"

declare to_string.simps [simp del]

definition int_to_string :: "int \<Rightarrow> string" where
  "int_to_string i = (if i < 0 then ''-'' @ to_string (nat (- i)) else to_string (nat i))"

fun digits_value :: "string \<Rightarrow> nat" where
  "digits_value s = fold (\<lambda>c n. 10 * n + (byte_of c - 48)) s 0"

lemma digits_value_to_string: "digits_value (to_string n) = n"
proof (induction n rule: to_string.induct)
  case (1 n)
  show ?case
  proof (cases "n < 10")
    case True
    then show ?thesis by (simp add: to_string.simps [of n] digit_def)
  next
    case False
    with "1.IH" have "digits_value (to_string (n div 10)) = n div 10" by simp
    with False show ?thesis
      by (simp add: to_string.simps [of n] digit_def)
  qed
qed

lemma to_string_inj [simp]: "(to_string m = to_string n) = (m = n)"
  by (metis digits_value_to_string)

lemma to_string_not_Nil [simp]: "to_string n \<noteq> []"
  by (subst to_string.simps) simp

section \<open>std::map as an ascending association list\<close>

type_synonym ('k, 'v) smap = "('k \<times> 'v) list"

abbreviation map_ok :: "('k::linorder, 'v) smap \<Rightarrow> bool" where
  "map_ok m \<equiv> sorted_wrt (<) (map fst m)"

fun map_put :: "'k::linorder \<Rightarrow> 'v \<Rightarrow> ('k, 'v) smap \<Rightarrow> ('k, 'v) smap" where
  "map_put k v [] = [(k, v)]"
| "map_put k v (e # m) =
     (if fst e < k then e # map_put k v m
      else if fst e = k then (k, v) # m
      else (k, v) # e # m)"

definition map_erase :: "'k \<Rightarrow> ('k, 'v) smap \<Rightarrow> ('k, 'v) smap" where
  "map_erase k m = filter (\<lambda>e. fst e \<noteq> k) m"

lemma map_of_put [map_simps, simp]: "map_of (map_put k v m) = (map_of m)(k \<mapsto> v)"
  by (induction m) auto

lemma fst_set_put [map_simps]: "fst ` set (map_put k v m) = insert k (fst ` set m)"
  by (induction m) auto

lemma map_ok_put [map_simps, simp]: "map_ok m \<Longrightarrow> map_ok (map_put k v m)"
proof (induction m)
  case Nil
  then show ?case by simp
next
  case (Cons e m)
  then show ?case by (auto simp: fst_set_put)
qed

lemma map_of_erase [map_simps, simp]: "map_of (map_erase k m) = (map_of m)(k := None)"
  by (induction m) (auto simp: map_erase_def)

lemma map_ok_erase [map_simps, simp]: "map_ok m \<Longrightarrow> map_ok (map_erase k m)"
  by (induction m) (auto simp: map_erase_def)

lemma map_ok_distinct: "map_ok m \<Longrightarrow> distinct (map fst m)"
  by (induction m) auto

lemma map_of_in_set: "map_ok m \<Longrightarrow> (map_of m k = Some v) = ((k, v) \<in> set m)"
  by (simp add: map_of_eq_Some_iff [OF map_ok_distinct])

text \<open>Two ordered maps with the same lookups are the same list: the representation is canonical.\<close>

lemma map_ok_unique:
  assumes "map_ok m" and "map_ok n" and "map_of m = map_of n"
  shows "m = n"
proof -
  have keys: "fst ` set m = fst ` set n"
    using assms(3) by (metis dom_map_of_conv_image_fst)
  have eq: "map fst m = map fst n"
    by (metis assms(1,2) keys list.set_map sorted_list_of_set.idem_if_sorted_distinct strict_sorted_iff)
  have "map snd m = map snd n"
  proof (rule nth_equalityI)
    show len: "length (map snd m) = length (map snd n)"
      using eq by (metis length_map)
    fix i assume i: "i < length (map snd m)"
    then have "fst (m ! i) = fst (n ! i)"
      using eq len by (metis length_map nth_map)
    moreover have "map_of m (fst (m ! i)) = Some (snd (m ! i))"
      using i assms(1) by (simp add: map_of_in_set)
    moreover have "map_of n (fst (n ! i)) = Some (snd (n ! i))"
      using i len assms(2) by (simp add: map_of_in_set)
    ultimately show "map snd m ! i = map snd n ! i"
      using i len assms(3) by simp
  qed
  with eq show ?thesis
    by (rule pair_list_eqI)
qed

section \<open>Operations that change state and may throw\<close>

type_synonym ('s, 'e, 'a) exec = "'s \<Rightarrow> ('e + 'a) \<times> 's"

definition ret :: "'a \<Rightarrow> ('s, 'e, 'a) exec" where
  "ret a = (\<lambda>s. (Inr a, s))"

definition throw :: "'e \<Rightarrow> ('s, 'e, 'a) exec" where
  "throw e = (\<lambda>s. (Inl e, s))"

definition andthen :: "('s, 'e, 'a) exec \<Rightarrow> ('a \<Rightarrow> ('s, 'e, 'b) exec) \<Rightarrow> ('s, 'e, 'b) exec" where
  "andthen m f = (\<lambda>s. case m s of (Inl e, s') \<Rightarrow> (Inl e, s') | (Inr a, s') \<Rightarrow> f a s')"

fun for_each :: "('a \<Rightarrow> ('s, 'e, unit) exec) \<Rightarrow> 'a list \<Rightarrow> ('s, 'e, unit) exec" where
  "for_each f [] = ret ()"
| "for_each f (x # xs) = andthen (f x) (\<lambda>_. for_each f xs)"

lemma ret_app [exec_simps, simp]: "ret a s = (Inr a, s)"
  by (simp add: ret_def)

lemma throw_app [exec_simps, simp]: "throw e s = (Inl e, s)"
  by (simp add: throw_def)

lemma andthen_app [exec_simps]:
  "andthen m f s = (case m s of (Inl e, s') \<Rightarrow> (Inl e, s') | (Inr a, s') \<Rightarrow> f a s')"
  by (simp add: andthen_def)

lemma andthen_Inr:
  "(andthen m f s = (Inr b, t)) = (\<exists>a s'. m s = (Inr a, s') \<and> f a s' = (Inr b, t))"
  by (auto simp: andthen_def split: prod.splits sum.splits)

lemma andthen_Inl:
  "(andthen m f s = (Inl e, t)) =
     (m s = (Inl e, t) \<or> (\<exists>a s'. m s = (Inr a, s') \<and> f a s' = (Inl e, t)))"
  by (auto simp: andthen_def split: prod.splits sum.splits)

text \<open>An invariant every step keeps, whether it returns or throws, is kept by the whole.\<close>

definition keeps :: "('s \<Rightarrow> bool) \<Rightarrow> ('s, 'e, 'a) exec \<Rightarrow> bool" where
  "keeps I m = (\<forall>s. I s \<longrightarrow> I (snd (m s)))"

lemma keepsI: "(\<And>s. I s \<Longrightarrow> I (snd (m s))) \<Longrightarrow> keeps I m"
  by (simp add: keeps_def)

lemma keepsD: "keeps I m \<Longrightarrow> I s \<Longrightarrow> I (snd (m s))"
  by (simp add: keeps_def)

lemma keeps_ret [intro]: "keeps I (ret a)"
  by (simp add: keeps_def)

lemma keeps_throw [intro]: "keeps I (throw e)"
  by (simp add: keeps_def)

lemma keeps_andthen [intro]: "keeps I m \<Longrightarrow> (\<And>a. keeps I (f a)) \<Longrightarrow> keeps I (andthen m f)"
  by (fastforce simp: keeps_def andthen_def split: prod.splits sum.splits)

lemma keeps_for_each [intro]: "(\<And>x. keeps I (f x)) \<Longrightarrow> keeps I (for_each f xs)"
  by (induction xs) auto

text \<open>
  What an operation comes to: \<open>ok\<close> of its result and the state where it returns, \<open>bad\<close> of the state where it
  throws. The rules take a chain of steps apart.
\<close>

definition outcome :: "('s, 'e, 'a) exec \<Rightarrow> 's \<Rightarrow> ('a \<Rightarrow> 's \<Rightarrow> bool) \<Rightarrow> ('s \<Rightarrow> bool) \<Rightarrow> bool" where
  "outcome m s ok bad = (case m s of (Inr a, s') \<Rightarrow> ok a s' | (Inl e, s') \<Rightarrow> bad s')"

lemma outcomeI:
  "(\<And>a s'. m s = (Inr a, s') \<Longrightarrow> ok a s') \<Longrightarrow> (\<And>e s'. m s = (Inl e, s') \<Longrightarrow> bad s') \<Longrightarrow> outcome m s ok bad"
  by (auto simp: outcome_def split: prod.splits sum.splits)

lemma outcomeD:
  "outcome m s ok bad \<Longrightarrow> m s = (Inr a, s') \<Longrightarrow> ok a s'"
  "outcome m s ok bad \<Longrightarrow> m s = (Inl e, s') \<Longrightarrow> bad s'"
  by (simp_all add: outcome_def)

lemma outcome_andthen: "outcome m s (\<lambda>a s'. outcome (f a) s' ok bad) bad \<Longrightarrow> outcome (andthen m f) s ok bad"
  by (auto simp: outcome_def andthen_def split: prod.splits sum.splits)

lemma outcome_ret [simp]: "outcome (ret a) s ok bad = ok a s"
  by (simp add: outcome_def)

lemma outcome_throw [simp]: "outcome (throw e) s ok bad = bad s"
  by (simp add: outcome_def)

lemma outcome_mono:
  "outcome m s ok bad \<Longrightarrow> (\<And>a s'. ok a s' \<Longrightarrow> ok' a s') \<Longrightarrow> (\<And>s'. bad s' \<Longrightarrow> bad' s') \<Longrightarrow> outcome m s ok' bad'"
  by (auto simp: outcome_def split: prod.splits sum.splits)

end
