(* ===== verification/Rocksdb.thy ===== *)
theory Rocksdb
  imports Prelude
begin

text \<open>
  RocksDB, which is not in the repository: the record \<open>rocksdb\<close> names the calls the repository makes of
  it, over a database of any type, and every definition that reaches the store takes it as its argument.
  A handle of a column family is the family's name: the code makes one handle for a family and looks it
  up by that name. A file of records (\<^verbatim>\<open>SstFileWriter\<close>, \<^verbatim>\<open>SstFileReader\<close>) is its bytes.

  \<open>rocksdb_laws\<close> is what RocksDB documents of those calls and what the properties assume of it: a call
  that answers OK did what it says on the database's \<open>view\<close>, one that does not changed nothing there, an iterator
  reads its bounds in key order and read right what it read before it failed. Every call may answer a failure at
  any time.
\<close>

datatype status = Ok_status | Not_found_status | Incomplete_status | Busy_status | Try_again_status
  | Failed_status string

datatype batch_op = Batch_put (op_family: string) (op_key: string) string
  | Batch_delete (op_family: string) (op_key: string)

type_synonym entries = "(string \<times> string) list"

record 'db rocksdb =
  \<comment> \<open>\<^verbatim>\<open>Status::ToString\<close>\<close>
  status_text :: "status \<Rightarrow> string"
  rdb_get :: "'db \<Rightarrow> string \<Rightarrow> string \<Rightarrow> status \<times> string"
  rdb_put :: "'db \<Rightarrow> string \<Rightarrow> string \<Rightarrow> string \<Rightarrow> status \<times> 'db"
  \<comment> \<open>\<^verbatim>\<open>WriteBatch::Put\<close> onto the batch so far, and \<^verbatim>\<open>DB::Write\<close> of a whole batch\<close>
  rdb_batch_put :: "batch_op list \<Rightarrow> batch_op \<Rightarrow> status"
  rdb_write :: "'db \<Rightarrow> batch_op list \<Rightarrow> status \<times> 'db"
  rdb_create_family :: "'db \<Rightarrow> string \<Rightarrow> status \<times> 'db"
  rdb_drop_family :: "'db \<Rightarrow> string \<Rightarrow> status \<times> 'db"
  \<comment> \<open>\<^verbatim>\<open>NewIterator\<close> with a lower and an upper bound, walked from the first (or backwards from the last)
      to where it stops being valid, and its status there\<close>
  rdb_iterate :: "'db \<Rightarrow> string \<Rightarrow> string \<Rightarrow> string \<Rightarrow> bool \<Rightarrow> entries \<times> status"
  \<comment> \<open>\<^verbatim>\<open>GetColumnFamilyMetaData\<close>: the smallest key and the size of every file, level by level\<close>
  rdb_metadata :: "'db \<Rightarrow> string \<Rightarrow> (string \<times> uint64) list list"
  rdb_ingest :: "'db \<Rightarrow> string \<Rightarrow> string \<Rightarrow> status \<times> 'db"
  rdb_resume :: "'db \<Rightarrow> 'db"
  \<comment> \<open>\<^verbatim>\<open>GetIntProperty\<close> of \<^verbatim>\<open>kIsWriteStopped\<close> and \<^verbatim>\<open>kActualDelayedWriteRate\<close>\<close>
  rdb_write_stopped :: "'db \<Rightarrow> uint64"
  rdb_delayed_rate :: "'db \<Rightarrow> uint64"
  rdb_list_families :: "'db \<Rightarrow> string list"
  rdb_open :: "'db \<Rightarrow> string list \<Rightarrow> status \<times> 'db"
  \<comment> \<open>\<^verbatim>\<open>SstFileWriter::Open\<close>, \<^verbatim>\<open>Put\<close> after the entries so far, and \<^verbatim>\<open>Finish\<close>\<close>
  sst_open :: "'db \<Rightarrow> string \<Rightarrow> status"
  sst_put :: "'db \<Rightarrow> entries \<Rightarrow> string \<times> string \<Rightarrow> status"
  sst_finish :: "'db \<Rightarrow> entries \<Rightarrow> status \<times> string"
  \<comment> \<open>writing bytes to a scratch file, and \<^verbatim>\<open>SstFileReader::Open\<close> and a walk of the file\<close>
  file_write :: "'db \<Rightarrow> string \<Rightarrow> string \<Rightarrow> bool"
  sst_reader_open :: "'db \<Rightarrow> string \<Rightarrow> status"
  sst_read :: "'db \<Rightarrow> string \<Rightarrow> entries \<times> status"

definition is_back_pressure :: "status \<Rightarrow> bool" where
  "is_back_pressure st = (st = Incomplete_status \<or> st = Busy_status \<or> st = Try_again_status)"

section \<open>What RocksDB documents\<close>

type_synonym family_view = "string \<rightharpoonup> string"

type_synonym store_view = "string \<rightharpoonup> family_view"

fun apply_op :: "batch_op \<Rightarrow> store_view \<Rightarrow> store_view" where
  "apply_op (Batch_put fam k v) w = (case w fam of None \<Rightarrow> w | Some m \<Rightarrow> w(fam \<mapsto> m(k \<mapsto> v)))"
| "apply_op (Batch_delete fam k) w = (case w fam of None \<Rightarrow> w | Some m \<Rightarrow> w(fam \<mapsto> m(k := None)))"

definition apply_batch :: "batch_op list \<Rightarrow> store_view \<Rightarrow> store_view" where
  "apply_batch ops w = fold apply_op ops w"

definition ascending :: "entries \<Rightarrow> bool" where
  "ascending kvs = sorted_wrt (<) (map fst kvs)"

definition law_get :: "'db rocksdb \<Rightarrow> ('db \<Rightarrow> store_view) \<Rightarrow> bool" where
  "law_get R view \<longleftrightarrow>
     (\<forall>db fam m k st v. view db fam = Some m \<longrightarrow> rdb_get R db fam k = (st, v) \<longrightarrow>
        (st = Ok_status \<longrightarrow> m k = Some v) \<and> (st = Not_found_status \<longrightarrow> m k = None))"

definition law_put :: "'db rocksdb \<Rightarrow> ('db \<Rightarrow> store_view) \<Rightarrow> bool" where
  "law_put R view \<longleftrightarrow>
     (\<forall>db fam k v st db'. rdb_put R db fam k v = (st, db') \<longrightarrow>
        view db' = (if st = Ok_status then apply_op (Batch_put fam k v) (view db) else view db))"

definition law_write :: "'db rocksdb \<Rightarrow> ('db \<Rightarrow> store_view) \<Rightarrow> bool" where
  "law_write R view \<longleftrightarrow>
     (\<forall>db ops st db'. rdb_write R db ops = (st, db') \<longrightarrow>
        view db' = (if st = Ok_status then apply_batch ops (view db) else view db))"

definition law_families :: "'db rocksdb \<Rightarrow> ('db \<Rightarrow> store_view) \<Rightarrow> bool" where
  "law_families R view \<longleftrightarrow>
     (\<forall>db fam st db'. rdb_create_family R db fam = (st, db') \<longrightarrow>
        (if st = Ok_status then view db' = (view db)(fam \<mapsto> Map.empty) else view db' = view db)) \<and>
     (\<forall>db fam st db'. rdb_drop_family R db fam = (st, db') \<longrightarrow>
        (if st = Ok_status then view db' = (view db)(fam := None) else view db' = view db))"

definition law_iterate :: "'db rocksdb \<Rightarrow> ('db \<Rightarrow> store_view) \<Rightarrow> bool" where
  "law_iterate R view \<longleftrightarrow>
     (\<forall>db fam m lo hi backwards kvs st. view db fam = Some m \<longrightarrow>
        rdb_iterate R db fam lo hi backwards = (kvs, st) \<longrightarrow>
        (\<exists>unread. ascending (if backwards then rev (kvs @ unread) else kvs @ unread) \<and>
           (\<forall>k v. (k, v) \<in> set (kvs @ unread) \<longleftrightarrow> m k = Some v \<and> lo \<le> k \<and> k < hi) \<and>
           (st = Ok_status \<longrightarrow> unread = [])))"

definition law_files :: "'db rocksdb \<Rightarrow> ('db \<Rightarrow> store_view) \<Rightarrow> (string \<Rightarrow> entries) \<Rightarrow> bool" where
  "law_files R view contents \<longleftrightarrow>
     (\<forall>db kvs file. sst_finish R db kvs = (Ok_status, file) \<longrightarrow> ascending kvs \<longrightarrow> file \<noteq> [] \<and> contents file = kvs) \<and>
     (\<forall>db file kvs. sst_read R db file = (kvs, Ok_status) \<longrightarrow> kvs = contents file \<and> ascending kvs) \<and>
     (\<forall>db fam file st db'. rdb_ingest R db fam file = (st, db') \<longrightarrow>
        (if st = Ok_status
         then (\<forall>m. view db fam = Some m \<longrightarrow> view db' = (view db)(fam \<mapsto> m ++ map_of (contents file)))
         else view db' = view db))"

definition law_resume :: "'db rocksdb \<Rightarrow> ('db \<Rightarrow> store_view) \<Rightarrow> bool" where
  "law_resume R view \<longleftrightarrow> (\<forall>db. view (rdb_resume R db) = view db)"

definition law_open :: "'db rocksdb \<Rightarrow> ('db \<Rightarrow> store_view) \<Rightarrow> bool" where
  "law_open R view \<longleftrightarrow>
     (\<forall>db. rdb_list_families R db = [] \<longrightarrow> view db = Map.empty) \<and>
     (\<forall>db names db'. rdb_open R db names = (Ok_status, db') \<longrightarrow>
        (if rdb_list_families R db = [] then view db' = [''default'' \<mapsto> Map.empty]
         else set (rdb_list_families R db) = dom (view db) \<and> ''default'' \<in> dom (view db) \<and> view db' = view db))"

definition rocksdb_laws :: "'db rocksdb \<Rightarrow> ('db \<Rightarrow> store_view) \<Rightarrow> (string \<Rightarrow> entries) \<Rightarrow> bool" where
  "rocksdb_laws R view contents \<longleftrightarrow>
     law_get R view \<and> law_put R view \<and> law_write R view \<and> law_families R view \<and> law_iterate R view \<and>
     law_files R view contents \<and> law_resume R view \<and> law_open R view"

section \<open>What follows of a lawful store\<close>

lemma rdb_getD:
  assumes "rocksdb_laws R view contents" and "view db fam = Some m" and "rdb_get R db fam k = (st, v)"
  shows "st = Ok_status \<Longrightarrow> m k = Some v" and "st = Not_found_status \<Longrightarrow> m k = None"
  using assms by (auto simp: rocksdb_laws_def law_get_def)

lemma rdb_putD:
  assumes "rocksdb_laws R view contents" and "rdb_put R db fam k v = (st, db')"
  shows "view db' = (if st = Ok_status then apply_op (Batch_put fam k v) (view db) else view db)"
  using assms by (simp add: rocksdb_laws_def law_put_def)

lemma rdb_writeD:
  assumes "rocksdb_laws R view contents" and "rdb_write R db ops = (st, db')"
  shows "view db' = (if st = Ok_status then apply_batch ops (view db) else view db)"
  using assms by (simp add: rocksdb_laws_def law_write_def)

lemma rdb_create_familyD:
  assumes "rocksdb_laws R view contents" and "rdb_create_family R db fam = (st, db')"
  shows "view db' = (if st = Ok_status then (view db)(fam \<mapsto> Map.empty) else view db)"
  using assms by (auto simp: rocksdb_laws_def law_families_def)

lemma rdb_drop_familyD:
  assumes "rocksdb_laws R view contents" and "rdb_drop_family R db fam = (st, db')"
  shows "view db' = (if st = Ok_status then (view db)(fam := None) else view db)"
  using assms by (auto simp: rocksdb_laws_def law_families_def)

lemma rdb_iterateE:
  assumes "rocksdb_laws R view contents" and "view db fam = Some m"
    and "rdb_iterate R db fam lo hi backwards = (kvs, st)"
  obtains unread where "ascending (if backwards then rev (kvs @ unread) else kvs @ unread)"
    and "\<And>k v. (k, v) \<in> set (kvs @ unread) \<longleftrightarrow> m k = Some v \<and> lo \<le> k \<and> k < hi"
    and "st = Ok_status \<Longrightarrow> unread = []"
  using assms unfolding rocksdb_laws_def law_iterate_def by blast

lemma rdb_resumeD [simp]: "rocksdb_laws R view contents \<Longrightarrow> view (rdb_resume R db) = view db"
  by (simp add: rocksdb_laws_def law_resume_def)

lemma sst_finishD:
  assumes "rocksdb_laws R view contents" and "sst_finish R db kvs = (Ok_status, file)" and "ascending kvs"
  shows "file \<noteq> []" and "contents file = kvs"
  using assms by (auto simp: rocksdb_laws_def law_files_def)

lemma sst_readD:
  assumes "rocksdb_laws R view contents" and "sst_read R db file = (kvs, Ok_status)"
  shows "kvs = contents file" and "ascending kvs"
  using assms by (auto simp: rocksdb_laws_def law_files_def)

lemma rdb_ingestD:
  assumes "rocksdb_laws R view contents" and "view db fam = Some m" and "rdb_ingest R db fam file = (st, db')"
  shows "view db' = (if st = Ok_status then (view db)(fam \<mapsto> m ++ map_of (contents file)) else view db)"
  using assms by (auto simp: rocksdb_laws_def law_files_def split: if_splits)

lemma ascending_Nil [simp]: "ascending []"
  by (simp add: ascending_def)

lemma ascending_Cons: "ascending ((k, v) # kvs) \<longleftrightarrow> (\<forall>x \<in> set kvs. k < fst x) \<and> ascending kvs"
  by (auto simp: ascending_def)

lemma ascending_append:
  "ascending (xs @ ys) \<longleftrightarrow> ascending xs \<and> ascending ys \<and> (\<forall>x \<in> set xs. \<forall>y \<in> set ys. fst x < fst y)"
  by (auto simp: ascending_def sorted_wrt_append)

lemma ascending_filter: "ascending kvs \<Longrightarrow> ascending (filter P kvs)"
  by (auto simp: ascending_def sorted_wrt_map intro: sorted_wrt_filter)

lemma ascending_take: "ascending kvs \<Longrightarrow> ascending (take n kvs)"
  by (simp add: ascending_def take_map [symmetric] sorted_wrt_take)

lemma ascending_distinct: "ascending kvs \<Longrightarrow> distinct (map fst kvs)"
  unfolding ascending_def by (rule map_ok_distinct)

lemma ascending_map_of: "ascending kvs \<Longrightarrow> (map_of kvs k = Some v) = ((k, v) \<in> set kvs)"
  unfolding ascending_def by (rule map_of_in_set)

lemma dom_apply_op [simp]: "dom (apply_op op w) = dom w"
  by (cases op) (auto split: option.splits)

lemma apply_op_None [simp]: "(apply_op op w fam = None) = (w fam = None)"
  using dom_apply_op [of op w] by (metis domIff)

lemma apply_op_put: "w fam = Some m \<Longrightarrow> apply_op (Batch_put fam k v) w = w(fam \<mapsto> m(k \<mapsto> v))"
  and apply_op_delete: "w fam = Some m \<Longrightarrow> apply_op (Batch_delete fam k) w = w(fam \<mapsto> m(k := None))"
  by simp_all

lemma dom_apply_batch [simp]: "dom (apply_batch ops w) = dom w"
  by (induction ops arbitrary: w) (auto simp: apply_batch_def)

lemma apply_batch_Nil [simp]: "apply_batch [] w = w"
  and apply_batch_Cons [simp]: "apply_batch (op # ops) w = apply_batch ops (apply_op op w)"
  and apply_batch_append: "apply_batch (ops @ ops') w = apply_batch ops' (apply_batch ops w)"
  by (simp_all add: apply_batch_def)

lemma apply_op_other: "op_family op \<noteq> fam \<Longrightarrow> apply_op op w fam = w fam"
  by (cases op) (auto split: option.splits)

declare apply_op.simps [simp del]

lemma apply_batch_other: "\<forall>op \<in> set ops. op_family op \<noteq> fam \<Longrightarrow> apply_batch ops w fam = w fam"
  by (induction ops arbitrary: w) (auto simp: apply_op_other)

end
