(* ===== verification/Versions.thy ===== *)
theory Versions
  imports Prelude "HOL-Library.Multiset"
begin

text \<open>
  The contract every store of versioned things relies on: of two values one may be the later, and
  "later" is a strict weak order. A record's stored bytes and a table's place in the schema are the two
  instances (\<^verbatim>\<open>record::is_newer\<close> and the \<^verbatim>\<open>is_newer\<close> of \<^verbatim>\<open>schema.cpp\<close>); what is proved here once is that a
  store which keeps the later of what it holds and what it is handed settles on one value, whatever
  order the values reach it in.
\<close>

locale versioned =
  fixes newer :: "'v \<Rightarrow> 'v \<Rightarrow> bool"
  assumes newer_asym: "newer a b \<Longrightarrow> \<not> newer b a"
    and newer_split: "newer a c \<Longrightarrow> newer a b \<or> newer b c"
begin

lemma newer_irrefl [simp]: "\<not> newer a a"
  using newer_asym by blast

lemma newer_trans: "newer a b \<Longrightarrow> newer b c \<Longrightarrow> newer a c"
  using newer_asym newer_split by blast

text \<open>
  Taking a value in keeps the held one only where it is the later. Two values that are ordered are
  taken in to the same end either way round, and so is any list of pairwise ordered values.
\<close>

definition take_in :: "'v \<Rightarrow> 'v option \<Rightarrow> 'v option" where
  "take_in v held = (case held of None \<Rightarrow> Some v | Some h \<Rightarrow> if newer h v then held else Some v)"

lemma take_in_absorbs:
  assumes "newer v w"
  shows "take_in v (take_in w held) = take_in v held" and "take_in w (take_in v held) = take_in v held"
proof -
  have "\<not> newer w v" using assms by (rule newer_asym)
  moreover have "newer h v \<Longrightarrow> newer h w" for h using assms newer_trans by blast
  ultimately show "take_in v (take_in w held) = take_in v held"
    and "take_in w (take_in v held) = take_in v held"
    using assms by (auto simp: take_in_def split: option.splits)
qed

lemma take_in_commute:
  assumes "newer v w \<or> newer w v \<or> v = w"
  shows "take_in v \<circ> take_in w = take_in w \<circ> take_in v"
  using assms take_in_absorbs by (fastforce simp: fun_eq_iff)

lemma take_in_order_independent:
  assumes "\<And>v w. v \<in> set vs \<Longrightarrow> w \<in> set vs \<Longrightarrow> newer v w \<or> newer w v \<or> v = w"
    and "mset vs = mset ws"
  shows "fold take_in vs held = fold take_in ws held"
proof -
  have "fold take_in vs = fold take_in ws"
    using assms take_in_commute by (intro fold_multiset_equiv) auto
  then show ?thesis by simp
qed

text \<open>What is settled on is a value that was held or handed over, and none of them is later.\<close>

lemma take_in_latest:
  "fold take_in vs held = Some x \<Longrightarrow>
     (x \<in> set vs \<or> held = Some x) \<and> (\<forall>v \<in> set vs. \<not> newer v x) \<and> (\<forall>h. held = Some h \<longrightarrow> \<not> newer h x)"
proof (induction vs arbitrary: held)
  case Nil
  then show ?case by auto
next
  case (Cons v vs)
  then have IH: "(x \<in> set vs \<or> take_in v held = Some x) \<and> (\<forall>v \<in> set vs. \<not> newer v x) \<and>
      (\<forall>h. take_in v held = Some h \<longrightarrow> \<not> newer h x)"
    by simp
  obtain y where y: "take_in v held = Some y"
    by (cases "take_in v held") (auto simp: take_in_def split: option.splits if_splits)
  then have from_y: "y = v \<or> held = Some y" and v: "\<not> newer v y" and h: "held = Some h \<Longrightarrow> \<not> newer h y" for h
    using newer_asym by (auto simp: take_in_def split: option.splits if_splits)
  have later: "\<not> newer a y \<Longrightarrow> \<not> newer a x" for a
    using newer_split [of a x y] IH y by blast
  have "x \<in> set (v # vs) \<or> held = Some x"
    using IH y from_y by auto
  moreover have "\<forall>w \<in> set (v # vs). \<not> newer w x"
    using IH later [OF v] by simp
  ultimately show ?case
    using later [OF h] by blast
qed

end

text \<open>
  A store of versioned values: an operation that takes one value in under its key, or throws and changes
  nothing. Any two stores that began alike and were handed the same values, each in an order of its own,
  hold the same: that is why the copies of a key agree without agreeing on an order first.
\<close>

locale versioned_store = versioned newer
  for newer :: "'v \<Rightarrow> 'v \<Rightarrow> bool" +
  fixes inv :: "'s \<Rightarrow> bool"
    and sound :: "'r \<Rightarrow> bool"
    and key_of :: "'r \<Rightarrow> 'k"
    and val_of :: "'r \<Rightarrow> 'v"
    and held_at :: "'s \<Rightarrow> 'k \<Rightarrow> 'v option"
    and store :: "'r \<Rightarrow> ('s, 'e, unit) exec"
  assumes store_inv: "inv s \<Longrightarrow> sound r \<Longrightarrow> inv (snd (store r s))"
    and store_takes_in: "inv s \<Longrightarrow> sound r \<Longrightarrow> store r s = (Inr (), s') \<Longrightarrow>
      held_at s' k = (if k = key_of r then take_in (val_of r) (held_at s k) else held_at s k)"
    and store_refused: "inv s \<Longrightarrow> sound r \<Longrightarrow> store r s = (Inl e, s') \<Longrightarrow> held_at s' = held_at s"
begin

lemma stores_inv: "inv s \<Longrightarrow> list_all sound rs \<Longrightarrow> inv (snd (for_each store rs s))"
proof (induction rs arbitrary: s)
  case (Cons r rs)
  then show ?case
    using store_inv [of s r] by (auto simp: andthen_app split: prod.splits sum.splits)
qed simp

lemma stores_fold:
  "inv s \<Longrightarrow> list_all sound rs \<Longrightarrow> for_each store rs s = (Inr (), s') \<Longrightarrow>
     held_at s' k = fold take_in (map val_of (filter (\<lambda>r. key_of r = k) rs)) (held_at s k)"
proof (induction rs arbitrary: s)
  case (Cons r rs)
  then obtain u where u: "store r s = (Inr (), u)" "for_each store rs u = (Inr (), s')"
    by (auto simp: andthen_app split: prod.splits sum.splits)
  moreover have "inv u" using store_inv [of s r] Cons.prems u by simp
  ultimately show ?case using Cons store_takes_in [of s r u k] by auto
qed simp

lemma stores_converge:
  assumes "inv s" and "inv t" and "held_at s = held_at t"
    and "list_all sound rs" and "mset rs = mset qs"
    and "\<And>r q. r \<in> set rs \<Longrightarrow> q \<in> set rs \<Longrightarrow> key_of r = key_of q \<Longrightarrow>
      newer (val_of r) (val_of q) \<or> newer (val_of q) (val_of r) \<or> val_of r = val_of q"
    and "for_each store rs s = (Inr (), s')" and "for_each store qs t = (Inr (), t')"
  shows "held_at s' = held_at t'"
proof
  fix k
  have "list_all sound qs"
    using assms(4,5) by (metis list.pred_set set_mset_mset)
  moreover have "fold take_in (map val_of (filter (\<lambda>r. key_of r = k) rs)) (held_at s k) =
      fold take_in (map val_of (filter (\<lambda>r. key_of r = k) qs)) (held_at s k)"
  proof (rule take_in_order_independent)
    show "mset (map val_of (filter (\<lambda>r. key_of r = k) rs)) = mset (map val_of (filter (\<lambda>r. key_of r = k) qs))"
      using assms(5) by simp
    show "newer v w \<or> newer w v \<or> v = w"
      if "v \<in> set (map val_of (filter (\<lambda>r. key_of r = k) rs))"
        and "w \<in> set (map val_of (filter (\<lambda>r. key_of r = k) rs))" for v w
    proof -
      from that obtain r q where "r \<in> set rs" "q \<in> set rs" "key_of r = key_of q" "v = val_of r" "w = val_of q"
        by auto
      then show ?thesis using assms(6) by blast
    qed
  qed
  ultimately show "held_at s' k = held_at t' k"
    using stores_fold [of s rs s' k] stores_fold [of t qs t' k] assms by simp
qed

text \<open>And what a store holds afterwards is none of it earlier than anything it was handed or held.\<close>

lemma stores_latest:
  assumes "inv s" and "list_all sound rs" and "for_each store rs s = (Inr (), s')" and "held_at s' k = Some x"
  shows "\<forall>r \<in> set rs. key_of r = k \<longrightarrow> \<not> newer (val_of r) x" and "held_at s k = Some h \<Longrightarrow> \<not> newer h x"
proof -
  from stores_fold [OF assms(1-3), of k] assms(4)
  have "fold take_in (map val_of (filter (\<lambda>r. key_of r = k) rs)) (held_at s k) = Some x" by simp
  from take_in_latest [OF this]
  show "\<forall>r \<in> set rs. key_of r = k \<longrightarrow> \<not> newer (val_of r) x" and "held_at s k = Some h \<Longrightarrow> \<not> newer h x"
    by auto
qed

end

end
