(* ===== verification/Libraries.thy ===== *)
theory Libraries
  imports Prelude
begin

text \<open>
  The code that is not in the repository and that the repository calls: Boost.JSON, libcurl's percent
  coding, \<^verbatim>\<open>boost::conversion::try_lexical_convert\<close> and the UTF-8 decoder of Boost.Locale. Each is a
  parameter: a function of the record \<open>libs\<close>, which every definition that reaches one of them takes
  as its argument. What a property needs of a library is a hypothesis of that property.
\<close>

section \<open>A JSON document as Boost.JSON holds it\<close>

text \<open>
  \<^verbatim>\<open>boost::json::value\<close> has one kind for each constructor. The code asks a value its kind
  (\<^verbatim>\<open>is_string\<close>, \<^verbatim>\<open>is_int64\<close>, \<^verbatim>\<open>is_uint64\<close>) and takes it apart (\<^verbatim>\<open>as_string\<close>), so the two kinds of
  integer are told apart as the library tells them. Nothing in the repository reads a double.
\<close>

datatype json =
    Jnull
  | Jbool bool
  | Jint int
  | Juint uint64
  | Jdouble
  | Jstring string
  | Jarray "json list"
  | Jobject "(string \<times> json) list"

type_synonym json_object = "(string \<times> json) list"

text \<open>\<^verbatim>\<open>object.contains(field)\<close> and \<^verbatim>\<open>object.at(field)\<close> in one: the value under a name, or nothing.\<close>

abbreviation json_at :: "json_object \<Rightarrow> string \<Rightarrow> json option" where
  "json_at obj name \<equiv> map_of obj name"

fun json_string_at :: "json_object \<Rightarrow> string \<Rightarrow> string option" where
  "json_string_at obj name = (case json_at obj name of Some (Jstring s) \<Rightarrow> Some s | _ \<Rightarrow> None)"

fun json_array_at :: "json_object \<Rightarrow> string \<Rightarrow> json list option" where
  "json_array_at obj name = (case json_at obj name of Some (Jarray a) \<Rightarrow> Some a | _ \<Rightarrow> None)"

fun json_object_at :: "json_object \<Rightarrow> string \<Rightarrow> json_object option" where
  "json_object_at obj name = (case json_at obj name of Some (Jobject j) \<Rightarrow> Some j | _ \<Rightarrow> None)"

fun json_bool_at :: "json_object \<Rightarrow> string \<Rightarrow> bool option" where
  "json_bool_at obj name = (case json_at obj name of Some (Jbool b) \<Rightarrow> Some b | _ \<Rightarrow> None)"

section \<open>The libraries\<close>

record libs =
  \<comment> \<open>\<^verbatim>\<open>boost::json::parse(text, error)\<close>: nothing is an error\<close>
  json_parse :: "string \<Rightarrow> json option"
  \<comment> \<open>\<^verbatim>\<open>boost::json::serialize(value)\<close>\<close>
  json_serialize :: "json \<Rightarrow> string"
  \<comment> \<open>\<^verbatim>\<open>curl_easy_escape\<close>\<close>
  url_escape :: "string \<Rightarrow> string"
  \<comment> \<open>\<^verbatim>\<open>curl_easy_unescape\<close>\<close>
  url_unescape :: "string \<Rightarrow> string"
  \<comment> \<open>\<^verbatim>\<open>try_lexical_convert\<close> to \<^verbatim>\<open>size_t\<close>, \<^verbatim>\<open>uint64_t\<close> and \<^verbatim>\<open>int64_t\<close>: nothing is false\<close>
  lexical_size :: "string \<Rightarrow> nat option"
  lexical_uint64 :: "string \<Rightarrow> uint64 option"
  lexical_int64 :: "string \<Rightarrow> int option"
  \<comment> \<open>\<^verbatim>\<open>utf_traits<char>::decode\<close> at the front of a text: the code point, and how many bytes it took
      after the first, which it always takes\<close>
  utf_decode :: "string \<Rightarrow> nat \<times> nat"
  \<comment> \<open>\<^verbatim>\<open>boost::locale::utf::is_valid_codepoint\<close>\<close>
  is_valid_codepoint :: "nat \<Rightarrow> bool"

definition parse_object :: "libs \<Rightarrow> string \<Rightarrow> json_object option" where
  "parse_object L text = (case json_parse L text of Some (Jobject obj) \<Rightarrow> Some obj | _ \<Rightarrow> None)"

text \<open>
  A concrete choice of the libraries, for the witnesses: nothing is escaped, a number is its decimal
  digits, every byte is a code point and one document is parsed, the one the witness is about.
\<close>

definition lex_digits :: "string \<Rightarrow> nat option" where
  "lex_digits s =
     (if s \<noteq> [] \<and> list_all (\<lambda>c. 48 \<le> byte_of c \<and> byte_of c \<le> 57) s then Some (digits_value s) else None)"

definition example_libs :: "json \<Rightarrow> libs" where
  "example_libs doc =
     \<lparr>json_parse = (\<lambda>s. if s = ''document'' then Some doc else None),
      json_serialize = (\<lambda>_. ''document''),
      url_escape = (\<lambda>s. s),
      url_unescape = (\<lambda>s. s),
      lexical_size = lex_digits,
      lexical_uint64 = (\<lambda>s. map_option of_nat (lex_digits s)),
      lexical_int64 = (\<lambda>s. if s \<noteq> [] \<and> hd s = CHR ''-'' then map_option (\<lambda>n. - int n) (lex_digits (tl s))
        else map_option int (lex_digits s)),
      utf_decode = (\<lambda>s. (byte_of (hd s), 0)),
      is_valid_codepoint = (\<lambda>p. p < 128)\<rparr>"

lemma to_string_digits: "list_all (\<lambda>c. 48 \<le> byte_of c \<and> byte_of c \<le> 57) (to_string n)"
proof (induction n rule: to_string.induct)
  case (1 n)
  have d: "n mod 10 < 10" by simp
  then have "48 + n mod 10 < 256" by linarith
  with d 1 show ?case
    by (cases "n < 10") (auto simp: to_string.simps [of n] digit_def)
qed

lemma lex_digits_to_string [simp]: "lex_digits (to_string n) = Some n"
  using to_string_digits [of n] digits_value_to_string [of n] by (simp add: lex_digits_def del: digits_value.simps)

lemma to_string_head [simp]: "hd (to_string n) \<noteq> CHR ''-''"
  using to_string_digits [of n] by (cases "to_string n") auto

lemma lexical_example:
  "lexical_int64 (example_libs doc) (int_to_string i) = Some i"
  "lexical_uint64 (example_libs doc) (to_string (unat n)) = Some n"
  "lexical_size (example_libs doc) (to_string k) = Some k"
proof -
  show "lexical_int64 (example_libs doc) (int_to_string i) = Some i"
    by (auto simp: example_libs_def int_to_string_def)
  show "lexical_uint64 (example_libs doc) (to_string (unat n)) = Some n"
    and "lexical_size (example_libs doc) (to_string k) = Some k"
    by (simp_all add: example_libs_def)
qed

end
