(* ===== verification/Errors.thy ===== *)
theory Errors
  imports Prelude
begin

text \<open>
  \<^verbatim>\<open>src/error/\<close>, \<^verbatim>\<open>src/router/api_error.cpp\<close> and the exception of
  \<^verbatim>\<open>src/repository/storage_error.h\<close>: the documented error codes, the name each has on the wire,
  the status each answers with, and the two shapes an error takes in the code: an
  \<^verbatim>\<open>error_message\<close> returned as a value and a \<^verbatim>\<open>storage_error\<close> thrown.
\<close>

section \<open>The codes\<close>

datatype code =
    Table_not_found
  | Table_exists
  | Invalid_table_name
  | Invalid_body
  | Dependency_not_found
  | Invalid_key_encoding
  | Key_too_large
  | Value_too_large
  | Invalid_range
  | Invalid_cursor
  | Invalid_partition
  | Invalid_partitions
  | Write_stalled
  | No_leader
  | Node_incomplete
  | Node_alone
  | Stale_leader
  | Storage_error
  | Not_found
  | Invalid_path
  | Method_not_allowed

fun error_name :: "code \<Rightarrow> string" where
  "error_name Table_not_found = ''table_not_found''"
| "error_name Table_exists = ''table_exists''"
| "error_name Invalid_table_name = ''invalid_table_name''"
| "error_name Invalid_body = ''invalid_body''"
| "error_name Dependency_not_found = ''dependency_not_found''"
| "error_name Invalid_key_encoding = ''invalid_key_encoding''"
| "error_name Key_too_large = ''key_too_large''"
| "error_name Value_too_large = ''value_too_large''"
| "error_name Invalid_range = ''invalid_range''"
| "error_name Invalid_cursor = ''invalid_cursor''"
| "error_name Invalid_partition = ''invalid_partition''"
| "error_name Invalid_partitions = ''invalid_partitions''"
| "error_name Write_stalled = ''write_stalled''"
| "error_name No_leader = ''no_leader''"
| "error_name Node_incomplete = ''node_incomplete''"
| "error_name Node_alone = ''node_alone''"
| "error_name Stale_leader = ''stale_leader''"
| "error_name Storage_error = ''storage_error''"
| "error_name Not_found = ''not_found''"
| "error_name Invalid_path = ''invalid_path''"
| "error_name Method_not_allowed = ''method_not_allowed''"

record error_message =
  err_code :: code
  err_message :: string

record storage_error =
  thrown_code :: code
  thrown_message :: string

abbreviation error_msg :: "code \<Rightarrow> string \<Rightarrow> error_message" where
  "error_msg c m \<equiv> \<lparr>err_code = c, err_message = m\<rparr>"

abbreviation storage_err :: "code \<Rightarrow> string \<Rightarrow> storage_error" where
  "storage_err c m \<equiv> \<lparr>thrown_code = c, thrown_message = m\<rparr>"

section \<open>The statuses\<close>

type_synonym status_code = nat

abbreviation ok_200 :: status_code where "ok_200 \<equiv> 200"
abbreviation created_201 :: status_code where "created_201 \<equiv> 201"
abbreviation no_content_204 :: status_code where "no_content_204 \<equiv> 204"
abbreviation bad_request_400 :: status_code where "bad_request_400 \<equiv> 400"
abbreviation not_found_404 :: status_code where "not_found_404 \<equiv> 404"
abbreviation method_not_allowed_405 :: status_code where "method_not_allowed_405 \<equiv> 405"
abbreviation conflict_409 :: status_code where "conflict_409 \<equiv> 409"
abbreviation payload_too_large_413 :: status_code where "payload_too_large_413 \<equiv> 413"
abbreviation internal_server_error_500 :: status_code where "internal_server_error_500 \<equiv> 500"
abbreviation service_unavailable_503 :: status_code where "service_unavailable_503 \<equiv> 503"

fun error_status :: "code \<Rightarrow> status_code" where
  "error_status Table_not_found = not_found_404"
| "error_status Not_found = not_found_404"
| "error_status Table_exists = conflict_409"
| "error_status Stale_leader = conflict_409"
| "error_status Invalid_table_name = bad_request_400"
| "error_status Invalid_body = bad_request_400"
| "error_status Dependency_not_found = bad_request_400"
| "error_status Invalid_key_encoding = bad_request_400"
| "error_status Invalid_range = bad_request_400"
| "error_status Invalid_cursor = bad_request_400"
| "error_status Invalid_partition = bad_request_400"
| "error_status Invalid_partitions = bad_request_400"
| "error_status Invalid_path = bad_request_400"
| "error_status Key_too_large = payload_too_large_413"
| "error_status Value_too_large = payload_too_large_413"
| "error_status Write_stalled = service_unavailable_503"
| "error_status No_leader = service_unavailable_503"
| "error_status Node_incomplete = service_unavailable_503"
| "error_status Node_alone = service_unavailable_503"
| "error_status Storage_error = internal_server_error_500"
| "error_status Method_not_allowed = method_not_allowed_405"

text \<open>
  No error answers with a status a fan out would take for success, so a refusal is always seen
  (\<^verbatim>\<open>cluster::refusal\<close> looks for statuses of 400 and above).
\<close>

lemma error_status_refuses [simp]: "400 \<le> error_status c"
  by (cases c) simp_all

lemma error_status_not_ok [simp]: "error_status c \<noteq> 200"
  by (cases c) simp_all

lemma error_name_inj: "error_name c = error_name d \<Longrightarrow> c = d"
  by (cases c; cases d) simp_all

end
