(* ===== verification/Records.thy ===== *)
theory Records
  imports Versions Libraries Errors
begin

text \<open>
  \<^verbatim>\<open>src/record/record.cpp\<close>: the two halves of a key, the version a write is stamped with, the bytes a
  value is stored as, and the limits a key and a value are refused beyond. The version is laid out big
  endian in front of the value, and two stored values are ordered by comparing those bytes.
\<close>

unbundle bit_operations_syntax

definition max_key_size :: nat where
  "max_key_size = 4 * 1024"

definition max_value_size :: nat where
  "max_value_size = 16 * 1024 * 1024"

section \<open>Keys\<close>

definition compose_key :: "string \<Rightarrow> string \<Rightarrow> string" where
  "compose_key part srt = (if srt = [] then part else part @ [zero_byte] @ srt)"

definition partition_key :: "string \<Rightarrow> string" where
  "partition_key key = (case find_char zero_byte key of None \<Rightarrow> key | Some i \<Rightarrow> take i key)"

definition sort_key :: "string \<Rightarrow> string" where
  "sort_key key = (case find_char zero_byte key of None \<Rightarrow> [] | Some separator \<Rightarrow> drop (separator + 1) key)"

section \<open>Versions and stored values\<close>

record version =
  v_term :: int
  v_count :: uint64

abbreviation stamp_of :: "int \<Rightarrow> uint64 \<Rightarrow> version" where
  "stamp_of t c \<equiv> \<lparr>v_term = t, v_count = c\<rparr>"

abbreviation no_version :: version where
  "no_version \<equiv> \<lparr>v_term = 0, v_count = 0\<rparr>"

definition version_size :: nat where
  "version_size = 16"

definition append_big_endian :: "uint64 \<Rightarrow> string" where
  "append_big_endian number = map (\<lambda>i. char_of (unat (drop_bit (8 * (7 - i)) number AND 0xff))) [0..<8]"

definition read_big_endian :: "string \<Rightarrow> uint64" where
  "read_big_endian bytes = foldl (\<lambda>number byte. push_bit 8 number OR of_nat (byte_of byte)) 0 (take 8 bytes)"

definition compose_value :: "version \<Rightarrow> string \<Rightarrow> string" where
  "compose_value stamp value =
     append_big_endian (word_of_int (v_term stamp)) @ append_big_endian (v_count stamp) @ value"

definition version_of :: "string \<Rightarrow> version" where
  "version_of stored =
     (if length stored < version_size then no_version
      else \<lparr>v_term = sint (read_big_endian stored), v_count = read_big_endian (drop 8 stored)\<rparr>)"

definition value_of :: "string \<Rightarrow> string" where
  "value_of stored = (if length stored < version_size then [] else drop version_size stored)"

definition is_newer :: "string \<Rightarrow> string \<Rightarrow> bool" where
  "is_newer stored than =
     (if length stored < version_size then False
      else if length than < version_size then True
      else take version_size than < take version_size stored)"

section \<open>Records\<close>

record record_t =
  rec_key :: string
  rec_value :: string
  rec_stamp :: version

definition valid_record :: "string \<Rightarrow> string \<Rightarrow> record_t" where
  "valid_record key value = \<lparr>rec_key = key, rec_value = value, rec_stamp = no_version\<rparr>"

function is_valid_utf8 :: "libs \<Rightarrow> string \<Rightarrow> bool" where
  "is_valid_utf8 L text =
     (if text = [] then True
      else let (point, further) = utf_decode L text
           in if \<not> is_valid_codepoint L point then False
              else is_valid_utf8 L (drop (Suc further) text))"
  by pat_completeness auto
termination
  by (relation "measure (\<lambda>(L, text). length text)") (auto simp: neq_Nil_conv)

declare is_valid_utf8.simps [simp del]

definition parse_key :: "libs \<Rightarrow> string \<Rightarrow> error_message + record_t" where
  "parse_key L key =
     (if \<not> is_valid_utf8 L key
      then Inl (error_msg Invalid_key_encoding ''Key does not percent decode to valid UTF-8.'')
      else if length key > max_key_size
      then Inl (error_msg Key_too_large (''Key is longer than '' @ to_string max_key_size @ '' bytes.''))
      else Inr (valid_record key []))"

definition parse_record :: "libs \<Rightarrow> string \<Rightarrow> string \<Rightarrow> error_message + record_t" where
  "parse_record L key value =
     (case parse_key L key of
        Inl e \<Rightarrow> Inl e
      | Inr _ \<Rightarrow>
          if length value > max_value_size
          then Inl (error_msg Value_too_large (''Value is longer than '' @ to_string max_value_size @ '' bytes.''))
          else Inr (valid_record key value))"

section \<open>The halves of a key\<close>

lemma find_zero_compose [simp]:
  "zero_byte \<notin> set p \<Longrightarrow> s \<noteq> [] \<Longrightarrow> find_char zero_byte (compose_key p s) = Some (length p)"
  by (simp add: compose_key_def)

lemma partition_key_prefix: "\<exists>rest. key = partition_key key @ rest"
proof (cases "find_char zero_byte key")
  case (Some i)
  then show ?thesis
    by (auto simp: partition_key_def intro!: exI [of _ "drop i key"])
qed (simp add: partition_key_def)

lemma partition_key_no_zero: "zero_byte \<notin> set (partition_key key)"
  by (auto simp: partition_key_def find_char_None_iff split: option.splits dest: find_char_Some)

text \<open>A key whose first half carries no zero byte is taken apart into the halves it was made of.\<close>

lemma partition_key_compose:
  "zero_byte \<notin> set part \<Longrightarrow> partition_key (compose_key part srt) = part"
  by (cases "srt = []") (simp_all add: partition_key_def compose_key_def)

lemma sort_key_compose:
  "zero_byte \<notin> set part \<Longrightarrow> sort_key (compose_key part srt) = srt"
  by (cases "srt = []") (simp_all add: sort_key_def compose_key_def)

text \<open>Composing the halves of any key gives the key back, but for one that ends at its separator.\<close>

lemma compose_halves:
  "compose_key (partition_key key) (sort_key key) = key \<or> key = partition_key key @ [zero_byte]"
proof (cases "find_char zero_byte key")
  case None
  then show ?thesis by (simp add: compose_key_def partition_key_def sort_key_def)
next
  case (Some i)
  then have i: "i < length key" "key ! i = zero_byte" by (auto dest: find_char_Some)
  then have "key = take i key @ zero_byte # drop (Suc i) key"
    by (metis id_take_nth_drop)
  moreover have "drop (Suc i) key = [] \<Longrightarrow> key = take i key @ [zero_byte]"
    using calculation by simp
  ultimately show ?thesis
    using Some by (auto simp: compose_key_def partition_key_def sort_key_def)
qed

section \<open>Big endian numbers\<close>

fun be_value :: "nat \<Rightarrow> string \<Rightarrow> nat" where
  "be_value n [] = n"
| "be_value n (c # cs) = be_value (n * 256 + byte_of c) cs"

fun be_bytes :: "nat \<Rightarrow> nat \<Rightarrow> string" where
  "be_bytes 0 n = []"
| "be_bytes (Suc k) n = be_bytes k (n div 256) @ [char_of n]"

lemma be_value_append [simp]: "be_value n (s @ t) = be_value (be_value n s) t"
  by (induction s arbitrary: n) auto

lemma be_value_shift: "be_value n s = n * 256 ^ length s + be_value 0 s"
proof (induction s arbitrary: n)
  case (Cons c s)
  show ?case
    using Cons [of "n * 256 + byte_of c"] Cons [of "byte_of c"] by (simp add: algebra_simps)
qed simp

lemma be_value_lt: "be_value 0 s < 256 ^ length s"
proof (induction s rule: rev_induct)
  case (snoc c s)
  then have "be_value 0 s * 256 + byte_of c < (be_value 0 s + 1) * 256"
    by simp
  also have "\<dots> \<le> 256 ^ length s * 256"
    using snoc by (intro mult_le_mono1) simp
  finally show ?case by simp
qed simp

lemma be_bytes_length [simp]: "length (be_bytes k n) = k"
  by (induction k arbitrary: n) auto

lemma be_value_bytes: "be_value 0 (be_bytes k n) = n mod 256 ^ k"
proof (induction k arbitrary: n)
  case (Suc k)
  have "n mod (256 * 256 ^ k) = 256 * (n div 256 mod 256 ^ k) + n mod 256"
    by (rule mod_mult2_eq)
  with Suc show ?case by simp
qed simp

text \<open>Bytes of one width compare as the numbers they are.\<close>

lemma be_less_iff:
  assumes "length s = length t"
  shows "(s < t) = (be_value 0 s < be_value 0 t)"
  using assms
proof (induction s t rule: list_induct2)
  case (Cons c s d t)
  let ?B = "256 ^ length s :: nat"
  have split: "be_value 0 (c # s) = byte_of c * ?B + be_value 0 s"
    "be_value 0 (d # t) = byte_of d * ?B + be_value 0 t"
    using Cons.hyps be_value_shift [of "byte_of c" s] be_value_shift [of "byte_of d" t] by simp_all
  have lt: "be_value 0 s < ?B" "be_value 0 t < ?B"
    using be_value_lt [of s] be_value_lt [of t] Cons.hyps by simp_all
  have up: "x < y \<Longrightarrow> a < ?B \<Longrightarrow> x * ?B + a < y * ?B + b" for x y a b :: nat
  proof -
    assume "x < y" "a < ?B"
    then have "x * ?B + a < Suc x * ?B" by simp
    also have "\<dots> \<le> y * ?B" using \<open>x < y\<close> by (intro mult_le_mono1) simp
    finally show ?thesis by simp
  qed
  consider (lt) "byte_of c < byte_of d" | (eq) "c = d" | (gt) "byte_of d < byte_of c"
    by (metis char_of_byte_of linorder_neqE_nat)
  then show ?case
  proof cases
    case lt
    with up [OF lt, of "be_value 0 s" "be_value 0 t"] \<open>be_value 0 s < ?B\<close> split show ?thesis
      by (simp add: char_less_iff_byte)
  next
    case eq
    with split Cons.IH show ?thesis by simp
  next
    case gt
    with up [OF gt, of "be_value 0 t" "be_value 0 s"] \<open>be_value 0 t < ?B\<close> split show ?thesis
      by (auto simp: char_less_iff_byte)
  qed
qed simp

section \<open>The bytes of a version\<close>

lemma and_ff_64: "unat (w AND 0xff :: uint64) = unat w mod 256"
proof -
  have "w AND 0xff = take_bit 8 w"
    by (simp add: take_bit_eq_mask mask_eq_exp_minus_1)
  then show ?thesis
    by (simp add: take_bit_eq_mod unat_mod)
qed

lemma be_bytes_8:
  "be_bytes 8 n = map (\<lambda>i. char_of (n div 2 ^ (8 * (7 - i)))) [0..<8]"
proof -
  have eight: "(8::nat) = Suc (Suc (Suc (Suc (Suc (Suc (Suc (Suc 0)))))))" by simp
  have "be_bytes 8 n =
     [char_of (n div 256 div 256 div 256 div 256 div 256 div 256 div 256),
      char_of (n div 256 div 256 div 256 div 256 div 256 div 256),
      char_of (n div 256 div 256 div 256 div 256 div 256),
      char_of (n div 256 div 256 div 256 div 256),
      char_of (n div 256 div 256 div 256), char_of (n div 256 div 256), char_of (n div 256), char_of n]"
    by (subst eight) (simp only: be_bytes.simps append.simps)
  moreover have "[0..<8] = [0, 1, 2, 3, 4, 5, 6, 7::nat]"
    by (simp add: upt_rec)
  ultimately show ?thesis
    by (simp add: div_mult2_eq [symmetric])
qed

lemma append_big_endian_bytes: "append_big_endian w = be_bytes 8 (unat w)"
proof -
  have "unat (drop_bit k w AND 0xff) = unat w div 2 ^ k mod 256" for k
    by (simp add: and_ff_64 unat_drop_bit_eq) (simp add: drop_bit_eq_div)
  then show ?thesis
    by (simp add: append_big_endian_def be_bytes_8)
qed

lemma append_big_endian_length [simp]: "length (append_big_endian w) = 8"
  by (simp add: append_big_endian_def)

lemma be_value_big_endian: "be_value 0 (append_big_endian w) = unat w"
  using unsigned_less [of w, where 'a = nat] by (simp add: append_big_endian_bytes be_value_bytes)

lemma push_8_or: "push_bit 8 (w :: uint64) OR of_nat (byte_of c) = w * 256 + of_nat (byte_of c)"
proof -
  have "take_bit 8 (byte_of c) = byte_of c"
    by (simp add: take_bit_nat_eq_self_iff)
  then have low: "take_bit 8 (of_nat (byte_of c) :: uint64) = of_nat (byte_of c)"
    by (simp add: take_bit_of_nat)
  have "push_bit 8 w AND of_nat (byte_of c) = 0"
    by (rule bit_word_eqI, subst low [symmetric]) (simp add: bit_simps)
  then have "push_bit 8 w OR of_nat (byte_of c) = push_bit 8 w + of_nat (byte_of c)"
    by (simp add: disjunctive_add_eq_or)
  then show ?thesis
    by (simp add: push_bit_eq_mult mult.commute)
qed

lemma foldl_be: "foldl (\<lambda>n c. push_bit 8 n OR of_nat (byte_of c)) (of_nat n :: uint64) s = of_nat (be_value n s)"
proof (induction s arbitrary: n)
  case (Cons c s)
  have "push_bit 8 (of_nat n) OR of_nat (byte_of c) = (of_nat (n * 256 + byte_of c) :: uint64)"
    by (simp add: push_8_or)
  with Cons [of "n * 256 + byte_of c"] show ?case by (simp only: foldl_Cons be_value.simps)
qed simp

lemma read_append_big_endian [simp]: "read_big_endian (append_big_endian w @ rest) = w"
  using foldl_be [of 0 "append_big_endian w"] by (simp add: read_big_endian_def be_value_big_endian)

definition in_int64 :: "int \<Rightarrow> bool" where
  "in_int64 i = (- (2 ^ 63) \<le> i \<and> i < 2 ^ 63)"

lemma sint_word_of_int64: "in_int64 i \<Longrightarrow> sint (word_of_int i :: uint64) = i"
  by (simp add: in_int64_def sint_sbintrunc' signed_take_bit_int_eq_self)

lemma compose_value_length [simp]: "length (compose_value v x) = version_size + length x"
  by (simp add: compose_value_def version_size_def)

lemma value_of_compose [simp]: "value_of (compose_value v x) = x"
  by (simp add: value_of_def) (simp add: compose_value_def version_size_def)

lemma drop_8_compose: "drop 8 (compose_value v x) = append_big_endian (v_count v) @ x"
  by (simp add: compose_value_def)

lemma version_of_compose: "in_int64 (v_term v) \<Longrightarrow> version_of (compose_value v x) = v"
  by (simp add: version_of_def drop_8_compose) (simp add: compose_value_def sint_word_of_int64)

section \<open>Later, in bytes and in numbers\<close>

definition version_less :: "version \<Rightarrow> version \<Rightarrow> bool" where
  "version_less v w =
     (v_term v < v_term w \<or> v_term v = v_term w \<and> v_count v < v_count w)"

lemma take_version_compose:
  "take version_size (compose_value v x) =
     append_big_endian (word_of_int (v_term v)) @ append_big_endian (v_count v)"
  by (simp add: compose_value_def version_size_def)

lemma big_endian_less [simp]: "(append_big_endian v < append_big_endian w) = (v < w)"
  by (simp add: be_less_iff be_value_big_endian word_less_nat_alt)

lemma big_endian_inj [simp]: "(append_big_endian v = append_big_endian w) = (v = w)"
  by (metis be_value_big_endian word_unat_eq_iff)

lemma append_less_same_length:
  assumes "length p = length q"
  shows "((p @ s :: string) < q @ t) = (p < q \<or> p = q \<and> s < t)"
  using assms by (induction p q rule: list_induct2) auto

lemma is_newer_compose_words:
  "is_newer (compose_value v x) (compose_value w y) =
     ((word_of_int (v_term w) :: uint64) < word_of_int (v_term v) \<or>
      (word_of_int (v_term w) :: uint64) = word_of_int (v_term v) \<and> v_count w < v_count v)"
  by (simp add: is_newer_def take_version_compose append_less_same_length)

lemma word_of_int64_less:
  assumes "0 \<le> i" and "in_int64 i" and "0 \<le> j" and "in_int64 j"
  shows "((word_of_int i :: uint64) < word_of_int j) = (i < j)"
    and "((word_of_int i :: uint64) = word_of_int j) = (i = j)"
proof -
  have "uint (word_of_int i :: uint64) = i" "uint (word_of_int j :: uint64) = j"
    using assms by (simp_all add: in_int64_def uint_word_of_int)
  then show "((word_of_int i :: uint64) < word_of_int j) = (i < j)"
    and "((word_of_int i :: uint64) = word_of_int j) = (i = j)"
    by (metis word_less_def, metis)
qed

lemma is_newer_compose:
  assumes "0 \<le> v_term v" and "in_int64 (v_term v)" and "0 \<le> v_term w" and "in_int64 (v_term w)"
  shows "is_newer (compose_value v x) (compose_value w y) = version_less w v"
  using assms word_of_int64_less [of "v_term w" "v_term v"]
  by (simp add: is_newer_compose_words version_less_def)

text \<open>The bytes of the store are one instance of the contract of versioned things.\<close>

interpretation stored: versioned is_newer
proof
  show "is_newer a b \<Longrightarrow> \<not> is_newer b a" for a b
    by (auto simp: is_newer_def split: if_splits)
  show "is_newer a c \<Longrightarrow> is_newer a b \<or> is_newer b c" for a b c
    by (auto simp: is_newer_def split: if_splits)
qed

end
