(* ===== verification/Schema.thy ===== *)
theory Schema
  imports Records
begin

text \<open>
  \<^verbatim>\<open>src/table/table.cpp\<close> and \<^verbatim>\<open>src/table/schema.cpp\<close>: a table and the names it may have, and the schema, which
  is every name the store has heard of, live or dropped, each at the version it was last written at. The
  schema moves between nodes as one JSON document and is merged a name at a time.
\<close>

section \<open>Tables\<close>

definition max_name_size :: nat where
  "max_name_size = 64"

record table =
  t_name :: string
  t_dependencies :: "string list"

abbreviation table_of :: "string \<Rightarrow> string list \<Rightarrow> table" where
  "table_of n ds \<equiv> \<lparr>t_name = n, t_dependencies = ds\<rparr>"

definition table_less :: "table \<Rightarrow> table \<Rightarrow> bool" where
  "table_less lhs rhs = (t_name lhs < t_name rhs)"

definition char_within :: "char \<Rightarrow> char \<Rightarrow> char \<Rightarrow> bool" where
  "char_within low high c = (c \<ge> low \<and> c \<le> high)"

definition name_character :: "char \<Rightarrow> bool" where
  "name_character c =
     (char_within CHR ''a'' CHR ''z'' c \<or> char_within CHR ''A'' CHR ''Z'' c \<or> char_within CHR ''0'' CHR ''9'' c \<or>
      c \<in> set '' _-'')"

definition is_valid_name :: "string \<Rightarrow> bool" where
  "is_valid_name name =
     (if name = [] \<or> length name > max_name_size \<or> name = ''default'' then False
      else list_all name_character name)"

fun read_dependencies :: "json list \<Rightarrow> string list \<Rightarrow> error_message + string list" where
  "read_dependencies [] tables = Inr []"
| "read_dependencies (element # rest) tables =
     (case element of
        Jstring dependency \<Rightarrow>
          if dependency \<notin> set tables
          then Inl (error_msg Dependency_not_found (''Dependency \"'' @ dependency @ ''\" is not a table.''))
          else (case read_dependencies rest tables of Inl e \<Rightarrow> Inl e | Inr ds \<Rightarrow> Inr (dependency # ds))
      | _ \<Rightarrow> Inl (error_msg Dependency_not_found ''A dependency is not the name of a table.''))"

definition parse_table :: "string \<Rightarrow> json_object \<Rightarrow> string list \<Rightarrow> error_message + table" where
  "parse_table name json tables =
     (if \<not> is_valid_name name
      then Inl (error_msg Invalid_table_name
             (''Table name \"'' @ name @ ''\" is not 1 to '' @ to_string max_name_size @
              '' characters of [A-Za-z0-9_ -], or is reserved.''))
      else case json_at json ''dependencies'' of
        None \<Rightarrow> Inr (table_of name [])
      | Some (Jarray dependency_array) \<Rightarrow>
          (case read_dependencies dependency_array tables of
             Inl e \<Rightarrow> Inl e
           | Inr dependencies \<Rightarrow> Inr (table_of name dependencies))
      | Some _ \<Rightarrow> Inl (error_msg Dependency_not_found ''Dependencies are not a list of table names.''))"

fun json_strings :: "json list \<Rightarrow> string list" where
  "json_strings [] = []"
| "json_strings (Jstring s # rest) = s # json_strings rest"
| "json_strings (_ # rest) = json_strings rest"

definition to_table :: "json_object \<Rightarrow> table" where
  "to_table json =
     table_of (case json_string_at json ''name'' of None \<Rightarrow> [] | Some name \<Rightarrow> name)
       (case json_array_at json ''dependencies'' of None \<Rightarrow> [] | Some ds \<Rightarrow> json_strings ds)"

definition table_to_json :: "table \<Rightarrow> json_object" where
  "table_to_json t = [(''name'', Jstring (t_name t)), (''dependencies'', Jarray (map Jstring (t_dependencies t)))]"

section \<open>The schema\<close>

record entry =
  e_stamp :: version
  e_declared :: "table option"

abbreviation entry_of :: "version \<Rightarrow> table option \<Rightarrow> entry" where
  "entry_of s d \<equiv> \<lparr>e_stamp = s, e_declared = d\<rparr>"

type_synonym schema = "(string, entry) smap"

definition stamp_newer :: "version \<Rightarrow> version \<Rightarrow> bool" where
  "stamp_newer stamp than =
     (if v_term stamp \<noteq> v_term than then v_term stamp > v_term than else v_count stamp > v_count than)"

definition json_number :: "json_object \<Rightarrow> string \<Rightarrow> uint64" where
  "json_number json field =
     (case json_at json field of
        Some (Juint n) \<Rightarrow> n
      | Some (Jint i) \<Rightarrow> if i > 0 then word_of_int i else 0
      | _ \<Rightarrow> 0)"

text \<open>\<^verbatim>\<open>std::set<table>::insert\<close>: in name order, and a name that is there already is kept.\<close>

fun table_insert :: "table \<Rightarrow> table list \<Rightarrow> table list" where
  "table_insert t [] = [t]"
| "table_insert t (u # us) =
     (if table_less t u then t # u # us else if table_less u t then u # table_insert t us else u # us)"

definition schema_tables :: "schema \<Rightarrow> table list" where
  "schema_tables entries =
     fold (\<lambda>(name, e) live. case e_declared e of None \<Rightarrow> live | Some t \<Rightarrow> table_insert t live) entries []"

definition schema_names :: "schema \<Rightarrow> string list" where
  "schema_names entries = map fst (filter (\<lambda>(name, e). e_declared e \<noteq> None) entries)"

definition schema_has :: "schema \<Rightarrow> string \<Rightarrow> bool" where
  "schema_has entries name = (case map_of entries name of None \<Rightarrow> False | Some e \<Rightarrow> e_declared e \<noteq> None)"

definition no_table :: "string \<Rightarrow> error_message" where
  "no_table name = error_msg Table_not_found (''No table named \"'' @ name @ ''\".'')"

definition schema_read :: "schema \<Rightarrow> string \<Rightarrow> error_message + table" where
  "schema_read entries name =
     (case map_of entries name of
        None \<Rightarrow> Inl (no_table name)
      | Some e \<Rightarrow> (case e_declared e of None \<Rightarrow> Inl (no_table name) | Some t \<Rightarrow> Inr t))"

definition schema_read_entry :: "schema \<Rightarrow> string \<Rightarrow> entry option" where
  "schema_read_entry entries name = map_of entries name"

definition schema_create :: "table \<Rightarrow> version \<Rightarrow> schema \<Rightarrow> schema" where
  "schema_create t stamp entries = map_put (t_name t) (entry_of stamp (Some t)) entries"

definition schema_remove :: "string \<Rightarrow> version \<Rightarrow> schema \<Rightarrow> schema" where
  "schema_remove name stamp entries = map_put name (entry_of stamp None) entries"

record change =
  c_name :: string
  c_live :: bool

fun merge_entries :: "schema \<Rightarrow> schema \<Rightarrow> change list \<Rightarrow> change list \<times> schema" where
  "merge_entries [] entries changed = (changed, entries)"
| "merge_entries ((name, incoming) # rest) entries changed =
     (let held = map_of entries name;
          had = (case held of None \<Rightarrow> False | Some h \<Rightarrow> e_declared h \<noteq> None)
      in if (case held of None \<Rightarrow> False | Some h \<Rightarrow> \<not> stamp_newer (e_stamp incoming) (e_stamp h))
         then merge_entries rest entries changed
         else merge_entries rest (map_put name incoming entries)
                (if had \<noteq> (e_declared incoming \<noteq> None)
                 then changed @ [\<lparr>c_name = name, c_live = e_declared incoming \<noteq> None\<rparr>]
                 else changed))"

definition schema_merge :: "schema \<Rightarrow> schema \<Rightarrow> change list \<times> schema" where
  "schema_merge named entries = merge_entries named entries []"

definition entry_to_json :: "string \<times> entry \<Rightarrow> json" where
  "entry_to_json = (\<lambda>(name, held).
     Jobject ([(''name'', Jstring name), (''live'', Jbool (e_declared held \<noteq> None)),
       (''term'', Jint (v_term (e_stamp held))), (''count'', Jint (sint (v_count (e_stamp held))))] @
       (case e_declared held of None \<Rightarrow> [] | Some t \<Rightarrow> [(''table'', Jobject (table_to_json t))])))"

definition schema_to_json :: "schema \<Rightarrow> json_object" where
  "schema_to_json entries = [(''schema'', Jarray (map entry_to_json entries))]"

definition read_item :: "json \<Rightarrow> schema \<Rightarrow> schema" where
  "read_item item read =
     (case item of
        Jobject one \<Rightarrow>
          (case json_string_at one ''name'' of
             None \<Rightarrow> read
           | Some name \<Rightarrow>
               let stamp = stamp_of (sint (json_number one ''term'')) (json_number one ''count'')
               in case (json_bool_at one ''live'', json_object_at one ''table'') of
                    (Some True, Some t) \<Rightarrow> schema_create (to_table t) stamp read
                  | _ \<Rightarrow> schema_remove name stamp read)
      | _ \<Rightarrow> read)"

definition to_schema :: "libs \<Rightarrow> string \<Rightarrow> schema" where
  "to_schema L json =
     (case parse_object L json of
        None \<Rightarrow> []
      | Some object \<Rightarrow>
          (case json_array_at object ''schema'' of
             None \<Rightarrow> []
           | Some named \<Rightarrow> fold read_item named []))"

section \<open>Creating is refused for a reason, and only then\<close>

lemma map_Jstring_inj [simp]: "(map Jstring xs = map Jstring ys) = (xs = ys)"
  by (simp add: inj_map_eq_map inj_def)

lemma read_dependencies_Inr:
  "(read_dependencies js tables = Inr ds) = (js = map Jstring ds \<and> set ds \<subseteq> set tables)"
proof (induction js arbitrary: ds)
  case Nil
  then show ?case by auto
next
  case (Cons j js)
  then show ?case
    by (cases j) (auto split: sum.splits if_splits simp: Cons_eq_map_conv)
qed

lemma read_dependencies_Inl:
  "read_dependencies js tables = Inl e \<Longrightarrow> err_code e = Dependency_not_found"
  by (induction js) (auto split: json.splits sum.splits if_splits)

text \<open>
  C38. A table is declared exactly when its name is one to sixty four allowed characters and not the
  reserved one, and its dependencies are missing or a list of names of tables there are; the table is
  then the one asked for, and what is refused is refused with one of the two documented codes.
\<close>

theorem parse_table_declares:
  "(parse_table name json tables = Inr t) =
     (is_valid_name name \<and> t_name t = name \<and>
      (json_at json ''dependencies'' = None \<and> t_dependencies t = [] \<or>
       json_at json ''dependencies'' = Some (Jarray (map Jstring (t_dependencies t))) \<and>
       set (t_dependencies t) \<subseteq> set tables)) \<and>
   (case parse_table name json tables of
      Inl e \<Rightarrow> err_code e = (if is_valid_name name then Dependency_not_found else Invalid_table_name)
    | Inr _ \<Rightarrow> True)"
proof -
  have "(parse_table name json tables = Inr t) =
     (is_valid_name name \<and> t_name t = name \<and>
      (json_at json ''dependencies'' = None \<and> t_dependencies t = [] \<or>
       json_at json ''dependencies'' = Some (Jarray (map Jstring (t_dependencies t))) \<and>
       set (t_dependencies t) \<subseteq> set tables))"
  proof (cases "json_at json ''dependencies''")
    case None
    then show ?thesis by (cases t) (auto simp: parse_table_def)
  next
    case (Some j)
    then show ?thesis
    proof (cases j)
      case (Jarray js)
      have "(case read_dependencies js tables of Inl e \<Rightarrow> Inl e | Inr ds \<Rightarrow> Inr (table_of name ds)) = Inr t \<longleftrightarrow>
          t_name t = name \<and> read_dependencies js tables = Inr (t_dependencies t)"
        by (cases t) (auto split: sum.splits)
      with Some Jarray show ?thesis by (auto simp: parse_table_def read_dependencies_Inr)
    qed (auto simp: parse_table_def)
  qed
  moreover have "parse_table name json tables = Inl e \<Longrightarrow>
      err_code e = (if is_valid_name name then Dependency_not_found else Invalid_table_name)" for e
    by (auto simp: parse_table_def split: option.splits json.splits sum.splits if_splits
        dest: read_dependencies_Inl)
  ultimately show ?thesis by (simp split: sum.splits)
qed

section \<open>Merging takes the later of two entries, a name at a time\<close>

definition entry_newer :: "entry \<Rightarrow> entry \<Rightarrow> bool" where
  "entry_newer e f = stamp_newer (e_stamp e) (e_stamp f)"

interpretation named_entries: versioned entry_newer
proof
  show "entry_newer a b \<Longrightarrow> \<not> entry_newer b a" for a b
    by (auto simp: entry_newer_def stamp_newer_def split: if_splits)
  show "entry_newer a c \<Longrightarrow> entry_newer a b \<or> entry_newer b c" for a b c
    by (auto simp: entry_newer_def stamp_newer_def split: if_splits)
qed

lemma stamp_newer_less: "stamp_newer v w = version_less w v"
  by (auto simp: stamp_newer_def version_less_def)

definition later_entry :: "entry option \<Rightarrow> entry option \<Rightarrow> entry option" where
  "later_entry incoming held =
     (case (incoming, held) of
        (None, _) \<Rightarrow> held
      | (Some i, None) \<Rightarrow> Some i
      | (Some i, Some h) \<Rightarrow> if entry_newer i h then Some i else Some h)"

definition live :: "entry option \<Rightarrow> bool" where
  "live e = (case e of None \<Rightarrow> False | Some e \<Rightarrow> e_declared e \<noteq> None)"

lemma schema_has_live: "schema_has entries name = live (map_of entries name)"
  by (simp add: schema_has_def live_def)

lemma merge_entries_lookup:
  "distinct (map fst named) \<Longrightarrow>
     map_of (snd (merge_entries named entries changed)) name = later_entry (map_of named name) (map_of entries name)"
proof (induction named entries changed rule: merge_entries.induct)
  case (1 entries changed)
  then show ?case by (simp add: later_entry_def)
next
  case (2 n incoming rest entries changed)
  have fresh: "map_of rest n = None" using "2.prems" by (simp add: map_of_eq_None_iff)
  show ?case
  proof (cases "case map_of entries n of None \<Rightarrow> False | Some h \<Rightarrow> \<not> stamp_newer (e_stamp incoming) (e_stamp h)")
    case True
    then have "merge_entries ((n, incoming) # rest) entries changed = merge_entries rest entries changed"
      by (auto simp: Let_def split: option.splits)
    moreover have "map_of (snd (merge_entries rest entries changed)) name =
        later_entry (map_of rest name) (map_of entries name)"
      using True "2.prems" by (intro "2.IH"(1)) (auto split: option.splits)
    ultimately show ?thesis
      using True fresh by (auto simp: later_entry_def entry_newer_def split: option.splits)
  next
    case False
    then obtain changed' where "merge_entries ((n, incoming) # rest) entries changed =
        merge_entries rest (map_put n incoming entries) changed'" and
      "map_of (snd (merge_entries rest (map_put n incoming entries) changed')) name =
        later_entry (map_of rest name) (map_of (map_put n incoming entries) name)"
      using "2.IH"(2) "2.prems" by (simp add: Let_def)
    then show ?thesis
      using False fresh by (auto simp: later_entry_def entry_newer_def split: option.splits)
  qed
qed

lemma merge_entries_ok: "map_ok entries \<Longrightarrow> map_ok (snd (merge_entries named entries changed))"
  by (induction named entries changed rule: merge_entries.induct) (auto simp: Let_def split: option.splits)

text \<open>A merge tells its caller of a name exactly when the name changed between live and not.\<close>

definition changes_of :: "schema \<Rightarrow> schema \<Rightarrow> change list" where
  "changes_of named entries =
     map (\<lambda>(name, i). \<lparr>c_name = name, c_live = e_declared i \<noteq> None\<rparr>)
       (filter (\<lambda>(name, i). later_entry (Some i) (map_of entries name) = Some i \<and>
           live (Some i) \<noteq> live (map_of entries name)) named)"

lemma merge_entries_changed:
  "distinct (map fst named) \<Longrightarrow>
     fst (merge_entries named entries changed) = changed @ changes_of named entries"
proof (induction named entries changed rule: merge_entries.induct)
  case (1 entries changed)
  then show ?case by (simp add: changes_of_def)
next
  case (2 n incoming rest entries changed)
  have same: "changes_of rest (map_put n incoming entries) = changes_of rest entries"
  proof -
    have "(n, i) \<notin> set rest" for i using "2.prems" by force
    then show ?thesis
      unfolding changes_of_def by (intro arg_cong [where f = "map _"] filter_cong) (auto split: prod.splits)
  qed
  show ?case
  proof (cases "map_of entries n")
    case None
    then show ?thesis
      using "2.IH"(2) [of "map_of entries n"] "2.prems" same
      by (auto simp: Let_def changes_of_def later_entry_def live_def)
  next
    case (Some h)
    show ?thesis
    proof (cases "stamp_newer (e_stamp incoming) (e_stamp h)")
      case True
      then show ?thesis
        using "2.IH"(2) [of "map_of entries n"] "2.prems" Some same
        by (auto simp: Let_def changes_of_def later_entry_def live_def entry_newer_def)
    next
      case False
      then have "later_entry (Some incoming) (Some h) = Some h" by (simp add: later_entry_def entry_newer_def)
      then show ?thesis
        using "2.IH"(1) [of "map_of entries n"] "2.prems" Some False
        by (auto simp: Let_def changes_of_def live_def)
    qed
  qed
qed

lemma schema_merge_lookup:
  "map_ok named \<Longrightarrow> map_of (snd (schema_merge named entries)) name = later_entry (map_of named name) (map_of entries name)"
  using merge_entries_lookup [OF map_ok_distinct] by (simp add: schema_merge_def)

lemma schema_merge_changes:
  assumes "map_ok named"
  shows "\<lparr>c_name = name, c_live = alive\<rparr> \<in> set (fst (schema_merge named entries)) \<longleftrightarrow>
    schema_has (snd (schema_merge named entries)) name = alive \<and> schema_has entries name \<noteq> alive"
proof -
  have "\<lparr>c_name = name, c_live = alive\<rparr> \<in> set (fst (schema_merge named entries)) \<longleftrightarrow>
      (\<exists>i. map_of named name = Some i \<and> alive = live (Some i) \<and>
         later_entry (Some i) (map_of entries name) = Some i \<and> live (Some i) \<noteq> live (map_of entries name))"
    using merge_entries_changed [OF map_ok_distinct [OF assms], of entries "[]"] map_of_in_set [OF assms]
    by (auto simp: schema_merge_def changes_of_def image_iff live_def)
  then show ?thesis
    unfolding schema_has_live schema_merge_lookup [OF assms]
    by (auto simp: later_entry_def split: option.splits if_splits)
qed

text \<open>
  C37. A merge leaves every name at the later of the two entries held for it, keeps the schema in name
  order, and reports a name exactly when the entry it took turned the name from dropped to live or from
  live to dropped: those are the names whose column family has to be made or dropped.
\<close>

theorem schema_merge_takes_the_later:
  assumes "map_ok named" and "map_ok entries"
  shows "map_ok (snd (schema_merge named entries)) \<and>
    (\<forall>name. map_of (snd (schema_merge named entries)) name =
       later_entry (map_of named name) (map_of entries name)) \<and>
    (\<forall>name alive. \<lparr>c_name = name, c_live = alive\<rparr> \<in> set (fst (schema_merge named entries)) \<longleftrightarrow>
       schema_has (snd (schema_merge named entries)) name = alive \<and> schema_has entries name \<noteq> alive)"
  using schema_merge_lookup [OF assms(1)] schema_merge_changes [OF assms(1)] merge_entries_ok [OF assms(2)]
  by (simp add: schema_merge_def)

theorem schema_merge_takes_the_later_witness:
  "let named = [(''orders'', entry_of (stamp_of 5 2) None)];
       entries = [(''orders'', entry_of (stamp_of 5 1) (Some (table_of ''orders'' [])))]
   in map_of (snd (schema_merge named entries)) ''orders'' = Some (entry_of (stamp_of 5 2) None) \<and>
      \<lparr>c_name = ''orders'', c_live = False\<rparr> \<in> set (fst (schema_merge named entries))"
  using schema_merge_takes_the_later
    [of "[(''orders'', entry_of (stamp_of 5 2) None)]"
        "[(''orders'', entry_of (stamp_of 5 1) (Some (table_of ''orders'' [])))]"]
  by (simp add: later_entry_def entry_newer_def stamp_newer_def schema_has_def)

end
