(* ===== verification/Url.thy ===== *)
theory Url
  imports Libraries
begin

text \<open>
  \<^verbatim>\<open>src/url/url.cpp\<close>: a request target taken apart into the segments of its path and the parameters of
  its query. The percent coding itself is libcurl's.
\<close>

definition encode_url :: "libs \<Rightarrow> string \<Rightarrow> string" where
  "encode_url L text = url_escape L text"

definition decode_url :: "libs \<Rightarrow> string \<Rightarrow> string" where
  "decode_url L encoded = url_unescape L encoded"

definition split_path :: "libs \<Rightarrow> string \<Rightarrow> string list" where
  "split_path L target =
     (let path = (case find_char CHR ''?'' target of None \<Rightarrow> target | Some i \<Rightarrow> take i target)
      in map (decode_url L) (filter (\<lambda>part. part \<noteq> []) (split_on CHR ''/'' path)))"

definition query_string :: "string \<Rightarrow> string" where
  "query_string target = (case find_char CHR ''?'' target of None \<Rightarrow> [] | Some i \<Rightarrow> drop (i + 1) target)"

text \<open>The first parameter of the name decides; a name without a value is passed over.\<close>

fun first_parameter :: "libs \<Rightarrow> string list \<Rightarrow> string \<Rightarrow> string" where
  "first_parameter L [] name = []"
| "first_parameter L (parameter # rest) name =
     (case find_char CHR ''='' parameter of
        Some equals \<Rightarrow>
          if take equals parameter = name then decode_url L (drop (equals + 1) parameter)
          else first_parameter L rest name
      | None \<Rightarrow> first_parameter L rest name)"

definition read_parameter :: "libs \<Rightarrow> string \<Rightarrow> string \<Rightarrow> string" where
  "read_parameter L query name = first_parameter L (split_on CHR ''&'' query) name"

section \<open>A query the code writes is a query the code reads\<close>

text \<open>
  Every query one node writes for another is a chain of \<open>name=value\<close> joined by ampersands, the values
  escaped. Reading it parameter by parameter needs no escaped value to hold a separator and every escape
  to be undone, which is what libcurl documents of its two functions.
\<close>

definition escapes :: "libs \<Rightarrow> bool" where
  "escapes L \<longleftrightarrow>
     (\<forall>s. url_unescape L (url_escape L s) = s \<and>
          set (url_escape L s) \<inter> {CHR ''&'', CHR ''='', CHR ''/'', CHR ''?''} = {})"

lemma escapesD [simp]:
  assumes "escapes L"
  shows "decode_url L (encode_url L s) = s" "CHR ''&'' \<notin> set (encode_url L s)"
    "CHR ''='' \<notin> set (encode_url L s)" "CHR ''/'' \<notin> set (encode_url L s)" "CHR ''?'' \<notin> set (encode_url L s)"
  using assms by (auto simp: escapes_def decode_url_def encode_url_def)

lemma read_parameter_last:
  assumes "CHR ''&'' \<notin> set v" and "CHR ''&'' \<notin> set name" and "CHR ''='' \<notin> set name"
  shows "read_parameter L (name @ ''='' @ v) name' = (if name' = name then decode_url L v else [])"
  using assms by (simp add: read_parameter_def)

lemma read_parameter_more:
  assumes "CHR ''&'' \<notin> set v" and "CHR ''&'' \<notin> set name" and "CHR ''='' \<notin> set name"
  shows "read_parameter L (name @ ''='' @ v @ ''&'' @ rest) name' =
    (if name' = name then decode_url L v else read_parameter L rest name')"
  using assms split_on_append [of "CHR ''&''" "name @ ''='' @ v" rest]
  by (simp add: read_parameter_def)

lemma query_string_of: "CHR ''?'' \<notin> set path \<Longrightarrow> query_string (path @ ''?'' @ query) = query"
  by (simp add: query_string_def)

lemma split_path_of:
  assumes "CHR ''?'' \<notin> set path"
  shows "split_path L (path @ ''?'' @ query) = split_path L path"
  using assms by (simp add: split_path_def)

end
