(* ===== verification/Base64.thy ===== *)
theory Base64
  imports Prelude
begin

text \<open>
  \<^verbatim>\<open>src/base64/base64.cpp\<close>: the encoding cursors, resume keys and every key and value of etcd's
  gateway travel in. The group the code shifts bits through is an \<^verbatim>\<open>unsigned int\<close> that decoding never
  masks, so it keeps its width here and the bits above it fall off the top.
\<close>

unbundle bit_operations_syntax

definition alphabet :: string where
  "alphabet = ''ABCDEFGHIJKLMNOPQRSTUVWXYZabcdefghijklmnopqrstuvwxyz0123456789+/''"

definition wide :: "char \<Rightarrow> uint32" where
  "wide c = of_nat (byte_of c)"

definition sextet :: "nat \<Rightarrow> uint32 \<Rightarrow> char" where
  "sextet shift grp = alphabet ! unat (drop_bit shift grp AND 0x3f)"

fun base64_encode :: "string \<Rightarrow> string" where
  "base64_encode [] = []"
| "base64_encode [a] =
     (let grp = push_bit 16 (wide a)
      in [sextet 18 grp, sextet 12 grp, CHR ''='', CHR ''=''])"
| "base64_encode [a, b] =
     (let grp = push_bit 16 (wide a) OR push_bit 8 (wide b)
      in [sextet 18 grp, sextet 12 grp, sextet 6 grp, CHR ''=''])"
| "base64_encode (a # b # c # rest) =
     (let grp = push_bit 16 (wide a) OR push_bit 8 (wide b) OR wide c
      in [sextet 18 grp, sextet 12 grp, sextet 6 grp, sextet 0 grp] @ base64_encode rest)"

fun decode_loop :: "uint32 \<Rightarrow> nat \<Rightarrow> string \<Rightarrow> string \<Rightarrow> string option" where
  "decode_loop grp bits text [] = Some text"
| "decode_loop grp bits text (character # rest) =
     (if character = CHR ''='' then Some text
      else case find_char character alphabet of
        None \<Rightarrow> None
      | Some found \<Rightarrow>
          let grp = push_bit 6 grp OR of_nat found; bits = bits + 6
          in if bits \<ge> 8
             then decode_loop grp (bits - 8)
                    (text @ [char_of (unat (drop_bit (bits - 8) grp AND 0xff))]) rest
             else decode_loop grp bits text rest)"

definition base64_decode :: "string \<Rightarrow> string option" where
  "base64_decode encoded = decode_loop 0 0 [] encoded"

section \<open>Every text comes back\<close>

lemma alphabet_facts [simp]: "length alphabet = 64" "distinct alphabet" "CHR ''='' \<notin> set alphabet"
  by (simp_all add: alphabet_def)

lemma and_3f: "w AND 0x3f = take_bit 6 (w :: uint32)"
  by (simp add: take_bit_eq_mask mask_eq_exp_minus_1)

lemma and_ff: "w AND 0xff = take_bit 8 (w :: uint32)"
  by (simp add: take_bit_eq_mask mask_eq_exp_minus_1)

lemma unat_sextet_lt [simp]: "unat (take_bit 6 (w :: uint32)) < 64"
  by (simp add: take_bit_eq_mod unat_mod)

lemma find_sextet [simp]:
  "find_char (sextet shift grp) alphabet = Some (unat (take_bit 6 (drop_bit shift grp)))"
  by (simp add: sextet_def and_3f find_char_nth)

lemma sextet_not_pad [simp]: "sextet shift grp \<noteq> CHR ''=''"
  by (metis alphabet_facts(1,3) and_3f nth_mem sextet_def unat_sextet_lt)

lemma wide_high [simp]: "8 \<le> n \<Longrightarrow> \<not> bit (wide c) n"
proof -
  assume n: "8 \<le> n"
  have "take_bit 8 (byte_of c) = byte_of c"
    by (simp add: take_bit_nat_eq_self_iff)
  then have "take_bit 8 (wide c) = wide c"
    by (simp add: wide_def take_bit_of_nat)
  with n show ?thesis
    by (metis bit_take_bit_iff leD)
qed

lemma below_8: "(n::nat) < 8 \<Longrightarrow>
  n = 0 \<or> n = 1 \<or> n = 2 \<or> n = 3 \<or> n = 4 \<or> n = 5 \<or> n = 6 \<or> n = 7"
  by arith

text \<open>
  A byte read back out of the shifted group is the byte that went in: bit by bit, for the three
  places a byte of a group can stand in, whatever was left in the group before.
\<close>

lemma byte_eqI:
  assumes "\<And>n. 8 \<le> n \<Longrightarrow> \<not> bit (v :: uint32) n" and "\<And>n. n < 8 \<Longrightarrow> bit w n = bit v n"
  shows "take_bit 8 w = v"
proof (rule bit_word_eqI)
  fix n
  show "bit (take_bit 8 w) n = bit v n"
    using assms(1) [of n] assms(2) [of n] by (cases "n < 8") (simp_all add: bit_simps)
qed

definition packed :: "char \<Rightarrow> uint32 \<Rightarrow> uint32 \<Rightarrow> uint32" where
  "packed a b c = push_bit 16 (wide a) OR push_bit 8 b OR c"

definition shifted :: "uint32 \<Rightarrow> nat \<Rightarrow> uint32 \<Rightarrow> uint32" where
  "shifted g shift w = push_bit 6 g OR take_bit 6 (drop_bit shift w)"

lemma first_byte:
  assumes "\<And>n. 8 \<le> n \<Longrightarrow> \<not> bit b n" and "\<And>n. 8 \<le> n \<Longrightarrow> \<not> bit c n"
  shows "take_bit 8 (drop_bit 4 (shifted (shifted g 18 (packed a b c)) 12 (packed a b c))) = wide a"
proof (rule byte_eqI)
  fix n :: nat assume "n < 8"
  then show "bit (drop_bit 4 (shifted (shifted g 18 (packed a b c)) 12 (packed a b c))) n = bit (wide a) n"
    by (elim below_8 [THEN disjE] disjE) (simp_all add: shifted_def packed_def bit_simps assms)
qed simp

lemma second_byte:
  assumes "\<And>n. 8 \<le> n \<Longrightarrow> \<not> bit c n"
  shows "take_bit 8 (drop_bit 2 (shifted (shifted g 12 (packed a (wide b) c)) 6 (packed a (wide b) c))) = wide b"
proof (rule byte_eqI)
  fix n :: nat assume "n < 8"
  then show "bit (drop_bit 2 (shifted (shifted g 12 (packed a (wide b) c)) 6 (packed a (wide b) c))) n = bit (wide b) n"
    by (elim below_8 [THEN disjE] disjE) (simp_all add: shifted_def packed_def bit_simps assms)
qed simp

lemma third_byte:
  "take_bit 8 (shifted (shifted g 6 (packed a (wide b) (wide c))) 0 (packed a (wide b) (wide c))) = wide c"
proof (rule byte_eqI)
  fix n :: nat assume "n < 8"
  then show "bit (shifted (shifted g 6 (packed a (wide b) (wide c))) 0 (packed a (wide b) (wide c))) n = bit (wide c) n"
    by (elim below_8 [THEN disjE] disjE) (simp_all add: shifted_def packed_def bit_simps)
qed simp

lemma char_of_wide [simp]: "char_of (unat (wide c)) = c"
proof -
  have "byte_of c < 2 ^ 32"
    by (rule less_trans [OF byte_of_lt]) simp
  then show ?thesis
    by (simp add: wide_def unat_of_nat)
qed

lemma packed_simps:
  "push_bit 16 (wide a) = packed a 0 0"
  "push_bit 16 (wide a) OR push_bit 8 (wide b) = packed a (wide b) 0"
  "push_bit 16 (wide a) OR push_bit 8 (wide b) OR wide c = packed a (wide b) (wide c)"
  by (simp_all add: packed_def)

lemma decode_sextet:
  "decode_loop g bits text (sextet k w # rest) =
     (if 2 \<le> bits
      then decode_loop (shifted g k w) (bits - 2)
             (text @ [char_of (unat (take_bit 8 (drop_bit (bits - 2) (shifted g k w))))]) rest
      else decode_loop (shifted g k w) (bits + 6) text rest)"
  by (simp add: shifted_def and_ff Let_def)

lemma decode_pad: "decode_loop g bits text (CHR ''='' # rest) = Some text"
  by simp

lemmas decode_steps = decode_sextet decode_pad first_byte second_byte third_byte Let_def

lemma decode_loop_encode: "decode_loop g 0 text (base64_encode s) = Some (text @ s)"
proof (induction s arbitrary: g "text" rule: base64_encode.induct)
  case (2 a)
  then show ?case
    by (simp add: packed_simps(1) decode_steps del: decode_loop.simps(2))
next
  case (3 a b)
  then show ?case
    by (simp add: packed_simps(2) decode_steps del: decode_loop.simps(2))
next
  case (4 a b c rest)
  then show ?case
    by (simp add: packed_simps(3) decode_steps del: decode_loop.simps(2))
qed simp

lemma base64_decode_encode [simp]: "base64_decode (base64_encode text) = Some text"
  by (simp add: base64_decode_def decode_loop_encode)

text \<open>
  C27. Every byte string survives the trip: decoding what \<^verbatim>\<open>base64::encode\<close> wrote gives the text back,
  whatever bytes are in it and whatever its length. A cursor, a resume key and every key and value
  of etcd depend on it.
\<close>

theorem base64_roundtrip: "base64_decode (base64_encode text) = Some text"
  by (simp add: base64_decode_def decode_loop_encode)

end
