(* ===== verification/Partition.thy ===== *)
theory Partition
  imports Records
begin

text \<open>
  \<^verbatim>\<open>src/cluster/partition.cpp\<close>: how the keyspace is cut into partitions, how a set of partitions travels,
  and the rendezvous hashing that says which node owns, leads and holds a partition. A
  \<^verbatim>\<open>std::bitset<256>\<close> is a \<^typ>\<open>256 word\<close>; the hash is computed in 64 bit words and wraps as the code's does.
\<close>

unbundle bit_operations_syntax

definition partition_count :: nat where
  "partition_count = 256"

type_synonym partition_set = "256 word"

abbreviation has :: "partition_set \<Rightarrow> nat \<Rightarrow> bool" where
  "has partitions p \<equiv> bit partitions p"

section \<open>Hashing\<close>

definition fnv_offset :: uint64 where
  "fnv_offset = 14695981039346656037"

definition fnv_prime :: uint64 where
  "fnv_prime = 1099511628211"

definition hash :: "string \<Rightarrow> uint64 \<Rightarrow> uint64" where
  "hash text seed = foldl (\<lambda>hashed byte. (hashed XOR of_nat (byte_of byte)) * fnv_prime) seed text"

definition mix :: "uint64 \<Rightarrow> uint64" where
  "mix h0 =
     (let h1 = h0 XOR drop_bit 33 h0;
          h2 = h1 * 0xff51afd7ed558ccd;
          h3 = h2 XOR drop_bit 33 h2;
          h4 = h3 * 0xc4ceb9fe1a85ec53
      in h4 XOR drop_bit 33 h4)"

definition partition_of :: "string \<Rightarrow> nat" where
  "partition_of key = unat (mix (hash (partition_key key) fnv_offset)) mod partition_count"

section \<open>A set of partitions as it travels\<close>

definition hex_digits :: string where
  "hex_digits = ''0123456789abcdef''"

definition bits_per_digit :: nat where
  "bits_per_digit = 4"

definition to_lower :: "char \<Rightarrow> char" where
  "to_lower c = (if 65 \<le> byte_of c \<and> byte_of c \<le> 90 then char_of (byte_of c + 32) else c)"

definition digit_of :: "char \<Rightarrow> nat option" where
  "digit_of character = find_char (to_lower character) hex_digits"

definition digit_at :: "partition_set \<Rightarrow> nat \<Rightarrow> nat" where
  "digit_at partitions p =
     fold (\<lambda>b d. d * 2 + (if has partitions (p - 1 - b) then 1 else 0)) [0..<bits_per_digit] 0"

function encode_from :: "partition_set \<Rightarrow> nat \<Rightarrow> string" where
  "encode_from partitions p =
     (if p > 0 then hex_digits ! digit_at partitions p # encode_from partitions (p - bits_per_digit) else [])"
  by pat_completeness auto
termination
  by (relation "measure snd") (auto simp: bits_per_digit_def)

definition encode_partitions :: "partition_set \<Rightarrow> string" where
  "encode_partitions partitions = encode_from partitions partition_count"

definition set_digit :: "nat \<Rightarrow> nat \<Rightarrow> partition_set \<Rightarrow> partition_set" where
  "set_digit d highest partitions =
     fold (\<lambda>b ps. if bit d (bits_per_digit - 1 - b) then set_bit (highest - b) ps else ps)
       [0..<bits_per_digit] partitions"

fun decode_from :: "nat \<Rightarrow> string \<Rightarrow> partition_set \<Rightarrow> partition_set option" where
  "decode_from i [] partitions = Some partitions"
| "decode_from i (c # text) partitions =
     (case digit_of c of
        None \<Rightarrow> None
      | Some d \<Rightarrow>
          decode_from (Suc i) text (set_digit d (partition_count - 1 - bits_per_digit * i) partitions))"

definition decode_partitions :: "string \<Rightarrow> partition_set option" where
  "decode_partitions text =
     (if length text \<noteq> partition_count div bits_per_digit then None else decode_from 0 text 0)"

section \<open>Who owns, leads and holds\<close>

record member =
  m_node :: string
  m_zone :: string

abbreviation member_of :: "string \<Rightarrow> string \<Rightarrow> member" where
  "member_of n z \<equiv> \<lparr>m_node = n, m_zone = z\<rparr>"

definition partition_name :: "nat \<Rightarrow> string" where
  "partition_name p = ''partition/'' @ to_string p"

definition score :: "string \<Rightarrow> string \<Rightarrow> uint64" where
  "score node key = mix (hash key (hash node fnv_offset))"

fun owner_from :: "string \<Rightarrow> string \<Rightarrow> uint64 \<Rightarrow> string list \<Rightarrow> string" where
  "owner_from key owner highest [] = owner"
| "owner_from key owner highest (node # nodes) =
     (let scored = score node key
      in if owner = [] \<or> scored > highest \<or> (scored = highest \<and> node < owner)
         then owner_from key node scored nodes
         else owner_from key owner highest nodes)"

definition owner_of :: "string \<Rightarrow> string list \<Rightarrow> string" where
  "owner_of key nodes = owner_from key [] 0 nodes"

definition zone_push :: "member \<Rightarrow> (string, string list) smap \<Rightarrow> (string, string list) smap" where
  "zone_push m zones =
     map_put (m_zone m) ((case map_of zones (m_zone m) of None \<Rightarrow> [] | Some ns \<Rightarrow> ns) @ [m_node m]) zones"

definition owners_of :: "string \<Rightarrow> member list \<Rightarrow> member list" where
  "owners_of key members =
     map (\<lambda>(zone, nodes). member_of (owner_of key nodes) zone) (fold zone_push members [])"

definition leader_of :: "string \<Rightarrow> member list \<Rightarrow> string" where
  "leader_of key members = owner_of key (map m_node members)"

definition zones_of :: "member list \<Rightarrow> string \<Rightarrow> string \<Rightarrow> string list list" where
  "zones_of members node zone =
     (let grouped = fold zone_push (filter (\<lambda>listed. m_node listed \<noteq> node) members) [(zone, [])]
      in (case map_of grouped zone of None \<Rightarrow> [] | Some ns \<Rightarrow> ns)
         # map snd (filter (\<lambda>(name, nodes). name \<noteq> zone) grouped))"

definition hold_partition ::
  "nat \<Rightarrow> string \<Rightarrow> (string, partition_set) smap \<Rightarrow> (string, partition_set) smap" where
  "hold_partition p holder holders =
     map_put holder (set_bit p (case map_of holders holder of None \<Rightarrow> 0 | Some ps \<Rightarrow> ps)) holders"

definition holders_in :: "partition_set \<Rightarrow> string list \<Rightarrow> (string, partition_set) smap" where
  "holders_in partitions nodes =
     fold (\<lambda>p holders.
         if \<not> has partitions p then holders
         else let holder = owner_of (partition_name p) nodes
              in if holder = [] then holders else hold_partition p holder holders)
       [0..<partition_count] []"

definition join_holders ::
  "(string, partition_set) smap \<Rightarrow> (string, partition_set) smap \<Rightarrow> (string, partition_set) smap" where
  "join_holders holding holders =
     fold (\<lambda>(holder, held) hs.
         map_put holder ((case map_of hs holder of None \<Rightarrow> 0 | Some ps \<Rightarrow> ps) OR held) hs)
       holding holders"

definition holders_of ::
  "partition_set \<Rightarrow> member list \<Rightarrow> string \<Rightarrow> string \<Rightarrow> (string, partition_set) smap" where
  "holders_of partitions members node zone =
     fold (\<lambda>in_zone holders. join_holders (holders_in partitions in_zone) holders)
       (zones_of members node zone) []"

section \<open>The partition of a key\<close>

lemma partition_of_lt [simp]: "partition_of key < partition_count"
  by (simp add: partition_of_def partition_count_def)

lemma partition_of_sort: "zero_byte \<notin> set part \<Longrightarrow> partition_of (compose_key part srt) = partition_of part"
  using partition_key_compose [of part srt] partition_key_compose [of part "[]"]
  by (simp add: partition_of_def) (simp add: compose_key_def)

lemma partition_name_inj [simp]: "(partition_name p = partition_name q) = (p = q)"
  by (simp add: partition_name_def)

section \<open>A set of partitions comes back as it was sent\<close>

declare encode_from.simps [simp del]

lemma upt_4: "[0..<bits_per_digit] = [0, 1, 2, 3]"
  by (simp add: bits_per_digit_def upt_rec)

definition nibble :: "bool \<Rightarrow> bool \<Rightarrow> bool \<Rightarrow> bool \<Rightarrow> nat" where
  "nibble a b c d = 8 * of_bool a + 4 * of_bool b + 2 * of_bool c + of_bool d"

lemma nibble_bits:
  "nibble a b c d < 16" "bit (nibble a b c d) 3 = a" "bit (nibble a b c d) 2 = b"
  "bit (nibble a b c d) 1 = c" "bit (nibble a b c d) 0 = d"
  by (cases a; cases b; cases c; cases d; simp add: nibble_def bit_iff_odd)+

lemma digit_at_nibble:
  "digit_at partitions p =
     nibble (has partitions (p - 1)) (has partitions (p - 1 - 1))
       (has partitions (p - 1 - 2)) (has partitions (p - 1 - 3))"
proof -
  have "fold (\<lambda>b d. d * 2 + (if f b then 1 else 0)) [0, 1, 2, 3] 0 = nibble (f 0) (f 1) (f 2) (f 3)"
    for f :: "nat \<Rightarrow> bool"
    by (simp add: nibble_def)
  then show ?thesis
    by (simp only: digit_at_def upt_4 diff_zero)
qed

lemma digit_at_lt: "digit_at partitions p < 16"
  by (simp only: digit_at_nibble nibble_bits)

lemmas bit_digit_at = nibble_bits(2-5) [where a = "has partitions (p - 1)" and b = "has partitions (p - 1 - 1)"
  and c = "has partitions (p - 1 - 2)" and d = "has partitions (p - 1 - 3)", folded digit_at_nibble]
  for partitions p

lemma digit_of_hex: "d < 16 \<Longrightarrow> digit_of (hex_digits ! d) = Some d"
proof -
  have "list_all (\<lambda>d. digit_of (hex_digits ! d) = Some d) [0..<16]"
    by code_simp
  then show "d < 16 \<Longrightarrow> digit_of (hex_digits ! d) = Some d"
    by (auto simp: list_all_iff)
qed

lemma bit_if_set:
  "n < 256 \<Longrightarrow> has (if c then set_bit n w else w) q = (has w q \<or> c \<and> q = n)"
  by (auto simp: bit_set_bit_iff)

lemma bit_set_digit:
  assumes "4 \<le> p" and "p \<le> partition_count"
  shows "has (set_digit (digit_at partitions p) (p - 1) acc) q =
     (has acc q \<or> p - 4 \<le> q \<and> q < p \<and> has partitions q)"
proof -
  have places: "bits_per_digit - 1 = 3" "(3::nat) - 1 = 2" "(3::nat) - 2 = 1" "(3::nat) - 3 = 0"
    by (simp_all add: bits_per_digit_def)
  have small: "p - 1 < 256" "p - 1 - 1 < 256" "p - 1 - 2 < 256" "p - 1 - 3 < 256"
    using assms by (simp_all add: partition_count_def)
  have "has (set_digit (digit_at partitions p) (p - 1) acc) q =
     ((((has acc q \<or> has partitions (p - 1) \<and> q = p - 1) \<or> has partitions (p - 1 - 1) \<and> q = p - 1 - 1) \<or>
       has partitions (p - 1 - 2) \<and> q = p - 1 - 2) \<or> has partitions (p - 1 - 3) \<and> q = p - 1 - 3)"
    by (simp only: set_digit_def upt_4 fold_simps places bit_digit_at small bit_if_set diff_zero)
  moreover have "p - 4 \<le> q \<and> q < p \<longleftrightarrow> q = p - 1 \<or> q = p - 1 - 1 \<or> q = p - 1 - 2 \<or> q = p - 1 - 3"
    using assms by arith
  ultimately show ?thesis
    by blast
qed

lemma decode_encode_from:
  assumes "p = 4 * k" and "p \<le> partition_count" and "i = (partition_count - p) div 4"
    and "\<And>q. has acc q = (has partitions q \<and> p \<le> q)"
  shows "decode_from i (encode_from partitions p) acc = Some partitions"
  using assms
proof (induction k arbitrary: p i acc)
  case 0
  then have "acc = partitions"
    by (intro bit_word_eqI) simp
  with 0 show ?case by (simp add: encode_from.simps)
next
  case (Suc k)
  let ?acc = "set_digit (digit_at partitions p) (p - 1) acc"
  have p: "4 \<le> p" "p - 4 = 4 * k" using Suc.prems(1) by simp_all
  have highest: "partition_count - 1 - bits_per_digit * i = p - 1"
    using Suc.prems(1-3) by (simp add: partition_count_def bits_per_digit_def)
  have "has ?acc q = (has partitions q \<and> p - 4 \<le> q)" for q
    using bit_set_digit [OF p(1) Suc.prems(2)] Suc.prems(4) p by auto
  then have "decode_from (Suc i) (encode_from partitions (p - 4)) ?acc = Some partitions"
    using Suc.prems p by (intro Suc.IH) (auto simp: partition_count_def)
  moreover have "encode_from partitions p = hex_digits ! digit_at partitions p # encode_from partitions (p - 4)"
    using p(1) by (subst encode_from.simps) (simp add: bits_per_digit_def)
  ultimately show ?case
    by (simp only: decode_from.simps digit_of_hex [OF digit_at_lt] highest option.case)
qed

lemma encode_from_length: "p = 4 * k \<Longrightarrow> length (encode_from partitions p) = k"
proof (induction k arbitrary: p)
  case (Suc k)
  then show ?case by (subst encode_from.simps) (simp add: bits_per_digit_def)
qed (simp add: encode_from.simps)

text \<open>
  A set of partitions comes back as it was sent: what a node names its share by is what the node it asks reads,
  and the text is sixty four characters long whatever is in the set.
\<close>

lemma partitions_read_back:
  "decode_partitions (encode_partitions partitions) = Some partitions \<and>
   length (encode_partitions partitions) = 64"
proof -
  have len: "length (encode_partitions partitions) = 64"
    by (simp add: encode_partitions_def partition_count_def encode_from_length [of _ 64])
  have "decode_from 0 (encode_partitions partitions) 0 = Some partitions"
    unfolding encode_partitions_def
    by (rule decode_encode_from [of _ 64]) (auto simp: partition_count_def dest: bit_imp_le_length)
  with len show ?thesis
    by (simp add: decode_partitions_def partition_count_def bits_per_digit_def)
qed

section \<open>The contract of ownership\<close>

text \<open>
  What everything above the hashing relies on: the owner of a key is one of the nodes it was chosen
  from, and narrowing the nodes to some that still hold the owner leaves the owner where it is. From
  those two laws alone: the order the membership is listed in does not matter, a node that joins takes
  keys for itself and moves no other, a node that leaves gives up its own and moves no other, and the
  owner over the whole membership is the owner inside its own zone.
\<close>

locale ownership =
  fixes owner :: "'k \<Rightarrow> 'n list \<Rightarrow> 'n" and named :: "'n \<Rightarrow> bool"
  assumes owner_in: "list_all named nodes \<Longrightarrow> nodes \<noteq> [] \<Longrightarrow> owner k nodes \<in> set nodes"
    and owner_narrow: "list_all named nodes \<Longrightarrow> set some \<subseteq> set nodes \<Longrightarrow> owner k nodes \<in> set some \<Longrightarrow>
      owner k some = owner k nodes"
begin

lemma owner_order_independent:
  assumes "list_all named nodes" and "set nodes = set others"
  shows "owner k nodes = owner k others"
proof (cases "nodes = []")
  case False
  with assms have "owner k nodes \<in> set others" using owner_in by blast
  with assms show ?thesis by (intro owner_narrow [symmetric]) auto
qed (use assms in simp)

lemma owner_join:
  assumes "list_all named nodes" and "named joining" and "nodes \<noteq> []"
  shows "owner k (joining # nodes) = joining \<or> owner k (joining # nodes) = owner k nodes"
proof -
  have all: "list_all named (joining # nodes)" using assms by simp
  then have "owner k (joining # nodes) \<in> set (joining # nodes)" by (rule owner_in) simp
  then consider "owner k (joining # nodes) = joining" | "owner k (joining # nodes) \<in> set nodes" by auto
  then show ?thesis
  proof cases
    case 2
    with all have "owner k nodes = owner k (joining # nodes)" by (intro owner_narrow) auto
    then show ?thesis by simp
  qed simp
qed

lemma owner_leave:
  assumes "list_all named nodes" and "owner k nodes \<noteq> leaving" and "nodes \<noteq> []"
  shows "owner k (filter (\<lambda>n. n \<noteq> leaving) nodes) = owner k nodes"
proof (rule owner_narrow)
  show "owner k nodes \<in> set (filter (\<lambda>n. n \<noteq> leaving) nodes)"
    using assms owner_in by simp
qed (use assms in auto)

end

section \<open>Rendezvous hashing keeps the contract\<close>

definition beats :: "string \<Rightarrow> string \<Rightarrow> string \<Rightarrow> bool" where
  "beats key a b = (score b key < score a key \<or> score a key = score b key \<and> a < b)"

lemma beats_total: "a \<noteq> b \<Longrightarrow> beats key a b \<or> beats key b a"
  by (auto simp: beats_def)

lemma beats_trans: "beats key a b \<Longrightarrow> beats key b c \<Longrightarrow> beats key a c"
  by (auto simp: beats_def)

lemma beats_irrefl [simp]: "\<not> beats key a a"
  by (simp add: beats_def)

lemma owner_from_best:
  assumes "owner \<noteq> []" and "[] \<notin> set nodes"
  shows "owner_from key owner (score owner key) nodes \<in> set (owner # nodes) \<and>
    (\<forall>n \<in> set (owner # nodes). n \<noteq> owner_from key owner (score owner key) nodes \<longrightarrow>
       beats key (owner_from key owner (score owner key) nodes) n)"
  using assms
proof (induction nodes arbitrary: owner)
  case (Cons node nodes)
  show ?case
  proof (cases "beats key node owner")
    case True
    then have "owner_from key owner (score owner key) (node # nodes) =
        owner_from key node (score node key) nodes"
      by (auto simp: beats_def Let_def)
    with Cons.IH [of node] Cons.prems True show ?thesis
      by (auto intro: beats_trans)
  next
    case False
    with Cons.prems have "owner_from key owner (score owner key) (node # nodes) =
        owner_from key owner (score owner key) nodes"
      by (auto simp: beats_def Let_def)
    with Cons.IH [of owner] Cons.prems False show ?thesis
      by (auto intro: beats_trans dest: beats_total)
  qed
qed simp

lemma owner_of_best:
  assumes "nodes \<noteq> []" and "[] \<notin> set nodes"
  shows "owner_of key nodes \<in> set nodes"
    and "n \<in> set nodes \<Longrightarrow> n \<noteq> owner_of key nodes \<Longrightarrow> beats key (owner_of key nodes) n"
proof -
  obtain node rest where nodes: "nodes = node # rest" using assms(1) by (cases nodes) auto
  then have eq: "owner_of key nodes = owner_from key node (score node key) rest"
    by (simp add: owner_of_def Let_def)
  have "node \<noteq> []" "[] \<notin> set rest" using assms(2) nodes by auto
  note best = owner_from_best [OF this, of key]
  show "owner_of key nodes \<in> set nodes"
    and "n \<in> set nodes \<Longrightarrow> n \<noteq> owner_of key nodes \<Longrightarrow> beats key (owner_of key nodes) n"
    unfolding eq using best nodes by auto
qed

lemma owner_of_unique:
  assumes "[] \<notin> set nodes" and "x \<in> set nodes" and "\<And>n. n \<in> set nodes \<Longrightarrow> n \<noteq> x \<Longrightarrow> beats key x n"
  shows "owner_of key nodes = x"
proof (rule ccontr)
  assume neq: "owner_of key nodes \<noteq> x"
  have "nodes \<noteq> []" using assms(2) by auto
  then have "beats key (owner_of key nodes) x" "beats key x (owner_of key nodes)"
    using owner_of_best [OF _ assms(1)] assms(2,3) neq by (metis, metis)
  then show False using beats_trans beats_irrefl by blast
qed

lemma owner_of_Nil [simp]: "owner_of key [] = []"
  by (simp add: owner_of_def)

lemma list_all_named: "list_all (\<lambda>n. n \<noteq> []) nodes = ([] \<notin> set nodes)"
  by (auto simp: list_all_iff)

interpretation rendezvous: ownership owner_of "\<lambda>n. n \<noteq> []"
proof
  fix nodes :: "string list" and k
  assume "list_all (\<lambda>n. n \<noteq> []) nodes" and "nodes \<noteq> []"
  then show "owner_of k nodes \<in> set nodes"
    using owner_of_best(1) by (simp add: list_all_named)
next
  fix nodes "some" :: "string list" and k
  assume all: "list_all (\<lambda>n. n \<noteq> []) nodes" and sub: "set some \<subseteq> set nodes"
    and own: "owner_of k nodes \<in> set some"
  then have "nodes \<noteq> []" "[] \<notin> set nodes" "[] \<notin> set some" by (auto simp: list_all_named)
  then show "owner_of k some = owner_of k nodes"
    using owner_of_best(2) [of nodes] sub own by (intro owner_of_unique) auto
qed

section \<open>The zones of a membership\<close>

definition nodes_in :: "string \<Rightarrow> member list \<Rightarrow> string list" where
  "nodes_in zone members = map m_node (filter (\<lambda>m. m_zone m = zone) members)"

lemma map_ok_zone_push: "map_ok zones \<Longrightarrow> map_ok (fold zone_push members zones)"
  by (induction members arbitrary: zones) (auto simp: zone_push_def)

lemma map_of_zone_push:
  "map_of (fold zone_push members zones) zone =
     (case map_of zones zone of
        None \<Rightarrow> if nodes_in zone members = [] then None else Some (nodes_in zone members)
      | Some ns \<Rightarrow> Some (ns @ nodes_in zone members))"
proof (induction members arbitrary: zones)
  case Nil
  then show ?case by (simp add: nodes_in_def split: option.split)
next
  case (Cons m members)
  then show ?case
    by (auto simp: zone_push_def nodes_in_def split: option.splits)
qed

lemma zone_groups:
  "(zone, nodes) \<in> set (fold zone_push members []) \<longleftrightarrow> nodes = nodes_in zone members \<and> nodes \<noteq> []"
  using map_of_in_set [OF map_ok_zone_push, of "[]" members zone nodes] map_of_zone_push [of members "[]" zone]
  by (auto split: if_splits)

lemma set_owners_of:
  "set (owners_of key members) =
     {member_of (owner_of key (nodes_in zone members)) zone | zone. nodes_in zone members \<noteq> []}"
  by (auto simp: owners_of_def image_iff zone_groups split: prod.splits)

lemma owners_of_zones: "map m_zone (owners_of key members) = map fst (fold zone_push members [])"
  by (simp add: owners_of_def case_prod_beta comp_def)

lemma nodes_in_set: "set (nodes_in zone members) = {m_node m | m. m \<in> set members \<and> m_zone m = zone}"
  by (auto simp: nodes_in_def)

lemma nodes_in_sub: "set (nodes_in zone members) \<subseteq> set (map m_node members)"
  by (auto simp: nodes_in_def)

text \<open>
  C34. Every zone with a node in it has exactly one owner of a key, that owner is a node of that zone,
  and no other zone is named: a key is held once in every zone.
\<close>

theorem one_owner_per_zone:
  assumes "[] \<notin> set (map m_node members)"
  shows "distinct (map m_zone (owners_of key members)) \<and>
    set (map m_zone (owners_of key members)) = m_zone ` set members \<and>
    (\<forall>owner \<in> set (owners_of key members). owner \<in> set members)"
proof -
  have "distinct (map m_zone (owners_of key members))"
    unfolding owners_of_zones by (rule map_ok_distinct [OF map_ok_zone_push]) simp
  moreover have "set (map m_zone (owners_of key members)) = m_zone ` set members"
  proof -
    have "m_zone ` set members = {zone. nodes_in zone members \<noteq> []}"
      by (auto simp: nodes_in_def filter_empty_conv)
    moreover have "m_zone ` set (owners_of key members) = {zone. nodes_in zone members \<noteq> []}"
      unfolding set_owners_of by force
    ultimately show ?thesis by simp
  qed
  moreover have "owner \<in> set members" if own: "owner \<in> set (owners_of key members)" for owner
  proof -
    from own obtain zone where zone: "nodes_in zone members \<noteq> []"
      and owner: "owner = member_of (owner_of key (nodes_in zone members)) zone"
      by (auto simp: set_owners_of)
    have "owner_of key (nodes_in zone members) \<in> set (nodes_in zone members)"
      using assms nodes_in_sub zone by (intro owner_of_best(1)) auto
    then obtain m where "m \<in> set members" "m_zone m = zone" "m_node m = owner_of key (nodes_in zone members)"
      by (auto simp: nodes_in_set)
    with owner show ?thesis by (cases m) auto
  qed
  ultimately show ?thesis by blast
qed

theorem one_owner_per_zone_witness:
  "distinct (map m_zone (owners_of ''partition/7'' [member_of ''n1'' ''a'', member_of ''n2'' ''a'', member_of ''n3'' ''b'']))"
  using one_owner_per_zone [of "[member_of ''n1'' ''a'', member_of ''n2'' ''a'', member_of ''n3'' ''b'']" "''partition/7''"]
  by simp

text \<open>
  The node that should lead a partition is one of the nodes that hold a copy of it: the owner over
  the whole membership is also the owner inside its own zone.
\<close>

lemma leader_holds_a_copy:
  assumes "members \<noteq> []" and "[] \<notin> set (map m_node members)"
  shows "leader_of key members \<in> m_node ` set (owners_of key members)"
proof -
  have all: "list_all (\<lambda>n. n \<noteq> []) (map m_node members)"
    using assms by (simp only: list_all_named not_False_eq_True)
  then have "leader_of key members \<in> set (map m_node members)"
    unfolding leader_of_def using assms(1) by (intro rendezvous.owner_in) auto
  then obtain m where m: "m \<in> set members" "m_node m = leader_of key members" by auto
  then have here: "leader_of key members \<in> set (nodes_in (m_zone m) members)"
    unfolding nodes_in_set by (metis (mono_tags, lifting) mem_Collect_eq)
  then have "owner_of key (nodes_in (m_zone m) members) = leader_of key members"
    unfolding leader_of_def using nodes_in_sub by (intro rendezvous.owner_narrow [OF all]) auto
  moreover have "nodes_in (m_zone m) members \<noteq> []" using here by auto
  ultimately show ?thesis
    by (auto simp: set_owners_of image_iff intro!: exI [of _ "member_of (leader_of key members) (m_zone m)"])
qed

text \<open>
  C35. Two nodes that read the same membership name the same owner, in whatever order the membership
  lists it; a node that joins takes keys only for itself; a node that leaves moves only the keys it
  owned.
\<close>

theorem owner_moves_minimally:
  assumes "nodes \<noteq> []" and "[] \<notin> set nodes"
  shows "(set nodes = set others \<longrightarrow> owner_of key nodes = owner_of key others) \<and>
    (joining \<noteq> [] \<longrightarrow>
       owner_of key (joining # nodes) = joining \<or> owner_of key (joining # nodes) = owner_of key nodes) \<and>
    (owner_of key nodes \<noteq> leaving \<longrightarrow> owner_of key (filter (\<lambda>n. n \<noteq> leaving) nodes) = owner_of key nodes)"
proof -
  have all: "list_all (\<lambda>n. n \<noteq> []) nodes"
    using assms by (simp only: list_all_named not_False_eq_True)
  show ?thesis
    using rendezvous.owner_order_independent [OF all] rendezvous.owner_join [OF all]
      rendezvous.owner_leave [OF all] assms(1) by blast
qed

theorem owner_moves_minimally_witness:
  "owner_of ''k'' [''n1'', ''n2''] = owner_of ''k'' [''n2'', ''n1''] \<and>
   (owner_of ''k'' [''n3'', ''n1'', ''n2''] = ''n3'' \<or>
    owner_of ''k'' [''n3'', ''n1'', ''n2''] = owner_of ''k'' [''n1'', ''n2''])"
proof -
  have "set [''n1'', ''n2''] = set [''n2'', ''n1'']" "[''n1'', ''n2''] \<noteq> []" "[] \<notin> set [''n1'', ''n2'']"
    "''n3'' \<noteq> []" by auto
  then show ?thesis
    using owner_moves_minimally [of "[''n1'', ''n2'']" "[''n2'', ''n1'']" "''k''" "''n3''" "[]"] by blast
qed

section \<open>Whom to ask for a share\<close>

lemma bit_set_bit_256: "p < partition_count \<Longrightarrow> has (set_bit p ps) q = (p = q \<or> has ps q)"
  by (auto simp: bit_set_bit_iff partition_count_def)

definition share_in :: "partition_set \<Rightarrow> string list \<Rightarrow> string \<Rightarrow> nat \<Rightarrow> bool" where
  "share_in partitions nodes holder p =
     (has partitions p \<and> holder \<noteq> [] \<and> owner_of (partition_name p) nodes = holder)"

definition held :: "(string, partition_set) smap \<Rightarrow> string \<Rightarrow> nat \<Rightarrow> bool" where
  "held holders h p = (case map_of holders h of None \<Rightarrow> False | Some ps \<Rightarrow> has ps p)"

lemma share_in_lt: "share_in partitions nodes h p \<Longrightarrow> p < partition_count"
  using bit_imp_le_length [of partitions p] by (auto simp: share_in_def partition_count_def)

lemma held_hold_partition:
  "p < partition_count \<Longrightarrow> held (hold_partition p o' holders) h q = (h = o' \<and> q = p \<or> held holders h q)"
  by (auto simp: held_def hold_partition_def bit_set_bit_256 split: option.splits)

definition ask_owner ::
  "partition_set \<Rightarrow> string list \<Rightarrow> nat \<Rightarrow> (string, partition_set) smap \<Rightarrow> (string, partition_set) smap" where
  "ask_owner partitions nodes p holders =
     (if \<not> has partitions p then holders
      else let holder = owner_of (partition_name p) nodes
           in if holder = [] then holders else hold_partition p holder holders)"

lemma holders_in_ask: "holders_in partitions nodes = fold (ask_owner partitions nodes) [0..<partition_count] []"
  by (simp add: holders_in_def ask_owner_def [abs_def])

lemma held_ask_owner:
  "p < partition_count \<Longrightarrow>
     held (ask_owner partitions nodes p holders) h q = (q = p \<and> share_in partitions nodes h p \<or> held holders h q)"
  by (auto simp: ask_owner_def Let_def held_hold_partition share_in_def)

lemma held_upto:
  "n \<le> partition_count \<Longrightarrow>
     held (fold (ask_owner partitions nodes) [0..<n] []) h q = (q < n \<and> share_in partitions nodes h q)"
proof (induction n)
  case 0
  then show ?case by (simp add: held_def)
next
  case (Suc n)
  then show ?case by (auto simp: held_ask_owner less_Suc_eq)
qed

lemma held_holders_in: "held (holders_in partitions nodes) h p = share_in partitions nodes h p"
  using share_in_lt by (auto simp: holders_in_ask held_upto)

lemma map_ok_holders_in: "map_ok (holders_in partitions nodes)"
proof -
  have "map_ok m \<Longrightarrow> map_ok (fold (ask_owner partitions nodes) ps m)" for m ps
    by (induction ps arbitrary: m) (simp_all add: ask_owner_def hold_partition_def Let_def)
  then show ?thesis by (simp add: holders_in_ask)
qed

lemma held_join_holders:
  "map_ok holding \<Longrightarrow> held (join_holders holding holders) h p = (held holding h p \<or> held holders h p)"
proof (induction holding arbitrary: holders)
  case Nil
  then show ?case by (simp add: join_holders_def held_def)
next
  case (Cons e holding)
  obtain k ps where e: "e = (k, ps)" by (cases e)
  have fresh: "map_of holding k = None"
    using Cons.prems e by (auto simp: map_of_eq_None_iff)
  let ?hs = "map_put k ((case map_of holders k of None \<Rightarrow> 0 | Some qs \<Rightarrow> qs) OR ps) holders"
  have "join_holders (e # holding) holders = join_holders holding ?hs"
    by (simp add: join_holders_def e)
  moreover have "held ?hs h p = (h = k \<and> has ps p \<or> held holders h p)"
    by (auto simp: held_def bit_or_iff split: option.splits)
  ultimately show ?case
    using Cons.IH [of ?hs] Cons.prems fresh by (auto simp: e held_def)
qed

lemma held_holders_of:
  "held (holders_of partitions members node zone) h p =
     (\<exists>in_zone \<in> set (zones_of members node zone). share_in partitions in_zone h p)"
proof -
  have "held (fold (\<lambda>in_zone. join_holders (holders_in partitions in_zone)) zs holders) h p =
      ((\<exists>in_zone \<in> set zs. share_in partitions in_zone h p) \<or> held holders h p)" for zs holders
    by (induction zs arbitrary: holders)
      (auto simp: held_join_holders map_ok_holders_in held_holders_in)
  then show ?thesis
    by (simp add: holders_of_def held_def)
qed

lemma zones_of_nodes:
  "in_zone \<in> set (zones_of members node zone) \<Longrightarrow> n \<in> set in_zone \<Longrightarrow>
     n \<noteq> node \<and> n \<in> m_node ` set members"
proof -
  let ?others = "filter (\<lambda>m. m_node m \<noteq> node) members"
  let ?grouped = "fold zone_push ?others [(zone, [])]"
  assume "in_zone \<in> set (zones_of members node zone)" and n: "n \<in> set in_zone"
  then obtain z where "map_of ?grouped z = Some in_zone"
    using map_of_in_set [OF map_ok_zone_push, of "[(zone, [])]"]
    by (auto simp: zones_of_def Let_def split: option.splits)
  then have "in_zone = nodes_in z ?others"
    by (auto simp: map_of_zone_push split: if_splits)
  with n show ?thesis by (auto simp: nodes_in_set)
qed

text \<open>
  C36. A pass filling a share asks, for each partition of the share, the owner of that partition in every
  zone and nobody else, and it never asks itself.
\<close>

theorem holders_of_asks_the_owners:
  assumes "[] \<notin> set (map m_node members)"
  shows "held (holders_of partitions members node zone) h p =
      (has partitions p \<and>
       (\<exists>in_zone \<in> set (zones_of members node zone). in_zone \<noteq> [] \<and> owner_of (partition_name p) in_zone = h)) \<and>
    (held (holders_of partitions members node zone) h p \<longrightarrow> h \<noteq> node \<and> h \<in> m_node ` set members)"
proof -
  have own: "owner_of (partition_name p) in_zone \<in> set in_zone"
    if "in_zone \<in> set (zones_of members node zone)" "in_zone \<noteq> []" for in_zone
    using zones_of_nodes [OF that(1)] that(2) assms by (intro owner_of_best(1)) auto
  have "owner_of (partition_name p) in_zone \<noteq> [] \<longleftrightarrow> in_zone \<noteq> []"
    if z: "in_zone \<in> set (zones_of members node zone)" for in_zone
    using own [OF z] zones_of_nodes [OF z] assms by (cases "in_zone = []") auto
  then have eq: "held (holders_of partitions members node zone) h p =
      (has partitions p \<and>
       (\<exists>in_zone \<in> set (zones_of members node zone). in_zone \<noteq> [] \<and> owner_of (partition_name p) in_zone = h))"
    unfolding held_holders_of share_in_def by blast
  moreover have "h \<noteq> node \<and> h \<in> m_node ` set members"
    if "held (holders_of partitions members node zone) h p"
    using that own zones_of_nodes unfolding eq by blast
  ultimately show ?thesis by blast
qed

theorem holders_of_asks_the_owners_witness:
  "held (holders_of 4 [member_of ''n1'' ''a'', member_of ''n2'' ''b''] ''n1'' ''a'') ''n2'' 2"
proof -
  have zones: "zones_of [member_of ''n1'' ''a'', member_of ''n2'' ''b''] ''n1'' ''a'' = [[], [''n2'']]"
    by (simp add: zones_of_def zone_push_def)
  have "owner_of (partition_name 2) [''n2''] = ''n2''"
    by (simp add: owner_of_def Let_def)
  then show ?thesis
    using holders_of_asks_the_owners [of "[member_of ''n1'' ''a'', member_of ''n2'' ''b'']" 4 "''n1''" "''a''" "''n2''" 2]
    by (simp add: zones bit_numeral_rec)
qed

end
