(* ===== verification/Scan.thy ===== *)
theory Scan
  imports Url Base64 Partition "HOL-Library.Sublist"
begin

text \<open>
  \<^verbatim>\<open>src/scan/scan.cpp\<close>: the range a scan reads, parsed from a query, and the cursor a page is resumed
  at. A scan reads one partition; the cursor names the partition and the instance it was issued for.
\<close>

definition default_limit :: nat where
  "default_limit = 100"

definition max_limit :: nat where
  "max_limit = 1000"

definition max_page_bytes :: nat where
  "max_page_bytes = 8 * 1024 * 1024"

record range =
  r_partition :: nat
  r_from :: string
  r_to :: string
  r_has_from :: bool
  r_has_to :: bool
  r_reverse :: bool
  r_values :: bool
  r_limit :: nat

record page =
  p_records :: "record_t list"
  p_has_more :: bool

definition default_range :: range where
  "default_range =
     \<lparr>r_partition = 0, r_from = [], r_to = [], r_has_from = False, r_has_to = False, r_reverse = False,
      r_values = True, r_limit = default_limit\<rparr>"

section \<open>The end of a prefix\<close>

function strip_ff :: "string \<Rightarrow> string" where
  "strip_ff stop = (if stop \<noteq> [] \<and> byte_of (last stop) = 255 then strip_ff (butlast stop) else stop)"
  by pat_completeness auto
termination
  by (relation "measure length") auto

declare strip_ff.simps [simp del]

definition prefix_end :: "string \<Rightarrow> string option" where
  "prefix_end pre =
     (let stop = strip_ff pre
      in if stop = [] then None else Some (butlast stop @ [char_of (byte_of (last stop) + 1)]))"

section \<open>Reading a range\<close>

definition read_limit :: "libs \<Rightarrow> string \<Rightarrow> nat" where
  "read_limit L query =
     (case lexical_size L (read_parameter L query ''limit'') of
        None \<Rightarrow> default_limit
      | Some limit \<Rightarrow> min (max limit 1) max_limit)"

definition partition_named :: "libs \<Rightarrow> string \<Rightarrow> nat option" where
  "partition_named L query =
     (let named = read_parameter L query ''partition''; key = read_parameter L query ''key''
      in if (named = []) = (key = []) then None
         else if key \<noteq> [] then Some (partition_of key)
         else case lexical_size L named of
                None \<Rightarrow> None
              | Some part \<Rightarrow> if part \<ge> partition_count then None else Some part)"

definition read_partition :: "libs \<Rightarrow> string \<Rightarrow> nat option" where
  "read_partition L query = partition_named L query"

definition read_cursor :: "libs \<Rightarrow> string \<Rightarrow> string \<Rightarrow> nat \<Rightarrow> string option" where
  "read_cursor L cursor instance_name part =
     (case base64_decode cursor of
        None \<Rightarrow> None
      | Some decoded \<Rightarrow>
          (case parse_object L decoded of
             None \<Rightarrow> None
           | Some obj \<Rightarrow>
               (case json_string_at obj ''k'' of
                  None \<Rightarrow> None
                | Some k \<Rightarrow>
                    if json_string_at obj ''s'' \<noteq> Some instance_name then None
                    else if json_at obj ''p'' \<noteq> Some (Jint (int part)) then None
                    else Some k)))"

definition cursor_document :: "string \<Rightarrow> string \<Rightarrow> nat \<Rightarrow> json" where
  "cursor_document key instance_name part =
     Jobject [(''k'', Jstring key), (''s'', Jstring instance_name), (''p'', Jint (int part))]"

definition encode_cursor :: "libs \<Rightarrow> string \<Rightarrow> string \<Rightarrow> nat \<Rightarrow> string" where
  "encode_cursor L key instance_name part =
     base64_encode (json_serialize L (cursor_document key instance_name part))"

text \<open>
  The bounds of a range: a prefix gives both where it has an end, and an explicit bound overrides the
  prefix's.
\<close>

definition read_bounds :: "libs \<Rightarrow> string \<Rightarrow> range \<Rightarrow> range" where
  "read_bounds L query r0 =
     (let pre = read_parameter L query ''prefix'';
          from = read_parameter L query ''from'';
          to = read_parameter L query ''to'';
          r1 = (if pre \<noteq> [] then
                  let r = r0\<lparr>r_from := pre, r_has_from := True\<rparr>
                  in case prefix_end pre of None \<Rightarrow> r | Some e \<Rightarrow> r\<lparr>r_to := e, r_has_to := True\<rparr>
                else r0);
          r2 = (if from \<noteq> [] then r1\<lparr>r_from := from, r_has_from := True\<rparr> else r1)
      in if to \<noteq> [] then r2\<lparr>r_to := to, r_has_to := True\<rparr> else r2)"

definition resume_at :: "string \<Rightarrow> range \<Rightarrow> range" where
  "resume_at key r =
     (if r_reverse r then r\<lparr>r_to := key, r_has_to := True\<rparr>
      else r\<lparr>r_from := key @ [zero_byte], r_has_from := True\<rparr>)"

definition parse_range :: "libs \<Rightarrow> string \<Rightarrow> string \<Rightarrow> error_message + range" where
  "parse_range L query instance_name =
     (case read_partition L query of
        None \<Rightarrow> Inl (error_msg Invalid_partition
                  ''A scan names the partition it reads, as \"partition\" or as a \"key\" that is in it.'')
      | Some part \<Rightarrow>
          (let r = read_bounds L query (default_range\<lparr>r_partition := part\<rparr>)
           in if r_has_from r \<and> r_has_to r \<and> r_from r \<ge> r_to r
              then Inl (error_msg Invalid_range
                (''Range from \"'' @ r_from r @ ''\" is not below to \"'' @ r_to r @ ''\".''))
              else
                let r = r\<lparr>r_reverse := (read_parameter L query ''reverse'' = ''true''),
                          r_values := (read_parameter L query ''values'' \<noteq> ''false''),
                          r_limit := read_limit L query\<rparr>;
                    cursor = read_parameter L query ''cursor''
                in if cursor = [] then Inr r
                   else case read_cursor L cursor instance_name part of
                          None \<Rightarrow> Inl (error_msg Invalid_cursor
                            ''Cursor was not issued by this instance for this partition.'')
                        | Some key \<Rightarrow> Inr (resume_at key r)))"

section \<open>The keys of a prefix are one range\<close>

lemma strip_ff_Cons:
  "strip_ff (c # p) = (if strip_ff p = [] then (if byte_of c = 255 then [] else [c]) else c # strip_ff p)"
proof (induction p rule: rev_induct)
  case Nil
  then show ?case by (simp add: strip_ff.simps [of "[c]"] strip_ff.simps [of "[]"])
next
  case (snoc d p)
  then show ?case
    by (cases "byte_of d = 255") (simp_all add: strip_ff.simps [of "c # p @ [d]"] strip_ff.simps [of "p @ [d]"])
qed

lemma prefix_end_Nil [simp]: "prefix_end [] = None"
  by (simp add: prefix_end_def strip_ff.simps)

lemma prefix_end_Cons:
  "prefix_end (c # p) =
     (case prefix_end p of
        Some e \<Rightarrow> Some (c # e)
      | None \<Rightarrow> if byte_of c = 255 then None else Some [char_of (byte_of c + 1)])"
  by (simp add: prefix_end_def strip_ff_Cons Let_def)

lemma next_char_less:
  assumes "byte_of c \<noteq> 255"
  shows "(d < char_of (byte_of c + 1)) = (d \<le> c)"
proof -
  have "byte_of c + 1 < 256" using assms byte_of_lt [of c] by linarith
  then show ?thesis by (auto simp: char_less_iff_byte char_le_iff_byte)
qed

lemma top_char: "byte_of c = 255 \<Longrightarrow> d \<le> c"
  using byte_of_lt [of d] unfolding char_le_iff_byte by linarith

text \<open>
  The keys a scan by prefix reads, those from the prefix up to the end the code computes for it, are exactly the
  keys that begin with the prefix, for prefixes that end in the highest byte too; a prefix of nothing but the
  highest byte has no end, and then every key from it on begins with it.
\<close>

lemma prefix_end_iff:
  "(pre \<le> key \<and> (case prefix_end pre of None \<Rightarrow> True | Some stop \<Rightarrow> key < stop)) \<longleftrightarrow> prefix pre key"
proof (induction pre arbitrary: key)
  case Nil
  then show ?case by simp
next
  case (Cons c p)
  show ?case
  proof (cases key)
    case Nil
    then show ?thesis by simp
  next
    case (Cons d k)
    have IH: "(p \<le> k \<and> (case prefix_end p of None \<Rightarrow> True | Some e \<Rightarrow> k < e)) = prefix p k"
      by (rule Cons.IH)
    show ?thesis
    proof (cases "prefix_end p")
      case None
      then show ?thesis
        using IH Cons next_char_less [of c d] top_char [of c d]
        by (cases "byte_of c = 255") (auto simp: prefix_end_Cons)
    next
      case (Some e)
      then show ?thesis using IH Cons by (auto simp: prefix_end_Cons)
    qed
  qed
qed

section \<open>What a range that is taken is bounded by\<close>

lemma read_limit_bounds: "1 \<le> read_limit L query \<and> read_limit L query \<le> max_limit"
  by (auto simp: read_limit_def default_limit_def max_limit_def split: option.splits)

lemma partition_named_lt: "partition_named L query = Some part \<Longrightarrow> part < partition_count"
  by (auto simp: partition_named_def Let_def partition_of_lt split: if_splits option.splits)

lemma read_bounds_keeps [simp]:
  "r_partition (read_bounds L query r) = r_partition r"
  by (simp add: read_bounds_def Let_def split: option.splits)

lemma resume_at_keeps [simp]:
  "r_partition (resume_at key r) = r_partition r" "r_limit (resume_at key r) = r_limit r"
  "r_values (resume_at key r) = r_values r" "r_reverse (resume_at key r) = r_reverse r"
  by (simp_all add: resume_at_def)



section \<open>Cursors\<close>

lemma read_encode_cursor:
  assumes "json_parse L (json_serialize L (cursor_document key inst part)) = Some (cursor_document key inst part)"
  shows "read_cursor L (encode_cursor L key inst part) inst' part' =
    (if inst' = inst \<and> part' = part then Some key else None)"
  using assms
  by (auto simp: read_cursor_def encode_cursor_def base64_decode_encode parse_object_def cursor_document_def)

text \<open>
  C40. A cursor is read back as the key it was issued at by the instance that issued it for the partition
  it was issued for, and by no other instance and for no other partition: the scan is then refused as
  \<open>invalid_cursor\<close>. The hypothesis is that Boost.JSON parses the document it serialized.
\<close>

theorem cursor_roundtrip:
  assumes "json_parse L (json_serialize L (cursor_document key inst part)) = Some (cursor_document key inst part)"
  shows "read_cursor L (encode_cursor L key inst part) inst' part' =
    (if inst' = inst \<and> part' = part then Some key else None)"
  using assms by (rule read_encode_cursor)

theorem cursor_roundtrip_witness:
  "let L = example_libs (cursor_document ''k7'' ''42'' 9)
   in read_cursor L (encode_cursor L ''k7'' ''42'' 9) ''42'' 9 = Some ''k7'' \<and>
      read_cursor L (encode_cursor L ''k7'' ''42'' 9) ''42'' 8 = None"
  using cursor_roundtrip [of "example_libs (cursor_document ''k7'' ''42'' 9)" "''k7''" "''42''" 9 "''42''" 9]
    cursor_roundtrip [of "example_libs (cursor_document ''k7'' ''42'' 9)" "''k7''" "''42''" 9 "''42''" 8]
  by (simp add: example_libs_def)

end
