(* ===== verification/Repository.thy ===== *)
theory Repository
  imports Rocksdb Schema Scan "HOL-Library.Product_Lexorder"
begin

text \<open>
  \<^verbatim>\<open>src/repository/\<close>: the store behind the seam \<^verbatim>\<open>repository::repository\<close>, as \<^verbatim>\<open>rocksdb_repository\<close>
  implements it over RocksDB. The object is the record \<open>repo\<close>; every method is an operation on it that may
  throw a \<^verbatim>\<open>storage_error\<close>. A method runs under the locks it takes, so it is one step here.
\<close>

unbundle bit_operations_syntax

section \<open>The names and the keys of the store\<close>

definition schema_key :: string where
  "schema_key = ''SCHEMA''"

definition format_key :: string where
  "format_key = ''FORMAT''"

definition format_version :: string where
  "format_version = ''2''"

definition count_key :: string where
  "count_key = ''COUNT''"

definition default_family :: string where
  "default_family = ''default''"

definition partition_prefix_size :: nat where
  "partition_prefix_size = 2"

definition partition_prefix :: "nat \<Rightarrow> string" where
  "partition_prefix part = [char_of (drop_bit 8 part AND 0xff), char_of (part AND 0xff)]"

definition store_key :: "string \<Rightarrow> string" where
  "store_key key = partition_prefix (partition_of key) @ key"

definition composed_key :: "string \<Rightarrow> string" where
  "composed_key key = (if length key < partition_prefix_size then [] else drop partition_prefix_size key)"

definition partition_held :: "string \<Rightarrow> nat" where
  "partition_held key =
     (if length key < partition_prefix_size then 0
      else push_bit 8 (byte_of (key ! 0)) OR byte_of (key ! 1))"

definition term_key :: "nat \<Rightarrow> string" where
  "term_key part = ''TERM'' @ partition_prefix part"

definition counts_per_reservation :: uint64 where
  "counts_per_reservation = 1024 * 1024"

definition transfer_prefix :: string where
  "transfer_prefix = ''transfer''"

section \<open>What the store is opened with\<close>

definition mebibyte :: nat where
  "mebibyte = 1024 * 1024"

definition cache_share :: nat where
  "cache_share = 4"

definition largest_write_buffer :: nat where
  "largest_write_buffer = 64 * mebibyte"

definition smallest_write_buffer :: nat where
  "smallest_write_buffer = 8 * mebibyte"

datatype compression_type = LZ4 | Snappy | No_compression | ZSTD

definition supports :: "compression_type list \<Rightarrow> compression_type \<Rightarrow> bool" where
  "supports supported c = (c \<in> set supported)"

definition compression :: "compression_type list \<Rightarrow> compression_type" where
  "compression supported =
     (if supports supported LZ4 then LZ4 else if supports supported Snappy then Snappy else No_compression)"

definition bottom_compression :: "compression_type list \<Rightarrow> compression_type" where
  "bottom_compression supported = (if supports supported ZSTD then ZSTD else compression supported)"

record store_options =
  cache_capacity :: nat
  opt_compression :: compression_type
  opt_bottommost :: compression_type
  write_buffer_size :: nat
  db_write_buffer_size :: nat
  max_open_files :: nat

definition options_for :: "compression_type list \<Rightarrow> nat \<Rightarrow> store_options" where
  "options_for supported memory_bytes =
     (let memtable_bytes = memory_bytes div cache_share
      in \<lparr>cache_capacity = memory_bytes - memory_bytes div cache_share,
          opt_compression = compression supported,
          opt_bottommost = bottom_compression supported,
          write_buffer_size =
            min (max (memtable_bytes div cache_share) smallest_write_buffer) largest_write_buffer,
          db_write_buffer_size = memtable_bytes,
          max_open_files = 1024\<rparr>)"

section \<open>The object\<close>

type_synonym partition_terms = "nat \<Rightarrow> int"

record 'db repo =
  database :: 'db
  handles :: "(string, string) smap"
  tables :: schema
  instance_name :: string
  transfers :: uint64
  counts :: uint64
  counts_reserved :: uint64
  terms :: partition_terms

type_synonym ('db, 'a) repo_exec = "('db repo, storage_error, 'a) exec"

section \<open>Statuses\<close>

definition check :: "'db rocksdb \<Rightarrow> status \<Rightarrow> string \<Rightarrow> ('s, storage_error, unit) exec" where
  "check R st what =
     (if st = Ok_status then ret ()
      else if is_back_pressure st
      then throw (storage_err Write_stalled (what @ '' was refused: '' @ status_text R st))
      else throw (storage_err Storage_error (what @ '' failed: '' @ status_text R st)))"

definition written :: "'db rocksdb \<Rightarrow> status \<Rightarrow> string \<Rightarrow> ('db, unit) repo_exec" where
  "written R st what = (\<lambda>s.
     check R st what
       (if st \<noteq> Ok_status \<and> \<not> is_back_pressure st then s\<lparr>database := rdb_resume R (database s)\<rparr> else s))"

text \<open>\<^verbatim>\<open>written(database->Put(...), what)\<close> and \<^verbatim>\<open>written(database->Write(...), what)\<close>.\<close>

definition put :: "'db rocksdb \<Rightarrow> string \<Rightarrow> string \<Rightarrow> string \<Rightarrow> string \<Rightarrow> ('db, unit) repo_exec" where
  "put R fam k v what = (\<lambda>s.
     let (st, db) = rdb_put R (database s) fam k v in written R st what (s\<lparr>database := db\<rparr>))"

definition write_batch :: "'db rocksdb \<Rightarrow> batch_op list \<Rightarrow> string \<Rightarrow> ('db, unit) repo_exec" where
  "write_batch R ops what = (\<lambda>s.
     let (st, db) = rdb_write R (database s) ops in written R st what (s\<lparr>database := db\<rparr>))"

definition table_handle :: "string \<Rightarrow> ('db, string) repo_exec" where
  "table_handle table_name = (\<lambda>s.
     case map_of (handles s) table_name of
       None \<Rightarrow> throw (storage_err Table_not_found (''No table named \"'' @ table_name @ ''\".'')) s
     | Some handle \<Rightarrow> ret handle s)"

section \<open>Counts\<close>

definition reserve_counts :: "libs \<Rightarrow> 'db rocksdb \<Rightarrow> ('db, unit) repo_exec" where
  "reserve_counts L R = (\<lambda>s.
     let (st, held) = rdb_get R (database s) default_family count_key;
         reserved = (if st = Ok_status then (case lexical_uint64 L held of None \<Rightarrow> 0 | Some n \<Rightarrow> n) else 0)
     in andthen
          (put R default_family count_key (to_string (unat (reserved + counts_per_reservation)))
             ''Reserving a block of write counts'')
          (\<lambda>_ s. ret () (s\<lparr>counts := reserved, counts_reserved := reserved + counts_per_reservation\<rparr>)) s)"

definition next_count :: "libs \<Rightarrow> 'db rocksdb \<Rightarrow> ('db, uint64) repo_exec" where
  "next_count L R =
     andthen (\<lambda>s. if counts s = counts_reserved s then reserve_counts L R s else ret () s)
       (\<lambda>_ s. ret (counts s + 1) (s\<lparr>counts := counts s + 1\<rparr>))"

section \<open>Tables\<close>

definition open_family :: "'db rocksdb \<Rightarrow> string \<Rightarrow> ('db, unit) repo_exec" where
  "open_family R table_name = (\<lambda>s.
     if map_of (handles s) table_name \<noteq> None then ret () s
     else let (st, db) = rdb_create_family R (database s) table_name
          in andthen (written R st (''Creating table \"'' @ table_name @ ''\"''))
               (\<lambda>_ s. ret () (s\<lparr>handles := map_put table_name table_name (handles s)\<rparr>))
               (s\<lparr>database := db\<rparr>))"

definition drop_family :: "'db rocksdb \<Rightarrow> string \<Rightarrow> ('db, unit) repo_exec" where
  "drop_family R table_name = (\<lambda>s.
     case map_of (handles s) table_name of
       None \<Rightarrow> ret () s
     | Some handle \<Rightarrow>
         (let (st, db) = rdb_drop_family R (database s) handle
          in andthen (written R st (''Dropping table \"'' @ table_name @ ''\"''))
               (\<lambda>_ s. ret () (s\<lparr>handles := map_erase table_name (handles s)\<rparr>))
               (s\<lparr>database := db\<rparr>)))"

definition write_tables :: "libs \<Rightarrow> 'db rocksdb \<Rightarrow> ('db, unit) repo_exec" where
  "write_tables L R = (\<lambda>s.
     put R default_family schema_key (json_serialize L (Jobject (schema_to_json (tables s)))) ''Writing the schema'' s)"

definition create_table :: "libs \<Rightarrow> 'db rocksdb \<Rightarrow> table \<Rightarrow> version \<Rightarrow> ('db, unit) repo_exec" where
  "create_table L R t stamp =
     andthen (open_family R (t_name t)) (\<lambda>_ s. write_tables L R (s\<lparr>tables := schema_create t stamp (tables s)\<rparr>))"

definition delete_table :: "libs \<Rightarrow> 'db rocksdb \<Rightarrow> string \<Rightarrow> version \<Rightarrow> ('db, unit) repo_exec" where
  "delete_table L R table_name stamp =
     andthen (drop_family R table_name)
       (\<lambda>_ s. write_tables L R (s\<lparr>tables := schema_remove table_name stamp (tables s)\<rparr>))"

definition list_tables :: "'db repo \<Rightarrow> table list" where
  "list_tables s = schema_tables (tables s)"

definition has_table :: "'db repo \<Rightarrow> string \<Rightarrow> bool" where
  "has_table s table_name = schema_has (tables s) table_name"

definition read_table :: "'db repo \<Rightarrow> string \<Rightarrow> error_message + table" where
  "read_table s table_name = schema_read (tables s) table_name"

definition read_schema :: "'db repo \<Rightarrow> schema" where
  "read_schema s = tables s"

definition alter_family :: "'db rocksdb \<Rightarrow> change \<Rightarrow> ('db, unit) repo_exec" where
  "alter_family R altered =
     (if c_live altered then open_family R (c_name altered) else drop_family R (c_name altered))"

definition merge_schema :: "libs \<Rightarrow> 'db rocksdb \<Rightarrow> schema \<Rightarrow> ('db, nat) repo_exec" where
  "merge_schema L R named = (\<lambda>s.
     let (changed, merged) = schema_merge named (tables s)
     in andthen (for_each (alter_family R) changed)
          (\<lambda>_. andthen (write_tables L R) (\<lambda>_. ret (length changed)))
          (s\<lparr>tables := merged\<rparr>))"

definition read_tables :: "libs \<Rightarrow> 'db rocksdb \<Rightarrow> ('db, unit) repo_exec" where
  "read_tables L R = (\<lambda>s.
     let (st, held) = rdb_get R (database s) default_family schema_key;
         s = (if st = Ok_status then s\<lparr>tables := to_schema L held\<rparr> else s);
         named = schema_names (tables s);
         orphaned = filter (\<lambda>name. name \<noteq> default_family \<and> name \<notin> set named) (map fst (handles s))
     in andthen (for_each (drop_family R) orphaned) (\<lambda>_. for_each (open_family R) named) s)"

section \<open>Terms\<close>

definition read_terms :: "'db repo \<Rightarrow> partition_terms" where
  "read_terms s = terms s"

definition load_term :: "libs \<Rightarrow> 'db rocksdb \<Rightarrow> nat \<Rightarrow> ('db, unit) repo_exec" where
  "load_term L R part = (\<lambda>s.
     let (st, held) = rdb_get R (database s) default_family (term_key part);
         term = (if st = Ok_status then (case lexical_int64 L held of None \<Rightarrow> 0 | Some t \<Rightarrow> t) else 0)
     in ret () (s\<lparr>terms := (terms s)(part := term)\<rparr>))"

definition load_terms :: "libs \<Rightarrow> 'db rocksdb \<Rightarrow> ('db, unit) repo_exec" where
  "load_terms L R = for_each (load_term L R) [0..<partition_count]"

text \<open>\<^verbatim>\<open>written(batch.Put(...), what)\<close>: onto the batch so far, or the throw.\<close>

definition batch_put :: "'db rocksdb \<Rightarrow> batch_op list \<Rightarrow> batch_op \<Rightarrow> string \<Rightarrow> ('db, batch_op list) repo_exec" where
  "batch_put R ops op what = andthen (written R (rdb_batch_put R ops op) what) (\<lambda>_. ret (ops @ [op]))"

fun raise_batch :: "'db rocksdb \<Rightarrow> partition_terms \<Rightarrow> string \<Rightarrow> nat list \<Rightarrow> batch_op list \<Rightarrow>
    ('db, batch_op list) repo_exec" where
  "raise_batch R carried what [] ops = ret ops"
| "raise_batch R carried what (part # parts) ops = (\<lambda>s.
     if carried part > terms s part
     then andthen (batch_put R ops (Batch_put default_family (term_key part) (int_to_string (carried part))) what)
            (\<lambda>ops. raise_batch R carried what parts ops) s
     else raise_batch R carried what parts ops s)"

definition raise_terms :: "'db rocksdb \<Rightarrow> partition_terms \<Rightarrow> string \<Rightarrow> ('db, unit) repo_exec" where
  "raise_terms R carried what = (\<lambda>s.
     let raised = (\<lambda>part. if part < partition_count \<and> carried part > terms s part then carried part else 0)
     in andthen (raise_batch R carried what [0..<partition_count] [])
          (\<lambda>ops. if ops = [] then ret ()
                 else andthen (write_batch R ops what)
                        (\<lambda>_ s. ret () (s\<lparr>terms := (\<lambda>part. if raised part > 0 then raised part else terms s part)\<rparr>)))
          s)"

section \<open>Records\<close>

definition raise_and_write :: "'db rocksdb \<Rightarrow> string \<Rightarrow> string \<Rightarrow> string \<Rightarrow> nat \<Rightarrow> int \<Rightarrow> string \<Rightarrow> ('db, unit) repo_exec" where
  "raise_and_write R handle key value part term what = (\<lambda>s.
     let raised = term > terms s part
     in andthen (batch_put R [] (Batch_put handle key value) what)
          (\<lambda>ops. andthen
             (if raised
              then batch_put R ops (Batch_put default_family (term_key part) (int_to_string term)) what
              else ret ops)
             (\<lambda>ops. andthen (write_batch R ops what)
                (\<lambda>_ s. ret () (if raised then s\<lparr>terms := (terms s)(part := term)\<rparr> else s)))) s)"

definition write_record :: "'db rocksdb \<Rightarrow> string \<Rightarrow> record_t \<Rightarrow> ('db, unit) repo_exec" where
  "write_record R table_name rec =
     (let part = partition_of (rec_key rec);
          term = v_term (rec_stamp rec);
          what = ''Writing a record to \"'' @ table_name @ ''\"'';
          value = compose_value (rec_stamp rec) (rec_value rec);
          key = store_key (rec_key rec)
      in andthen (table_handle table_name) (\<lambda>handle s.
           let (found, held) = rdb_get R (database s) handle key
           in andthen (if found = Not_found_status then ret () else check R found what)
                (\<lambda>_ s.
                   if found \<noteq> Not_found_status \<and> is_newer held value then ret () s
                   else if term \<le> terms s part then put R handle key value what s
                   else raise_and_write R handle key value part term what s) s))"

definition read_record :: "'db rocksdb \<Rightarrow> string \<Rightarrow> string \<Rightarrow> ('db, string option) repo_exec" where
  "read_record R table_name key =
     andthen (table_handle table_name) (\<lambda>handle s.
       let (st, value) = rdb_get R (database s) handle (store_key key)
       in if st = Not_found_status then ret None s
          else andthen (check R st (''Reading a record from \"'' @ table_name @ ''\"''))
                 (\<lambda>_. ret (Some (value_of value))) s)"

text \<open>
  The walk of a scan over what the iterator yields: the page, and whether it was left before the iterator
  ran out. An iterator that is valid has no error, so the status is checked where it ran out.
\<close>

fun scan_entries :: "range \<Rightarrow> entries \<Rightarrow> record_t list \<Rightarrow> nat \<Rightarrow> page \<times> bool" where
  "scan_entries r [] records bytes = (\<lparr>p_records = records, p_has_more = False\<rparr>, False)"
| "scan_entries r ((k, v) # rest) records bytes =
     (if length records = r_limit r then (\<lparr>p_records = records, p_has_more = True\<rparr>, True)
      else let size = length k - partition_prefix_size + (if r_values r then length v else 0)
           in if records \<noteq> [] \<and> bytes + size > max_page_bytes
              then (\<lparr>p_records = records, p_has_more = True\<rparr>, True)
              else scan_entries r rest
                (records @ [\<lparr>rec_key = composed_key k, rec_value = (if r_values r then value_of v else []),
                   rec_stamp = (if r_values r then version_of v else no_version)\<rparr>])
                (bytes + size))"

definition scan_records :: "'db rocksdb \<Rightarrow> string \<Rightarrow> range \<Rightarrow> ('db, page) repo_exec" where
  "scan_records R table_name r =
     (let pre = partition_prefix (r_partition r);
          from = (if r_has_from r then pre @ r_from r else pre);
          to = (if r_has_to r then pre @ r_to r else partition_prefix (r_partition r + 1))
      in andthen (table_handle table_name) (\<lambda>handle s.
           let (kvs, st) = rdb_iterate R (database s) handle from to (r_reverse r);
               (page, left) = scan_entries r kvs [] 0
           in andthen (if left then ret () else check R st (''Scanning \"'' @ table_name @ ''\"''))
                (\<lambda>_. ret page) s))"

section \<open>Files of records\<close>

definition max_file_bytes :: nat where
  "max_file_bytes = 64 * 1024 * 1024"

record share =
  s_partitions :: partition_set
  s_from :: string
  s_has_from :: bool
  s_to :: string
  s_has_to :: bool
  s_values :: bool
  s_bytes :: nat

definition default_share :: share where
  "default_share =
     \<lparr>s_partitions = 0, s_from = [], s_has_from = False, s_to = [], s_has_to = False, s_values = True,
      s_bytes = max_file_bytes\<rparr>"

record extract_t =
  x_file :: "string option"
  x_records :: nat
  x_has_more :: bool
  x_last :: string

text \<open>\<^verbatim>\<open>split_points\<close>: the smallest keys of the files, cut where the sizes before them pass the next share.\<close>

fun cut_points :: "uint64 \<Rightarrow> uint64 \<Rightarrow> (string \<times> uint64) list \<Rightarrow> uint64 \<Rightarrow> uint64 \<Rightarrow> string list \<Rightarrow> string list" where
  "cut_points ways all [] taken next points = points"
| "cut_points ways all ((smallest, bytes) # files) taken next points =
     (if \<not> next < ways then points
      else let taken = taken + bytes
           in if taken * ways \<ge> all * next \<and> smallest \<noteq> []
              then cut_points ways all files taken (next + 1)
                (if points = [] \<or> last points \<noteq> smallest then points @ [smallest] else points)
              else cut_points ways all files taken next points)"

definition split_points :: "'db rocksdb \<Rightarrow> string \<Rightarrow> uint64 \<Rightarrow> ('db, string list) repo_exec" where
  "split_points R table_name ways =
     (if ways < 2 then ret []
      else andthen (table_handle table_name) (\<lambda>handle s.
        let files = concat (rdb_metadata R (database s) handle);
            all = sum_list (map snd files);
            points = cut_points ways all (sort files) 0 1 []
        in ret (if points \<noteq> [] \<and> of_nat (length points) = ways then butlast points else points) s))"

record walk =
  w_taken :: entries
  w_bytes :: nat
  w_done :: bool
  w_has_more :: bool
  w_last :: string
  w_left :: bool

text \<open>\<^verbatim>\<open>transfer_name()\<close>: the next name, and the counter raised.\<close>

definition transfer_name :: "('db, string) repo_exec" where
  "transfer_name = (\<lambda>s.
     ret (instance_name s @ ''-'' @ to_string (unat (transfers s)) @ ''.sst'') (s\<lparr>transfers := transfers s + 1\<rparr>))"

text \<open>
  The inner loop of \<^verbatim>\<open>export_records\<close>, over what the iterator of one partition yields. \<open>w_left\<close> says
  the iterator was left while it was valid.
\<close>

fun export_entries :: "'db rocksdb \<Rightarrow> share \<Rightarrow> string \<Rightarrow> entries \<Rightarrow> walk \<Rightarrow> ('db, walk) repo_exec" where
  "export_entries R wanted what [] w = ret (w\<lparr>w_left := False\<rparr>)"
| "export_entries R wanted what ((k, stored) # rest) w =
     (if s_has_from wanted \<and> k = s_from wanted then export_entries R wanted what rest w
      else if s_has_to wanted \<and> k > s_to wanted then ret (w\<lparr>w_done := True, w_left := True\<rparr>)
      else let carried = (if s_values wanted then stored else take (min (length stored) version_size) stored)
           in andthen (\<lambda>s. check R (sst_put R (database s) (w_taken w) (k, carried)) what s)
                (\<lambda>_. let w = w\<lparr>w_taken := w_taken w @ [(k, carried)],
                              w_bytes := w_bytes w + length k + (if s_values wanted then length stored else 0)\<rparr>
                      in if w_bytes w \<ge> s_bytes wanted
                         then ret (w\<lparr>w_last := k, w_has_more := True, w_left := True\<rparr>)
                         else export_entries R wanted what rest w))"

fun export_partitions :: "'db rocksdb \<Rightarrow> string \<Rightarrow> share \<Rightarrow> string \<Rightarrow> nat list \<Rightarrow> walk \<Rightarrow> ('db, walk) repo_exec" where
  "export_partitions R table_name wanted what [] w = ret w"
| "export_partitions R table_name wanted what (part # parts) w =
     (if w_done w \<or> w_bytes w \<ge> s_bytes wanted then ret w
      else if \<not> has (s_partitions wanted) part then export_partitions R table_name wanted what parts w
      else let start = partition_prefix part; after = partition_prefix (part + 1)
           in if s_has_from wanted \<and> s_from wanted \<ge> after then export_partitions R table_name wanted what parts w
              else if s_has_to wanted \<and> start > s_to wanted then ret w
              else andthen (table_handle table_name) (\<lambda>handle s.
                let from = (if s_has_from wanted \<and> s_from wanted > start then s_from wanted else start);
                    (kvs, st) = rdb_iterate R (database s) handle from after False
                in andthen (export_entries R wanted what kvs w)
                     (\<lambda>w. andthen (if w_left w then ret () else check R st what)
                        (\<lambda>_. export_partitions R table_name wanted what parts w)) s))"

definition start_walk :: walk where
  "start_walk = \<lparr>w_taken = [], w_bytes = 0, w_done = False, w_has_more = False, w_last = [], w_left = False\<rparr>"

definition export_records :: "'db rocksdb \<Rightarrow> string \<Rightarrow> share \<Rightarrow> ('db, extract_t) repo_exec" where
  "export_records R table_name wanted =
     (let what = ''Exporting a file of \"'' @ table_name @ ''\"''
      in andthen transfer_name (\<lambda>name.
         andthen (\<lambda>s. check R (sst_open R (database s) name) what s) (\<lambda>_.
         andthen (export_partitions R table_name wanted what [0..<partition_count] start_walk) (\<lambda>w s.
           if w_taken w = []
           then ret \<lparr>x_file = None, x_records = 0, x_has_more = w_has_more w, x_last = w_last w\<rparr> s
           else let (st, file) = sst_finish R (database s) (w_taken w)
                in andthen (check R st what)
                     (\<lambda>_. ret \<lparr>x_file = Some file, x_records = length (w_taken w), x_has_more = w_has_more w,
                             x_last = w_last w\<rparr>) s))))"

text \<open>The first walk of \<^verbatim>\<open>import_records\<close>: what there is to take, what is held, and the terms carried.\<close>

record import_count =
  i_records :: nat
  i_held :: nat
  i_carried :: partition_terms

definition count_entry :: "'db rocksdb \<Rightarrow> 'db \<Rightarrow> string \<Rightarrow> string \<times> string \<Rightarrow> import_count \<Rightarrow> import_count" where
  "count_entry R db handle = (\<lambda>(k, v) n.
     let part = partition_held k;
         term = v_term (version_of v);
         n = (if part < partition_count \<and> term > i_carried n part
              then n\<lparr>i_carried := (i_carried n)(part := term)\<rparr> else n);
         (st, value) = rdb_get R db handle k
     in if st \<noteq> Ok_status then n\<lparr>i_records := i_records n + 1\<rparr>
        else let n = n\<lparr>i_held := i_held n + 1\<rparr>
             in if is_newer v value then n\<lparr>i_records := i_records n + 1\<rparr> else n)"

text \<open>The second walk: the entries the store has nothing for, or something earlier.\<close>

fun keep_entries :: "'db rocksdb \<Rightarrow> string \<Rightarrow> string \<Rightarrow> entries \<Rightarrow> entries \<Rightarrow> ('db, entries) repo_exec" where
  "keep_entries R handle what [] kept = ret kept"
| "keep_entries R handle what ((k, v) # rest) kept = (\<lambda>s.
     let (st, value) = rdb_get R (database s) handle k
     in if st \<noteq> Ok_status \<or> is_newer v value
        then andthen (\<lambda>s. check R (sst_put R (database s) kept (k, v)) what s)
               (\<lambda>_. keep_entries R handle what rest (kept @ [(k, v)])) s
        else keep_entries R handle what rest kept s)"

definition ingest :: "'db rocksdb \<Rightarrow> string \<Rightarrow> string \<Rightarrow> string \<Rightarrow> ('db, unit) repo_exec" where
  "ingest R handle file what = (\<lambda>s.
     let (st, db) = rdb_ingest R (database s) handle file in written R st what (s\<lparr>database := db\<rparr>))"

definition ingest_kept :: "'db rocksdb \<Rightarrow> string \<Rightarrow> string \<Rightarrow> entries \<Rightarrow> status \<Rightarrow> ('db, nat) repo_exec" where
  "ingest_kept R handle what kvs read_status =
     andthen transfer_name (\<lambda>name.
     andthen (\<lambda>s. check R (sst_open R (database s) name) what s) (\<lambda>_.
     andthen (keep_entries R handle what kvs []) (\<lambda>kept.
     andthen (check R read_status what) (\<lambda>_ s.
       if kept = [] then ret 0 s
       else let (st, file) = sst_finish R (database s) kept
            in andthen (check R st what) (\<lambda>_. andthen (ingest R handle file what) (\<lambda>_. ret (length kept))) s))))"

text \<open>
  \<^verbatim>\<open>given.write(file)\<close> and the opening of the reader, which \<^verbatim>\<open>import_records\<close> and \<^verbatim>\<open>clear_records\<close>
  begin with alike.
\<close>

definition open_given :: "'db rocksdb \<Rightarrow> string \<Rightarrow> string \<Rightarrow> ('db, unit) repo_exec" where
  "open_given R file what =
     andthen transfer_name (\<lambda>name.
     andthen (\<lambda>s. if file_write R (database s) name file then ret () s
                   else throw (storage_err Storage_error (what @ '' failed: the file could not be written.'')) s)
     (\<lambda>_ s. check R (sst_reader_open R (database s) file) what s))"

definition import_records :: "'db rocksdb \<Rightarrow> string \<Rightarrow> string \<Rightarrow> ('db, nat) repo_exec" where
  "import_records R table_name file =
     (if file = [] then ret 0
      else let what = ''Importing a file into \"'' @ table_name @ ''\"''
      in andthen (table_handle table_name) (\<lambda>handle.
         andthen (open_given R file what) (\<lambda>_ s.
           let (kvs, st) = sst_read R (database s) file;
               n = fold (count_entry R (database s) handle) kvs
                     \<lparr>i_records = 0, i_held = 0, i_carried = (\<lambda>_. 0)\<rparr>
           in andthen (check R st what) (\<lambda>_.
              andthen (raise_terms R (i_carried n) what) (\<lambda>_.
                if i_records n = 0 then ret 0
                else if i_held n = 0 then andthen (ingest R handle file what) (\<lambda>_. ret (i_records n))
                else (\<lambda>s. let (again, st) = sst_read R (database s) file
                          in ingest_kept R handle what again st s))) s)))"

fun clear_batch :: "'db rocksdb \<Rightarrow> 'db \<Rightarrow> string \<Rightarrow> entries \<Rightarrow> batch_op list" where
  "clear_batch R db handle [] = []"
| "clear_batch R db handle ((k, v) # rest) =
     (let (st, value) = rdb_get R db handle k
      in if st \<noteq> Ok_status then clear_batch R db handle rest
         else if is_newer value v then clear_batch R db handle rest
         else Batch_delete handle k # clear_batch R db handle rest)"

definition clear_records :: "'db rocksdb \<Rightarrow> string \<Rightarrow> string \<Rightarrow> ('db, nat) repo_exec" where
  "clear_records R table_name file =
     (if file = [] then ret 0
      else let what = ''Clearing records of \"'' @ table_name @ ''\"''
      in andthen (table_handle table_name) (\<lambda>handle.
         andthen (open_given R file what) (\<lambda>_ s.
           let (kvs, st) = sst_read R (database s) file;
               ops = clear_batch R (database s) handle kvs
           in andthen (check R st what) (\<lambda>_.
              andthen (if ops = [] then ret () else write_batch R ops what) (\<lambda>_.
              ret (length ops))) s)))"

definition is_write_stalled :: "'db rocksdb \<Rightarrow> 'db repo \<Rightarrow> bool" where
  "is_write_stalled R s = (rdb_write_stopped R (database s) > 0 \<or> rdb_delayed_rate R (database s) > 0)"

definition repo_instance :: "'db repo \<Rightarrow> string" where
  "repo_instance s = instance_name s"

section \<open>Opening and closing the store\<close>

text \<open>\<^verbatim>\<open>located\<close> of \<^verbatim>\<open>error.h\<close>: the place in the source in front of a message.\<close>

definition located :: "string \<Rightarrow> nat \<Rightarrow> string \<Rightarrow> string \<Rightarrow> string" where
  "located file line function message = file @ '':'' @ to_string line @ '' '' @ function @ '': '' @ message"

definition check_format :: "'db rocksdb \<Rightarrow> ('db, unit) repo_exec" where
  "check_format R = (\<lambda>s.
     let (st, held) = rdb_get R (database s) default_family format_key
     in if st = Ok_status
        then (if held \<noteq> format_version
              then throw (storage_err Storage_error
                (located ''src/repository/rocksdb_repository.cpp'' 292
                   ''void repository::rocksdb_repository::check_format()''
                   (''The store is format '' @ held @ '' and this build reads format '' @ format_version @ ''.''))) s
              else ret () s)
        else put R default_family format_key format_version ''Writing the store format'' s)"

definition close_handles :: "'db repo \<Rightarrow> 'db repo" where
  "close_handles s = s\<lparr>handles := []\<rparr>"

text \<open>
  The constructor after the directories are made: the families there are, one handle for each, and then
  what the store has to say of itself. A throw gives the handles back. \<open>random\<close> is \<^verbatim>\<open>std::rand()\<close>.
\<close>

definition opened :: "'db \<Rightarrow> string list \<Rightarrow> nat \<Rightarrow> 'db repo" where
  "opened db names random =
     \<lparr>database = db, handles = fold (\<lambda>name m. map_put name name m) names [], tables = [],
      instance_name = to_string random, transfers = 0, counts = 0, counts_reserved = 0, terms = (\<lambda>_. 0)\<rparr>"

definition open_repository :: "libs \<Rightarrow> 'db rocksdb \<Rightarrow> 'db \<Rightarrow> nat \<Rightarrow> (string + storage_error) + 'db repo" where
  "open_repository L R disk random =
     (let names = (if rdb_list_families R disk = [] then [default_family] else rdb_list_families R disk);
          (st, db) = rdb_open R disk names
      in if st \<noteq> Ok_status
         then Inl (Inl (located ''src/repository/rocksdb_repository.cpp'' 249
                ''repository::rocksdb_repository::rocksdb_repository(const std::string &, size_t)''
                (''Failed to open rocksdb with status: '' @ status_text R st)))
         else case andthen (check_format R) (\<lambda>_. andthen (read_tables L R) (\<lambda>_. load_terms L R))
                (opened db names random) of
                (Inl e, s) \<Rightarrow> Inl (Inr e)
              | (Inr _, s) \<Rightarrow> Inr s)"

end
