(* ===== verification/Http.thy ===== *)
theory Http
  imports Libraries Errors
begin

text \<open>
  \<^verbatim>\<open>src/http/http_client.h\<close>, \<^verbatim>\<open>http_client.cpp\<close> and \<^verbatim>\<open>src/router/\<close>'s \<^verbatim>\<open>request.h\<close>, \<^verbatim>\<open>response.h\<close>,
  \<^verbatim>\<open>response.cpp\<close> and \<^verbatim>\<open>api_error.cpp\<close>: what travels between two nodes, and what a request to this node
  and its answer are.

  The seam \<^verbatim>\<open>http::client\<close> is the record \<open>net\<close>: what the network does to a request is a function of
  whatever the rest of the world is (\<open>'w\<close>), which every call may change. The steady clock is read off the
  same world.
\<close>

section \<open>Requests and answers on the wire\<close>

record http_request =
  q_method :: string
  q_url :: string
  q_body :: string
  q_headers :: "string list"

abbreviation http_request_of :: "string \<Rightarrow> string \<Rightarrow> string \<Rightarrow> string list \<Rightarrow> http_request" where
  "http_request_of m u b h \<equiv> \<lparr>q_method = m, q_url = u, q_body = b, q_headers = h\<rparr>"

record http_response =
  a_status :: int
  a_content_type :: string
  a_body :: string
  a_content_length :: int
  a_reused :: bool
  a_headers :: "(string \<times> string) list"

text \<open>\<^verbatim>\<open>std::tolower\<close> in the locale the program runs in, which it never sets: the one of C.\<close>

definition tolower :: "char \<Rightarrow> char" where
  "tolower c = (if 65 \<le> byte_of c \<and> byte_of c \<le> 90 then char_of (byte_of c + 32) else c)"

definition same_name :: "string \<Rightarrow> string \<Rightarrow> bool" where
  "same_name one other = (length one = length other \<and> list_all2 (\<lambda>l r. tolower l = tolower r) one other)"

fun header_in :: "(string \<times> string) list \<Rightarrow> string \<Rightarrow> string" where
  "header_in [] name = []"
| "header_in ((key, value) # headers) name = (if same_name key name then value else header_in headers name)"

definition header_of :: "http_response \<Rightarrow> string \<Rightarrow> string" where
  "header_of answer name = header_in (a_headers answer) name"

section \<open>The network\<close>

record 'w net =
  \<comment> \<open>\<^verbatim>\<open>send\<close> and \<^verbatim>\<open>async_send\<close>, which differ in the thread they hold: the answer, or why there is none\<close>
  net_send :: "http_request \<Rightarrow> int \<Rightarrow> 'w \<Rightarrow> (string + http_response) \<times> 'w"
  \<comment> \<open>\<^verbatim>\<open>send_all\<close>\<close>
  net_send_all :: "http_request list \<Rightarrow> int \<Rightarrow> 'w \<Rightarrow> (string + http_response) list \<times> 'w"
  \<comment> \<open>\<^verbatim>\<open>stream\<close>: the pieces the server sends until it ends the answer or the transfer is cut or stopped\<close>
  net_stream :: "http_request \<Rightarrow> 'w \<Rightarrow> string list \<times> 'w"
  \<comment> \<open>\<^verbatim>\<open>steady_clock::now()\<close>, in nanoseconds\<close>
  net_now :: "'w \<Rightarrow> int"

section \<open>A request to this node\<close>

datatype verb = Verb_get | Verb_head | Verb_put | Verb_delete | Verb_other string

fun verb_name :: "verb \<Rightarrow> string" where
  "verb_name Verb_get = ''GET''"
| "verb_name Verb_head = ''HEAD''"
| "verb_name Verb_put = ''PUT''"
| "verb_name Verb_delete = ''DELETE''"
| "verb_name (Verb_other name) = name"

record request =
  rq_method :: verb
  rq_path :: "string list"
  rq_query :: string
  rq_body :: string
  rq_forwarded :: bool
  rq_term :: int
  rq_count :: uint64

section \<open>The answer of this node\<close>

definition json_content_type :: string where
  "json_content_type = ''application/json''"

definition text_content_type :: string where
  "text_content_type = ''text/plain; charset=utf-8''"

definition file_content_type :: string where
  "file_content_type = ''application/octet-stream''"

definition records_header :: string where
  "records_header = ''X-Asyncdb-Records''"

definition next_header :: string where
  "next_header = ''X-Asyncdb-Next''"

record transfer =
  f_records :: nat
  f_next :: string
  f_sent :: "string option"

definition no_transfer :: transfer where
  "no_transfer = \<lparr>f_records = 0, f_next = [], f_sent = None\<rparr>"

record response =
  rs_status :: status_code
  rs_content_type :: string
  rs_json :: json_object
  rs_text :: string
  rs_length :: nat
  rs_file :: transfer

definition json_response :: "status_code \<Rightarrow> json_object \<Rightarrow> response" where
  "json_response status json =
     \<lparr>rs_status = status, rs_content_type = json_content_type, rs_json = json, rs_text = [], rs_length = 0,
      rs_file = no_transfer\<rparr>"

definition text_response :: "status_code \<Rightarrow> string \<Rightarrow> response" where
  "text_response status body =
     \<lparr>rs_status = status, rs_content_type = text_content_type, rs_json = [], rs_text = body, rs_length = 0,
      rs_file = no_transfer\<rparr>"

definition empty_response :: "status_code \<Rightarrow> response" where
  "empty_response status =
     \<lparr>rs_status = status, rs_content_type = [], rs_json = [], rs_text = [], rs_length = 0, rs_file = no_transfer\<rparr>"

definition file_response :: "string option \<Rightarrow> nat \<Rightarrow> string \<Rightarrow> response" where
  "file_response sent records resumes =
     \<lparr>rs_status = ok_200, rs_content_type = file_content_type, rs_json = [], rs_text = [], rs_length = 0,
      rs_file = \<lparr>f_records = records, f_next = resumes, f_sent = sent\<rparr>\<rparr>"

definition head_response :: "status_code \<Rightarrow> string \<Rightarrow> nat \<Rightarrow> response" where
  "head_response status content_type content_length =
     \<lparr>rs_status = status, rs_content_type = content_type, rs_json = [], rs_text = [], rs_length = content_length,
      rs_file = no_transfer\<rparr>"

definition response_body :: "libs \<Rightarrow> response \<Rightarrow> string" where
  "response_body L answer =
     (if rs_length answer > 0 then []
      else if rs_content_type answer = json_content_type then json_serialize L (Jobject (rs_json answer))
      else rs_text answer)"

definition error_response :: "code \<Rightarrow> string \<Rightarrow> response" where
  "error_response c message =
     json_response (error_status c)
       [(''error'', Jobject [(''code'', Jstring (error_name c)), (''message'', Jstring message)])]"

lemmas response_defs = json_response_def text_response_def empty_response_def file_response_def head_response_def

lemma response_status [simp]:
  "rs_status (json_response st j) = st" "rs_status (text_response st b) = st" "rs_status (empty_response st) = st"
  "rs_status (file_response f n x) = 200" "rs_status (head_response st t n) = st"
  "rs_status (error_response c m) = error_status c"
  by (simp_all add: response_defs error_response_def)

text \<open>A content type never names two kinds of body, so an answer's kind is read back from it.\<close>

lemma content_types_differ [simp]:
  "text_content_type \<noteq> json_content_type" "file_content_type \<noteq> json_content_type"
  "json_content_type \<noteq> []" "text_content_type \<noteq> []"
  by (simp_all add: json_content_type_def text_content_type_def file_content_type_def)

lemma same_name_refl [simp]: "same_name n n"
  by (simp add: same_name_def list.rel_refl)

end
