(* ===== verification/Etcd.thy ===== *)
theory Etcd
  imports Http Base64 Scan
begin

text \<open>
  \<^verbatim>\<open>src/etcd/etcd_client.cpp\<close>: the calls the program makes of etcd, each a POST of a JSON document to the
  gateway of one of its members, which travel base64 encoded, and what is read out of the answers. The
  client is the record \<open>etcd\<close>, with the world its network calls change in the field \<open>wire\<close>.
\<close>

record claim =
  cl_held :: bool
  cl_holder :: string
  cl_revision :: int

record 'w etcd =
  endpoints :: "string list"
  current :: nat
  timeout_seconds :: int
  wire :: 'w

section \<open>What is asked and what is answered\<close>

text \<open>The end of a prefix in etcd's own spelling: \<open>strip_ff\<close> is the loop a scan's prefix is cut by.\<close>

definition range_end :: "string \<Rightarrow> string" where
  "range_end pre =
     (let stop = strip_ff pre
      in if stop = [] then [zero_byte] else butlast stop @ [char_of (byte_of (last stop) + 1)])"

definition read_number :: "libs \<Rightarrow> json_object \<Rightarrow> string \<Rightarrow> int option" where
  "read_number L obj field =
     (case json_string_at obj field of None \<Rightarrow> None | Some s \<Rightarrow> lexical_int64 L s)"

definition header_revision :: "libs \<Rightarrow> json_object \<Rightarrow> int option" where
  "header_revision L answer =
     (case json_object_at answer ''header'' of None \<Rightarrow> None | Some header \<Rightarrow> read_number L header ''revision'')"

definition still_watching :: "libs \<Rightarrow> string \<Rightarrow> bool" where
  "still_watching L line =
     (case parse_object L line of
        None \<Rightarrow> True
      | Some answer \<Rightarrow>
          if json_at answer ''error'' \<noteq> None then False
          else case json_object_at answer ''result'' of
                 None \<Rightarrow> True
               | Some result \<Rightarrow> (case json_bool_at result ''canceled'' of None \<Rightarrow> True | Some b \<Rightarrow> \<not> b))"

definition read_pair :: "libs \<Rightarrow> json_object \<Rightarrow> claim option" where
  "read_pair L pair =
     (case (read_number L pair ''create_revision'', json_string_at pair ''value'') of
        (Some revision, Some value) \<Rightarrow>
          (case base64_decode value of
             None \<Rightarrow> None
           | Some holder \<Rightarrow> Some \<lparr>cl_held = False, cl_holder = holder, cl_revision = revision\<rparr>)
      | _ \<Rightarrow> None)"

definition read_claim :: "libs \<Rightarrow> json_object \<Rightarrow> claim option" where
  "read_claim L answer =
     (case json_array_at answer ''responses'' of
        Some (Jobject answered # _) \<Rightarrow>
          (case json_object_at answered ''response_range'' of
             None \<Rightarrow> None
           | Some ranged \<Rightarrow>
               (case json_array_at ranged ''kvs'' of Some (Jobject pair # _) \<Rightarrow> read_pair L pair | _ \<Rightarrow> None))
      | _ \<Rightarrow> None)"

section \<open>Calls\<close>

definition endpoint :: "'w etcd \<Rightarrow> string" where
  "endpoint s = (if endpoints s = [] then [] else endpoints s ! current s)"

definition gateway_request :: "string \<Rightarrow> string \<Rightarrow> string \<Rightarrow> http_request" where
  "gateway_request url meth document =
     http_request_of ''POST'' (url @ ''/v3/'' @ meth) document [''Content-Type: application/json'']"

fun call_members :: "libs \<Rightarrow> 'w net \<Rightarrow> string \<Rightarrow> string \<Rightarrow> nat list \<Rightarrow> 'w etcd \<Rightarrow> json_object option \<times> 'w etcd" where
  "call_members L N meth document [] s = (None, s)"
| "call_members L N meth document (i # is) s =
     (let m = (current s + i) mod length (endpoints s);
          (expected, w) = net_send N (gateway_request (endpoints s ! m) meth document) (timeout_seconds s) (wire s);
          s = s\<lparr>wire := w\<rparr>
      in case expected of
           Inl _ \<Rightarrow> call_members L N meth document is s
         | Inr answer \<Rightarrow>
             if a_status answer \<ge> 500 then call_members L N meth document is s
             else let s = s\<lparr>current := m\<rparr>
                  in if a_status answer \<noteq> 200 then (None, s) else (parse_object L (a_body answer), s))"

definition call :: "libs \<Rightarrow> 'w net \<Rightarrow> string \<Rightarrow> json_object \<Rightarrow> bool \<Rightarrow> 'w etcd \<Rightarrow> json_object option \<times> 'w etcd" where
  "call L N meth body every_member s =
     call_members L N meth (json_serialize L (Jobject body))
       [0..<(if every_member then length (endpoints s) else min (length (endpoints s)) 1)] s"

definition grant_lease :: "libs \<Rightarrow> 'w net \<Rightarrow> int \<Rightarrow> 'w etcd \<Rightarrow> int option \<times> 'w etcd" where
  "grant_lease L N ttl_seconds s =
     (let (answer, s) = call L N ''lease/grant'' [(''TTL'', Jstring (int_to_string ttl_seconds))] True s
      in (case answer of None \<Rightarrow> None | Some obj \<Rightarrow> read_number L obj ''ID'', s))"

definition keep_alive :: "libs \<Rightarrow> 'w net \<Rightarrow> int \<Rightarrow> 'w etcd \<Rightarrow> bool \<times> 'w etcd" where
  "keep_alive L N lease s =
     (let (answer, s) = call L N ''lease/keepalive'' [(''ID'', Jstring (int_to_string lease))] True s
      in (case answer of
            None \<Rightarrow> False
          | Some obj \<Rightarrow>
              (case json_object_at obj ''result'' of
                 None \<Rightarrow> False
               | Some result \<Rightarrow> (case read_number L result ''TTL'' of None \<Rightarrow> False | Some ttl \<Rightarrow> ttl > 0)), s))"

definition etcd_put :: "libs \<Rightarrow> 'w net \<Rightarrow> string \<Rightarrow> string \<Rightarrow> int \<Rightarrow> 'w etcd \<Rightarrow> bool \<times> 'w etcd" where
  "etcd_put L N key value lease s =
     (let (answer, s) = call L N ''kv/put''
            [(''key'', Jstring (base64_encode key)), (''value'', Jstring (base64_encode value)),
             (''lease'', Jstring (int_to_string lease))] True s
      in (answer \<noteq> None, s))"

definition succeeded :: "json_object \<Rightarrow> bool" where
  "succeeded answer = (json_bool_at answer ''succeeded'' = Some True)"

definition create_transaction :: "string \<Rightarrow> string \<Rightarrow> int \<Rightarrow> json_object" where
  "create_transaction key value lease =
     [(''compare'',
         Jarray [Jobject [(''key'', Jstring (base64_encode key)), (''target'', Jstring ''CREATE''),
           (''result'', Jstring ''EQUAL''), (''create_revision'', Jstring ''0'')]]),
      (''success'',
         Jarray [Jobject [(''requestPut'',
           Jobject [(''key'', Jstring (base64_encode key)), (''value'', Jstring (base64_encode value)),
             (''lease'', Jstring (int_to_string lease))])]]),
      (''failure'',
         Jarray [Jobject [(''requestRange'', Jobject [(''key'', Jstring (base64_encode key))])]])]"

definition etcd_create :: "libs \<Rightarrow> 'w net \<Rightarrow> string \<Rightarrow> string \<Rightarrow> int \<Rightarrow> 'w etcd \<Rightarrow> claim option \<times> 'w etcd" where
  "etcd_create L N key value lease s =
     (let (answer, s) = call L N ''kv/txn'' (create_transaction key value lease) True s
      in (case answer of
            None \<Rightarrow> None
          | Some obj \<Rightarrow>
              if succeeded obj
              then (case header_revision L obj of
                      None \<Rightarrow> None
                    | Some revision \<Rightarrow> Some \<lparr>cl_held = True, cl_holder = value, cl_revision = revision\<rparr>)
              else read_claim L obj, s))"

definition remove_transaction :: "string \<Rightarrow> string \<Rightarrow> json_object" where
  "remove_transaction key value =
     [(''compare'',
         Jarray [Jobject [(''key'', Jstring (base64_encode key)), (''target'', Jstring ''VALUE''),
           (''result'', Jstring ''EQUAL''), (''value'', Jstring (base64_encode value))]]),
      (''success'',
         Jarray [Jobject [(''requestDeleteRange'', Jobject [(''key'', Jstring (base64_encode key))])]])]"

definition etcd_remove :: "libs \<Rightarrow> 'w net \<Rightarrow> string \<Rightarrow> string \<Rightarrow> 'w etcd \<Rightarrow> bool \<times> 'w etcd" where
  "etcd_remove L N key value s =
     (let (answer, s) = call L N ''kv/txn'' (remove_transaction key value) True s
      in (case answer of None \<Rightarrow> False | Some obj \<Rightarrow> succeeded obj, s))"

definition read_kv :: "json \<Rightarrow> (string, string) smap \<Rightarrow> (string, string) smap" where
  "read_kv kv values =
     (case kv of
        Jobject pair \<Rightarrow>
          (case (json_string_at pair ''key'', json_string_at pair ''value'') of
             (Some k, Some v) \<Rightarrow>
               (case (base64_decode k, base64_decode v) of
                  (Some key, Some value) \<Rightarrow> map_put key value values
                | _ \<Rightarrow> values)
           | _ \<Rightarrow> values)
      | _ \<Rightarrow> values)"

definition read_values :: "json_object \<Rightarrow> (string, string) smap option" where
  "read_values answer =
     (case json_at answer ''kvs'' of
        None \<Rightarrow> Some []
      | Some (Jarray pairs) \<Rightarrow> Some (fold read_kv pairs [])
      | Some _ \<Rightarrow> None)"

definition etcd_read :: "libs \<Rightarrow> 'w net \<Rightarrow> json_object \<Rightarrow> 'w etcd \<Rightarrow> (string, string) smap option \<times> 'w etcd" where
  "etcd_read L N body s =
     (let (answer, s) = call L N ''kv/range'' body True s
      in (case answer of None \<Rightarrow> None | Some obj \<Rightarrow> read_values obj, s))"

definition etcd_range :: "libs \<Rightarrow> 'w net \<Rightarrow> string \<Rightarrow> 'w etcd \<Rightarrow> (string, string) smap option \<times> 'w etcd" where
  "etcd_range L N pre =
     etcd_read L N [(''key'', Jstring (base64_encode pre)), (''range_end'', Jstring (base64_encode (range_end pre)))]"

definition etcd_get :: "libs \<Rightarrow> 'w net \<Rightarrow> string \<Rightarrow> 'w etcd \<Rightarrow> (string, string) smap option \<times> 'w etcd" where
  "etcd_get L N key = etcd_read L N [(''key'', Jstring (base64_encode key))]"

definition revoke :: "libs \<Rightarrow> 'w net \<Rightarrow> int \<Rightarrow> 'w etcd \<Rightarrow> bool \<times> 'w etcd" where
  "revoke L N lease s =
     (let (answer, s) = call L N ''lease/revoke'' [(''ID'', Jstring (int_to_string lease))] False s
      in (answer \<noteq> None, s))"

section \<open>The watch\<close>

definition newline :: char where
  "newline = char_of (10::nat)"

definition is_blank :: "string \<Rightarrow> bool" where
  "is_blank line = list_all (\<lambda>c. c \<in> {CHR '' '', char_of (9::nat), char_of (13::nat)}) line"

text \<open>
  The lines a piece completes: whether the watch goes on, what is left of a line not yet whole, and how
  often \<^verbatim>\<open>changed\<close> was called.
\<close>

function watch_lines :: "libs \<Rightarrow> string \<Rightarrow> nat \<Rightarrow> bool \<times> string \<times> nat" where
  "watch_lines L partial calls =
     (case find_char newline partial of
        None \<Rightarrow> (True, partial, calls)
      | Some i \<Rightarrow>
          (let line = take i partial; rest = drop (i + 1) partial
           in if is_blank line then watch_lines L rest calls
              else if \<not> still_watching L line then (False, rest, calls)
              else watch_lines L rest (calls + 1)))"
  by pat_completeness auto
termination
proof (relation "measure (\<lambda>(L, partial, calls). length partial)", simp_all)
  fix partial :: string and i
  assume "find_char newline partial = Some i"
  from find_char_Some [OF this] show "length partial - Suc i < length partial" by auto
  from find_char_Some [OF \<open>find_char newline partial = Some i\<close>] show "length partial - Suc i < length partial" by auto
qed

declare watch_lines.simps [simp del]

fun watch_pieces :: "libs \<Rightarrow> string list \<Rightarrow> string \<Rightarrow> nat \<Rightarrow> nat" where
  "watch_pieces L [] partial calls = calls"
| "watch_pieces L (piece # pieces) partial calls =
     (case watch_lines L (partial @ piece) calls of
        (True, partial, calls) \<Rightarrow> watch_pieces L pieces partial calls
      | (False, _, calls) \<Rightarrow> calls)"

text \<open>How often a watch calls \<^verbatim>\<open>changed\<close> before it ends.\<close>

definition etcd_watch :: "libs \<Rightarrow> 'w net \<Rightarrow> string \<Rightarrow> 'w etcd \<Rightarrow> nat \<times> 'w etcd" where
  "etcd_watch L N pre s =
     (if endpoints s = [] then (0, s)
      else let watched = [(''key'', Jstring (base64_encode pre)),
                          (''range_end'', Jstring (base64_encode (range_end pre)))];
               (pieces, w) = net_stream N
                 (gateway_request (endpoint s) ''watch'' (json_serialize L (Jobject [(''create_request'', Jobject watched)])))
                 (wire s)
           in (watch_pieces L pieces [] 0, s\<lparr>wire := w\<rparr>))"

section \<open>The members a call is made to\<close>

text \<open>The member the next call is made to is always one there is.\<close>

definition etcd_ok :: "'w etcd \<Rightarrow> bool" where
  "etcd_ok s = (endpoints s = [] \<or> current s < length (endpoints s))"

lemma call_members_endpoints: "endpoints (snd (call_members L N meth document is s)) = endpoints s"
  by (induction "is" arbitrary: s) (simp_all add: Let_def split: prod.split sum.split)

lemma call_members_ok: "etcd_ok s \<Longrightarrow> etcd_ok (snd (call_members L N meth document is s))"
proof (induction "is" arbitrary: s)
  case (Cons i "is")
  have w: "etcd_ok (s\<lparr>wire := w\<rparr>)" for w
    using Cons.prems by (simp add: etcd_ok_def)
  have m: "etcd_ok (s\<lparr>wire := w, current := m mod length (endpoints s)\<rparr>)" for w m
    by (cases "endpoints s = []") (simp_all add: etcd_ok_def)
  show ?case
    using Cons.IH [OF w] m by (simp add: Let_def split: prod.split sum.split)
qed simp

text \<open>What every operation of the client keeps: its members, and that the one it asks next is among them.\<close>

definition client_keeps :: "('w etcd \<Rightarrow> 'a \<times> 'w etcd) \<Rightarrow> bool" where
  "client_keeps f =
     (\<forall>s. endpoints (snd (f s)) = endpoints s \<and> (etcd_ok s \<longrightarrow> etcd_ok (snd (f s))))"

lemma client_keeps_call: "client_keeps (call L N meth body every)"
  by (simp add: client_keeps_def call_def call_members_endpoints call_members_ok)

lemma client_keeps_after:
  assumes "client_keeps f" shows "client_keeps (\<lambda>s. let (a, s) = f s in (g a, s))"
  using assms by (simp add: client_keeps_def Let_def case_prod_unfold)

lemma client_operations_keep [intro, simp]:
  "client_keeps (grant_lease L N ttl)" "client_keeps (keep_alive L N ls)" "client_keeps (etcd_put L N k v ls)"
  "client_keeps (etcd_create L N k v ls)" "client_keeps (etcd_remove L N k v)" "client_keeps (etcd_range L N pre)"
  "client_keeps (etcd_get L N k)" "client_keeps (revoke L N ls)"
  unfolding grant_lease_def keep_alive_def etcd_put_def etcd_create_def etcd_remove_def etcd_range_def etcd_get_def
    etcd_read_def revoke_def
  by (rule client_keeps_after, rule client_keeps_call)+

lemma client_keeps_watch [intro, simp]: "client_keeps (etcd_watch L N pre)"
  by (simp add: client_keeps_def etcd_watch_def etcd_ok_def Let_def case_prod_unfold)

section \<open>A call is answered while a member is\<close>

text \<open>
  A member that is up answers every call with a document; a member that is down does not answer, or
  answers that something is wrong with it.
\<close>

definition member_up :: "libs \<Rightarrow> 'w net \<Rightarrow> string \<Rightarrow> bool" where
  "member_up L N url =
     (\<forall>meth document t w. case net_send N (gateway_request url meth document) t w of
        (Inl _, _) \<Rightarrow> False
      | (Inr a, _) \<Rightarrow> a_status a = 200 \<and> parse_object L (a_body a) \<noteq> None)"

definition member_up_or_down :: "libs \<Rightarrow> 'w net \<Rightarrow> string \<Rightarrow> bool" where
  "member_up_or_down L N url =
     (\<forall>meth document t w. case net_send N (gateway_request url meth document) t w of
        (Inl _, _) \<Rightarrow> True
      | (Inr a, _) \<Rightarrow> a_status a \<ge> 500 \<or> a_status a = 200 \<and> parse_object L (a_body a) \<noteq> None)"

lemma member_upD:
  assumes "member_up L N url" and "net_send N (gateway_request url meth document) t w = (expected, w')"
  shows "\<exists>a. expected = Inr a \<and> a_status a = 200 \<and> parse_object L (a_body a) \<noteq> None"
  using assms(1) [unfolded member_up_def, rule_format, of meth document t w] assms(2)
  by (simp split: sum.splits)

lemma member_up_or_downD:
  assumes "member_up_or_down L N url" and "net_send N (gateway_request url meth document) t w = (Inr a, w')"
  shows "a_status a \<ge> 500 \<or> a_status a = 200 \<and> parse_object L (a_body a) \<noteq> None"
  using assms(1) [unfolded member_up_or_down_def, rule_format, of meth document t w] assms(2) by simp

lemma call_members_answers:
  assumes "list_all (member_up_or_down L N) (endpoints s)"
    and "i \<in> set is" and "member_up L N (endpoints s ! ((current s + i) mod length (endpoints s)))"
    and "endpoints s \<noteq> []"
  shows "\<exists>obj. fst (call_members L N meth document is s) = Some obj"
  using assms
proof (induction "is" arbitrary: s)
  case (Cons j "is")
  define m where "m = (current s + j) mod length (endpoints s)"
  obtain expected w where sent:
    "net_send N (gateway_request (endpoints s ! m) meth document) (timeout_seconds s) (wire s) = (expected, w)"
    by fastforce
  have or: "a_status a \<ge> 500 \<or> a_status a = 200 \<and> parse_object L (a_body a) \<noteq> None" if "expected = Inr a" for a
    using Cons.prems(1,4) sent that
    by (intro member_up_or_downD [of L N "endpoints s ! m"]) (auto simp: m_def list_all_length)
  have up: "\<exists>a. expected = Inr a \<and> a_status a = 200 \<and> parse_object L (a_body a) \<noteq> None" if "i = j"
    using Cons.prems(3) that sent by (intro member_upD [OF _ sent]) (simp add: m_def)
  have later: "\<exists>obj. fst (call_members L N meth document is (s\<lparr>wire := w\<rparr>)) = Some obj" if "i \<noteq> j"
    using Cons.IH [of "s\<lparr>wire := w\<rparr>"] Cons.prems that by simp
  show ?case
  proof (cases expected)
    case (Inl why)
    with up have "i \<noteq> j" by auto
    with later Inl sent show ?thesis by (simp add: Let_def m_def)
  next
    case (Inr a)
    show ?thesis
    proof (cases "a_status a \<ge> 500")
      case True
      with up Inr have "i \<noteq> j" by auto
      with later Inr True sent show ?thesis by (simp add: Let_def m_def)
    next
      case False
      with or Inr sent show ?thesis by (auto simp: Let_def m_def)
    qed
  qed
qed simp

lemma cycle_reaches:
  assumes "m < n" shows "\<exists>i < n. (c + i) mod n = (m :: nat)"
proof -
  define i where "i = (m + (n - c mod n)) mod n"
  have "(c + i) mod n = (c mod n + (m + (n - c mod n))) mod n"
    by (simp add: i_def mod_simps)
  also have "c mod n + (m + (n - c mod n)) = m + n"
    using assms mod_less_divisor [of n c] by linarith
  finally show ?thesis using assms by (intro exI [of _ i]) (simp add: i_def)
qed

text \<open>
  C19. A call the client makes of every member is answered while any one of them is up, whichever member it
  starts at and whatever the others do short of answering with nonsense; the client goes on asking a member
  there is.
\<close>

theorem call_answered_while_a_member_is_up:
  assumes "list_all (member_up_or_down L N) (endpoints s)" and "list_ex (member_up L N) (endpoints s)" and "etcd_ok s"
  shows "\<exists>obj s'. call L N meth body True s = (Some obj, s') \<and> endpoint s' \<in> set (endpoints s)"
proof -
  obtain m where m: "m < length (endpoints s)" "member_up L N (endpoints s ! m)"
    using assms(2) by (auto simp: list_ex_length)
  from cycle_reaches [OF m(1), of "current s"] obtain i where
    i: "i < length (endpoints s)" "(current s + i) mod length (endpoints s) = m" by blast
  from m(1) have ne: "endpoints s \<noteq> []" by auto
  obtain answer s' where run: "call L N meth body True s = (answer, s')" by fastforce
  have "\<exists>obj. answer = Some obj"
    using call_members_answers [OF assms(1), of i "[0..<length (endpoints s)]" meth "json_serialize L (Jobject body)"]
      i m(2) ne run
    by (simp add: call_def)
  moreover have "endpoints s' = endpoints s \<and> etcd_ok s'"
    using client_keeps_call [of L N meth body True] assms(3) run unfolding client_keeps_def by (metis snd_conv)
  then have "endpoint s' \<in> set (endpoints s)"
    using ne by (auto simp: endpoint_def etcd_ok_def)
  ultimately show ?thesis using run by blast
qed

text \<open>Two members of which the first is gone: the second answers.\<close>

definition one_up :: "unit net" where
  "one_up =
     \<lparr>net_send = (\<lambda>q t w. (if take 1 (q_url q) = ''b''
         then Inr \<lparr>a_status = 200, a_content_type = [], a_body = ''document'', a_content_length = 8, a_reused = False,
                a_headers = []\<rparr>
         else Inl ''refused'', w)),
      net_send_all = (\<lambda>qs t w. (map (\<lambda>_. Inl ''refused'') qs, w)),
      net_stream = (\<lambda>q w. ([], w)), net_now = (\<lambda>w. 0)\<rparr>"

theorem call_answered_while_a_member_is_up_witness:
  "\<exists>obj s'. call (example_libs (Jobject [])) one_up ''kv/range'' [] True
     \<lparr>endpoints = [''a'', ''b''], current = 0, timeout_seconds = 5, wire = ()\<rparr> = (Some obj, s') \<and>
     endpoint s' \<in> {''a'', ''b''}"
proof -
  have "list_all (member_up_or_down (example_libs (Jobject [])) one_up) [''a'', ''b'']"
    and "list_ex (member_up (example_libs (Jobject [])) one_up) [''a'', ''b'']"
    by (simp_all add: member_up_or_down_def member_up_def one_up_def gateway_request_def parse_object_def
        example_libs_def)
  then show ?thesis
    using call_answered_while_a_member_is_up [of "example_libs (Jobject [])" one_up
        "\<lparr>endpoints = [''a'', ''b''], current = 0, timeout_seconds = 5, wire = ()\<rparr>" "''kv/range''" "[]"]
    by (simp add: etcd_ok_def)
qed

section \<open>The watch reads lines, however the network cuts them\<close>

definition whole_lines :: "string \<Rightarrow> string list" where
  "whole_lines stream = butlast (split_on newline stream)"

definition changes_told :: "libs \<Rightarrow> string \<Rightarrow> nat" where
  "changes_told L stream =
     length (takeWhile (still_watching L) (filter (\<lambda>line. \<not> is_blank line) (whole_lines stream)))"

lemma whole_lines_Some:
  assumes "find_char newline stream = Some i"
  shows "whole_lines stream = take i stream # whole_lines (drop (i + 1) stream)"
proof -
  from find_char_Some [OF assms] have "stream = take i stream @ newline # drop (i + 1) stream"
    and no: "newline \<notin> set (take i stream)"
    using id_take_nth_drop [of i stream] by auto
  then have "split_on newline stream = take i stream # split_on newline (drop (i + 1) stream)"
    by (metis split_on_append)
  then show ?thesis by (simp add: whole_lines_def)
qed

lemma whole_lines_None: "find_char newline stream = None \<Longrightarrow> whole_lines stream = []"
  by (simp add: whole_lines_def find_char_None_iff)

lemma watch_lines_calls: "snd (snd (watch_lines L stream calls)) = calls + changes_told L stream"
proof (induction L stream calls rule: watch_lines.induct)
  case (1 L stream calls)
  show ?case
  proof (cases "find_char newline stream")
    case None
    then show ?thesis
      by (subst watch_lines.simps) (simp add: changes_told_def whole_lines_None)
  next
    case (Some i)
    then show ?thesis
      using "1.IH" [OF Some refl refl]
      by (subst watch_lines.simps) (auto simp: changes_told_def whole_lines_Some Let_def)
  qed
qed

lemma find_char_more: "find_char c s = Some i \<Longrightarrow> find_char c (s @ t) = Some i"
  by (induction s arbitrary: i) (auto split: if_splits)

lemma watch_lines_further:
  "watch_lines L stream calls = (goes_on, rest, n) \<Longrightarrow>
     watch_lines L (stream @ further) calls =
       (if goes_on then watch_lines L (rest @ further) n else (False, rest @ further, n))"
proof (induction L stream calls rule: watch_lines.induct)
  case (1 L stream calls)
  show ?case
  proof (cases "find_char newline stream")
    case None
    then show ?thesis using "1.prems" by (simp add: watch_lines.simps [of L stream])
  next
    case (Some i)
    from find_char_Some [OF this] have i: "i < length stream" by simp
    note longer = find_char_more [OF Some, of further]
    show ?thesis
      using "1.IH" [OF Some refl refl] "1.prems" Some longer i
      by (subst watch_lines.simps) (auto simp: watch_lines.simps [of L stream] Let_def split: if_splits)
  qed
qed

lemma watch_lines_left: "watch_lines L stream calls = (True, rest, n) \<Longrightarrow> find_char newline rest = None"
proof (induction L stream calls rule: watch_lines.induct)
  case (1 L stream calls)
  then show ?case
    by (cases "find_char newline stream") (auto simp: watch_lines.simps [of L stream] Let_def split: if_splits)
qed

lemma watch_pieces_stream:
  "find_char newline partial = None \<Longrightarrow>
     watch_pieces L pieces partial calls = snd (snd (watch_lines L (partial @ concat pieces) calls))"
proof (induction pieces arbitrary: partial calls)
  case Nil
  then show ?case by (simp add: watch_lines.simps [of L partial])
next
  case (Cons piece pieces)
  obtain goes_on rest n where run: "watch_lines L (partial @ piece) calls = (goes_on, rest, n)"
    by (metis prod_cases3)
  from watch_lines_further [OF run, of "concat pieces"] show ?case
    using run Cons.IH [of rest n] watch_lines_left [of L "partial @ piece" calls rest n]
    by (cases goes_on) simp_all
qed

text \<open>
  C20. However the network cuts the stream of a watch into pieces, the node is told of a change once for
  every whole line of it that says something, up to the line with which etcd ends the watch; a line not yet
  whole tells nothing.
\<close>

theorem watch_reads_whole_lines: "watch_pieces L pieces [] 0 = changes_told L (concat pieces)"
  by (simp add: watch_pieces_stream watch_lines_calls)

section \<open>What etcd holds under a prefix is what was written there\<close>

lemma range_end_prefix_end: "range_end pre = (case prefix_end pre of None \<Rightarrow> [zero_byte] | Some stop \<Rightarrow> stop)"
  by (simp add: range_end_def prefix_end_def Let_def)

end
