(* ===== verification/Etcd_Cluster.thy ===== *)
theory Etcd_Cluster
  imports Etcd
begin

text \<open>
  \<^verbatim>\<open>src/cluster/etcd_cluster.cpp\<close>: the membership as this node last read it, what it holds and vouches for,
  who leads each partition and in which term, and the passes that bring all of it up to date. The object is
  the record \<open>etcd_cluster\<close>; every method is one step on it. A \<^verbatim>\<open>time_point\<close> is a number of nanoseconds,
  the epoch 0. The two threads are whether they run (\<open>running\<close>) and what they do at each turn
  (\<open>run_turn\<close>, \<open>watch_turn\<close>).
\<close>

unbundle bit_operations_syntax

definition table_key :: string where
  "table_key = ''/table''"

record placement =
  pl_local :: bool
  pl_nodes :: "string list"

definition no_placement :: placement where
  "no_placement = \<lparr>pl_local = True, pl_nodes = []\<rparr>"

record etcd_registration =
  er_configured :: bool
  er_held :: bool
  er_endpoint :: string
  er_registrations :: nat

record leadership =
  ld_known :: bool
  ld_local :: bool
  ld_node :: string
  ld_term :: int

definition no_leadership :: leadership where
  "no_leadership = \<lparr>ld_known = False, ld_local = False, ld_node = [], ld_term = 0\<rparr>"

section \<open>Configuration\<close>

record config =
  cf_endpoints :: "string list"
  cf_node :: string
  cf_zone :: string
  cf_lease_seconds :: int
  cf_etcd_timeout :: int
  cf_prefix :: string
  cf_leader_prefix :: string
  cf_claims_per_refresh :: nat
  cf_timeout :: int

definition default_config :: config where
  "default_config =
     \<lparr>cf_endpoints = [], cf_node = [], cf_zone = [], cf_lease_seconds = 10, cf_etcd_timeout = 5,
      cf_prefix = ''/asyncdb/node/'', cf_leader_prefix = ''/asyncdb/leader/'', cf_claims_per_refresh = 64,
      cf_timeout = 30\<rparr>"

definition environment :: "(string \<Rightarrow> string option) \<Rightarrow> string \<Rightarrow> string" where
  "environment getenv name = (case getenv name of None \<Rightarrow> [] | Some value \<Rightarrow> value)"

definition read_endpoints :: "string \<Rightarrow> string list" where
  "read_endpoints configured = filter (\<lambda>e. e \<noteq> []) (split_on CHR '','' configured)"

definition is_clustered :: "config \<Rightarrow> bool" where
  "is_clustered c = (cf_endpoints c \<noteq> [] \<and> cf_node c \<noteq> [])"

definition from_environment :: "(string \<Rightarrow> string option) \<Rightarrow> config" where
  "from_environment getenv =
     default_config\<lparr>cf_endpoints := read_endpoints (environment getenv ''ASYNCDB_ETCD''),
       cf_node := environment getenv ''ASYNCDB_NODE'', cf_zone := environment getenv ''ASYNCDB_ZONE''\<rparr>"

definition read_member :: "libs \<Rightarrow> string \<Rightarrow> member" where
  "read_member L value =
     (case parse_object L value of
        None \<Rightarrow> member_of value []
      | Some obj \<Rightarrow>
          (case json_string_at obj ''node'' of
             None \<Rightarrow> member_of value []
           | Some node \<Rightarrow> member_of node (case json_string_at obj ''zone'' of None \<Rightarrow> [] | Some zone \<Rightarrow> zone)))"

section \<open>The object\<close>

record 'w etcd_cluster =
  configuration :: config
  etcd_client :: "'w etcd"
  member_list :: "member list"
  members_generation :: uint64
  holding :: partition_set
  held_since :: "nat \<Rightarrow> uint64"
  filled :: partition_set
  answered :: bool
  lease :: int
  registrations :: nat
  leader_list :: "(nat, leadership) smap"
  unled_since :: int
  releasing :: "(nat, int) smap"
  seen_terms :: "nat \<Rightarrow> int"
  running :: bool
  changed :: bool

abbreviation network :: "'w etcd_cluster \<Rightarrow> 'w" where
  "network s \<equiv> wire (etcd_client s)"

definition now :: "'w net \<Rightarrow> 'w etcd_cluster \<Rightarrow> int" where
  "now N s = net_now N (network s)"

definition seconds :: "int \<Rightarrow> int" where
  "seconds n = n * 1000000000"

definition etcd_cluster_of :: "'w net \<Rightarrow> config \<Rightarrow> 'w \<Rightarrow> 'w etcd_cluster" where
  "etcd_cluster_of N c w =
     \<lparr>configuration = c,
      etcd_client = \<lparr>endpoints = cf_endpoints c, current = 0, timeout_seconds = cf_etcd_timeout c, wire = w\<rparr>,
      member_list = [], members_generation = 0, holding = - 1, held_since = (\<lambda>_. 0), filled = 0,
      answered = False, lease = 0, registrations = 0, leader_list = [], unled_since = net_now N w,
      releasing = [], seen_terms = (\<lambda>_. 0), running = False, changed = False\<rparr>"

text \<open>A call of the client inside the object: \<^verbatim>\<open>etcd_client.f(...)\<close>.\<close>

definition on_client :: "('w etcd \<Rightarrow> 'a \<times> 'w etcd) \<Rightarrow> 'w etcd_cluster \<Rightarrow> 'a \<times> 'w etcd_cluster" where
  "on_client f s = (let (a, c) = f (etcd_client s) in (a, s\<lparr>etcd_client := c\<rparr>))"

section \<open>Where things are\<close>

definition members :: "'w etcd_cluster \<Rightarrow> member list" where
  "members s = member_list s"

definition place_owner :: "config \<Rightarrow> member \<Rightarrow> placement \<Rightarrow> placement" where
  "place_owner c owner wh =
     (if m_node owner = cf_node c then wh\<lparr>pl_local := True\<rparr>
      else if m_zone owner = cf_zone c then wh\<lparr>pl_nodes := m_node owner # pl_nodes wh\<rparr>
      else wh\<lparr>pl_nodes := pl_nodes wh @ [m_node owner]\<rparr>)"

definition copies_of :: "'w etcd_cluster \<Rightarrow> nat \<Rightarrow> placement" where
  "copies_of s part =
     (if length (member_list s) < 2 then no_placement
      else fold (place_owner (configuration s)) (owners_of (partition_name part) (member_list s))
             \<lparr>pl_local = False, pl_nodes = []\<rparr>)"

definition replicas :: "'w etcd_cluster \<Rightarrow> string \<Rightarrow> placement" where
  "replicas s key = copies_of s (partition_of key)"

definition holdings :: "'w etcd_cluster \<Rightarrow> partition_set" where
  "holdings s = holding s"

definition hold_owned :: "config \<Rightarrow> member list \<Rightarrow> nat \<Rightarrow> partition_set \<Rightarrow> partition_set" where
  "hold_owned c registered part owned =
     fold (\<lambda>owner owned. if m_node owner = cf_node c then set_bit part owned else owned)
       (owners_of (partition_name part) registered) owned"

definition holdings_of :: "config \<Rightarrow> member list \<Rightarrow> partition_set" where
  "holdings_of c registered =
     (if length registered < 2 then - 1 else fold (hold_owned c registered) [0..<partition_count] 0)"

definition generation :: "'w etcd_cluster \<Rightarrow> uint64" where
  "generation s = members_generation s"

definition vouch :: "partition_set \<Rightarrow> uint64 \<Rightarrow> 'w etcd_cluster \<Rightarrow> 'w etcd_cluster" where
  "vouch partitions since s =
     s\<lparr>filled := fold (\<lambda>part f.
         if has partitions part \<and> has (holding s) part \<and> held_since s part \<le> since then set_bit part f else f)
       [0..<partition_count] (filled s)\<rparr>"

definition vouched :: "'w etcd_cluster \<Rightarrow> partition_set" where
  "vouched s = filled s"

definition replace_members :: "member list \<Rightarrow> 'w etcd_cluster \<Rightarrow> 'w etcd_cluster" where
  "replace_members names s =
     (let owned = holdings_of (configuration s) names;
          gen = members_generation s + 1
      in s\<lparr>member_list := names, members_generation := gen,
           held_since := fold (\<lambda>part since.
               if has owned part \<and> \<not> has (holding s) part then since(part := gen) else since)
             [0..<partition_count] (held_since s),
           filled := filled s AND owned, holding := owned\<rparr>)"

definition holders :: "'w etcd_cluster \<Rightarrow> partition_set \<Rightarrow> (string, partition_set) smap" where
  "holders s partitions =
     (if length (member_list s) < 2 then []
      else holders_of partitions (member_list s) (cf_node (configuration s)) (cf_zone (configuration s)))"

definition cluster_holders_in :: "partition_set \<Rightarrow> string list \<Rightarrow> (string, partition_set) smap" where
  "cluster_holders_in partitions zone = holders_in partitions zone"

definition peers :: "'w etcd_cluster \<Rightarrow> string list" where
  "peers s = map m_node (filter (\<lambda>m. m_node m \<noteq> cf_node (configuration s)) (member_list s))"

definition zones :: "'w etcd_cluster \<Rightarrow> string list list" where
  "zones s =
     (if length (member_list s) < 2 then []
      else zones_of (member_list s) (cf_node (configuration s)) (cf_zone (configuration s)))"

section \<open>Terms\<close>

text \<open>
  The loop of \<^verbatim>\<open>raise_term\<close> ends in its first exchange, or in as many as other threads get in between; its
  effect is the same, one exchange of a term for a higher one.
\<close>

definition raise_term :: "nat \<Rightarrow> int \<Rightarrow> 'w etcd_cluster \<Rightarrow> bool \<times> 'w etcd_cluster" where
  "raise_term part term s =
     (let highest = seen_terms s part
      in if term > highest then (True, s\<lparr>seen_terms := (seen_terms s)(part := term)\<rparr>) else (term = highest, s))"

definition accept :: "string \<Rightarrow> int \<Rightarrow> 'w etcd_cluster \<Rightarrow> bool \<times> 'w etcd_cluster" where
  "accept key term s = (if term = 0 then (True, s) else raise_term (partition_of key) term s)"

definition restore_terms :: "(nat \<Rightarrow> int) \<Rightarrow> 'w etcd_cluster \<Rightarrow> 'w etcd_cluster" where
  "restore_terms applied s = fold (\<lambda>part s. snd (raise_term part (applied part) s)) [0..<partition_count] s"

definition term_of :: "string \<Rightarrow> nat \<Rightarrow> 'w etcd_cluster \<Rightarrow> int" where
  "term_of holder part s = (if holder \<noteq> cf_node (configuration s) then 0 else seen_terms s part)"

section \<open>Leaders\<close>

definition should_lead :: "config \<Rightarrow> member list \<Rightarrow> nat \<Rightarrow> bool" where
  "should_lead c registered part = (leader_of (partition_name part) registered = cf_node c)"

definition claim_key :: "config \<Rightarrow> nat \<Rightarrow> string" where
  "claim_key c part = cf_leader_prefix c @ to_string part"

definition led_by :: "string \<Rightarrow> int \<Rightarrow> 'w etcd_cluster \<Rightarrow> leadership" where
  "led_by holder term s =
     \<lparr>ld_known = True, ld_local = (holder = cf_node (configuration s)), ld_node = holder, ld_term = term\<rparr>"

text \<open>What follows a claim that was answered: the term is raised where the claim was made.\<close>

definition take_claim :: "nat \<Rightarrow> claim \<Rightarrow> 'w etcd_cluster \<Rightarrow> leadership \<times> 'w etcd_cluster" where
  "take_claim part claimed s =
     (let s = (if cl_held claimed then snd (raise_term part (cl_revision claimed) s) else s)
      in (led_by (cl_holder claimed) (cl_revision claimed) s, s))"

definition claim_unclaimed :: "libs \<Rightarrow> 'w net \<Rightarrow> nat \<Rightarrow> 'w etcd_cluster \<Rightarrow> leadership \<times> 'w etcd_cluster" where
  "claim_unclaimed L N part s =
     (let c = configuration s; named = leader_of (partition_name part) (member_list s)
      in if named \<noteq> cf_node c
         then (\<lparr>ld_known = True, ld_local = False, ld_node = named, ld_term = 0\<rparr>, s)
         else if lease s = 0 then (no_leadership, s)
         else let (claimed, s) = on_client (etcd_create L N (claim_key c part) (cf_node c) (lease s)) s
              in case claimed of
                   None \<Rightarrow> (no_leadership, s)
                 | Some claimed \<Rightarrow>
                     (let (led, s) = take_claim part claimed s
                      in (led, s\<lparr>leader_list := map_put part led (leader_list s)\<rparr>)))"

definition leader :: "libs \<Rightarrow> 'w net \<Rightarrow> string \<Rightarrow> 'w etcd_cluster \<Rightarrow> leadership \<times> 'w etcd_cluster" where
  "leader L N key s =
     (let c = configuration s
      in if \<not> is_clustered c
         then (\<lparr>ld_known = True, ld_local = True, ld_node = cf_node c, ld_term = 0\<rparr>, s)
         else if \<not> answered s \<or> length (member_list s) < 2 then (no_leadership, s)
         else let part = partition_of key
              in case map_of (leader_list s) part of
                   Some led \<Rightarrow> (led, s)
                 | None \<Rightarrow>
                     (let (claims, s) = on_client (etcd_get L N (claim_key c part)) s
                      in case claims of
                           None \<Rightarrow> (no_leadership, s)
                         | Some claims \<Rightarrow>
                             (case map_of claims (claim_key c part) of
                                Some holder \<Rightarrow> (led_by holder (term_of holder part s) s, s)
                              | None \<Rightarrow> claim_unclaimed L N part s)))"

definition leads :: "'w etcd_cluster \<Rightarrow> nat" where
  "leads s = length (filter (\<lambda>(part, led). ld_local led) (leader_list s))"

definition is_unled :: "'w net \<Rightarrow> 'w etcd_cluster \<Rightarrow> bool" where
  "is_unled N s =
     (if \<not> is_clustered (configuration s) \<or> unled_since s = 0 then False
      else now N s - unled_since s > seconds (cf_lease_seconds (configuration s)))"

definition is_alone :: "'w etcd_cluster \<Rightarrow> bool" where
  "is_alone s = (is_clustered (configuration s) \<and> length (member_list s) < 2)"

definition registration :: "'w etcd_cluster \<Rightarrow> etcd_registration" where
  "registration s =
     \<lparr>er_configured = is_clustered (configuration s), er_held = (lease s \<noteq> 0),
      er_endpoint = endpoint (etcd_client s), er_registrations = registrations s\<rparr>"

section \<open>A pass\<close>

definition tick :: "'w etcd_cluster \<Rightarrow> int" where
  "tick s = seconds (max (cf_lease_seconds (configuration s) div 3) 1)"

definition stand_unled :: "'w net \<Rightarrow> bool \<Rightarrow> 'w etcd_cluster \<Rightarrow> 'w etcd_cluster" where
  "stand_unled N unled s =
     (if \<not> unled then s\<lparr>unled_since := 0\<rparr>
      else if unled_since s = 0 then s\<lparr>unled_since := now N s\<rparr>
      else s)"

definition registration_document :: "libs \<Rightarrow> config \<Rightarrow> string" where
  "registration_document L c = json_serialize L (Jobject [(''node'', Jstring (cf_node c)), (''zone'', Jstring (cf_zone c))])"

definition register_node :: "libs \<Rightarrow> 'w net \<Rightarrow> 'w etcd_cluster \<Rightarrow> bool \<times> 'w etcd_cluster" where
  "register_node L N s =
     (let c = configuration s; (granted, s) = on_client (grant_lease L N (cf_lease_seconds c)) s
      in case granted of
           None \<Rightarrow> (False, s\<lparr>lease := 0\<rparr>)
         | Some granted \<Rightarrow>
             (let s = s\<lparr>lease := granted\<rparr>;
                  (written, s) = on_client (etcd_put L N (cf_prefix c @ cf_node c) (registration_document L c) granted) s
              in if \<not> written then (False, s) else (True, s\<lparr>registrations := registrations s + 1\<rparr>)))"

text \<open>\<^verbatim>\<open>std::sort\<close> of the names read: in the order of the nodes.\<close>

definition read_names :: "libs \<Rightarrow> config \<Rightarrow> (string, string) smap \<Rightarrow> member list" where
  "read_names L c registered =
     (let names = map (\<lambda>(path, value). read_member L value) registered;
          names = (if list_ex (\<lambda>m. m_node m = cf_node c) names then names
                   else names @ [member_of (cf_node c) (cf_zone c)])
      in linorder_class.sort_key m_node names)"

definition read_members :: "libs \<Rightarrow> 'w net \<Rightarrow> 'w etcd_cluster \<Rightarrow> 'w etcd_cluster" where
  "read_members L N s =
     (let c = configuration s; (registered, s) = on_client (etcd_range L N (cf_prefix c)) s
      in case registered of
           None \<Rightarrow>
             (let s = stand_unled N True (s\<lparr>answered := False\<rparr>)
              in if member_list s = [] then replace_members [member_of (cf_node c) (cf_zone c)] s else s)
         | Some registered \<Rightarrow>
             (let names = read_names L c registered;
                  s = replace_members names (stand_unled N (length names < 2) s)
              in s\<lparr>answered := True\<rparr>))"

text \<open>
  What \<^verbatim>\<open>read_leaders\<close> has gathered as it goes round the partitions: the leaders known, the claims to be
  given up, and how many calls it has made.
\<close>

record round =
  rd_known :: "(nat, leadership) smap"
  rd_release :: "(nat, int) smap"
  rd_claims :: nat

definition read_held :: "libs \<Rightarrow> 'w net \<Rightarrow> int \<Rightarrow> nat \<Rightarrow> string \<Rightarrow> round \<Rightarrow> 'w etcd_cluster \<Rightarrow> round \<times> 'w etcd_cluster" where
  "read_held L N at part holder r s =
     (let c = configuration s;
          keep = (\<lambda>r s. (r\<lparr>rd_known := map_put part (led_by holder (term_of holder part s) s) (rd_known r)\<rparr>, s))
      in if holder = cf_node c \<and> \<not> should_lead c (member_list s) part
         then let since = (case map_of (releasing s) part of None \<Rightarrow> at | Some t \<Rightarrow> t);
                  marked = r\<lparr>rd_release := map_put part since (rd_release r)\<rparr>
              in if at - since \<ge> tick s \<and> rd_claims r < cf_claims_per_refresh c
                 then let (removed, s) = on_client (etcd_remove L N (claim_key c part) (cf_node c)) s;
                          r = r\<lparr>rd_claims := rd_claims r + 1\<rparr>
                      in if removed then (r, s)
                         else keep (r\<lparr>rd_release := map_put part since (rd_release r)\<rparr>) s
                 else keep marked s
         else keep r s)"

definition read_unheld :: "libs \<Rightarrow> 'w net \<Rightarrow> nat \<Rightarrow> round \<Rightarrow> 'w etcd_cluster \<Rightarrow> round \<times> 'w etcd_cluster" where
  "read_unheld L N part r s =
     (let c = configuration s
      in if rd_claims r \<ge> cf_claims_per_refresh c \<or> \<not> should_lead c (member_list s) part then (r, s)
         else let r = r\<lparr>rd_claims := rd_claims r + 1\<rparr>;
                  (claimed, s) = on_client (etcd_create L N (claim_key c part) (cf_node c) (lease s)) s
              in case claimed of
                   None \<Rightarrow> (r, s)
                 | Some claimed \<Rightarrow>
                     (let (led, s) = take_claim part claimed s
                      in (r\<lparr>rd_known := map_put part led (rd_known r)\<rparr>, s)))"

fun read_partitions :: "libs \<Rightarrow> 'w net \<Rightarrow> int \<Rightarrow> (string, string) smap \<Rightarrow> nat list \<Rightarrow> round \<Rightarrow> 'w etcd_cluster \<Rightarrow>
    round \<times> 'w etcd_cluster" where
  "read_partitions L N at claims [] r s = (r, s)"
| "read_partitions L N at claims (part # parts) r s =
     (let (r, s) = (case map_of claims (claim_key (configuration s) part) of
                      Some holder \<Rightarrow> read_held L N at part holder r s
                    | None \<Rightarrow> read_unheld L N part r s)
      in read_partitions L N at claims parts r s)"

text \<open>The partitions from an offset of this node's own, so that no two nodes claim in one order.\<close>

definition partitions_from :: "config \<Rightarrow> nat list" where
  "partitions_from c =
     (let offset = unat (score (cf_node c) ''leader'') mod partition_count
      in map (\<lambda>i. (offset + i) mod partition_count) [0..<partition_count])"

definition read_leaders :: "libs \<Rightarrow> 'w net \<Rightarrow> 'w etcd_cluster \<Rightarrow> 'w etcd_cluster" where
  "read_leaders L N s =
     (let c = configuration s
      in if length (member_list s) < 2 then s
         else if lease s = 0 then s
         else let (claims, s) = on_client (etcd_range L N (cf_leader_prefix c)) s
              in case claims of
                   None \<Rightarrow> s\<lparr>leader_list := []\<rparr>
                 | Some claims \<Rightarrow>
                     (let (r, s) = read_partitions L N (now N s) claims (partitions_from c)
                            \<lparr>rd_known = [], rd_release = [], rd_claims = 0\<rparr> s
                      in s\<lparr>releasing := rd_release r, leader_list := rd_known r\<rparr>))"

definition refresh :: "libs \<Rightarrow> 'w net \<Rightarrow> 'w etcd_cluster \<Rightarrow> 'w etcd_cluster" where
  "refresh L N s =
     (let (alive, s) = (if lease s = 0 then (False, s) else on_client (keep_alive L N (lease s)) s);
          s = (if alive then s else snd (register_node L N s))
      in read_leaders L N (read_members L N s))"

section \<open>Joining and leaving\<close>

definition start :: "libs \<Rightarrow> 'w net \<Rightarrow> 'w etcd_cluster \<Rightarrow> 'w etcd_cluster" where
  "start L N s =
     (if \<not> is_clustered (configuration s) \<or> running s then s else (refresh L N s)\<lparr>running := True\<rparr>)"

definition discover :: "libs \<Rightarrow> 'w net \<Rightarrow> 'w etcd_cluster \<Rightarrow> bool \<times> 'w etcd_cluster" where
  "discover L N s = (if \<not> is_clustered (configuration s) then (False, s) else (True, read_members L N s))"

definition leave :: "libs \<Rightarrow> 'w net \<Rightarrow> 'w etcd_cluster \<Rightarrow> 'w etcd_cluster" where
  "leave L N s =
     (if \<not> running s then s
      else let s = s\<lparr>running := False\<rparr>;
               s = (if lease s \<noteq> 0 then snd (on_client (revoke L N (lease s)) s) else s)
           in s\<lparr>lease := 0\<rparr>)"

text \<open>
  One turn of the membership thread, when its wait is over: nothing once it was told to stop. One turn of
  the watcher, which marks that something changed.
\<close>

definition run_turn :: "libs \<Rightarrow> 'w net \<Rightarrow> 'w etcd_cluster \<Rightarrow> 'w etcd_cluster" where
  "run_turn L N s = (if \<not> running s then s else refresh L N (s\<lparr>changed := False\<rparr>))"

fun common_prefix :: "string \<Rightarrow> string \<Rightarrow> string" where
  "common_prefix (x # xs) (y # ys) = (if x = y then x # common_prefix xs ys else [])"
| "common_prefix _ _ = []"

definition watch_turn :: "libs \<Rightarrow> 'w net \<Rightarrow> 'w etcd_cluster \<Rightarrow> 'w etcd_cluster" where
  "watch_turn L N s =
     (if \<not> running s then s
      else let (calls, s) = on_client (etcd_watch L N
                 (common_prefix (cf_prefix (configuration s)) (cf_leader_prefix (configuration s)))) s
           in if calls > 0 then s\<lparr>changed := True\<rparr> else s)"

end
