(* ===== verification/Forwarder.thy ===== *)
theory Forwarder
  imports Http Url
begin

text \<open>
  \<^verbatim>\<open>src/cluster/forwarder.h\<close>, \<^verbatim>\<open>forwarder.cpp\<close> and \<^verbatim>\<open>http_forwarder.cpp\<close>: a request of this node's router sent
  on to another node over the network, and the answer of that node read back as one of this node's.
\<close>

definition forwarded_header :: string where
  "forwarded_header = ''X-Asyncdb-Forwarded''"

definition term_header :: string where
  "term_header = ''X-Asyncdb-Term''"

definition count_header :: string where
  "count_header = ''X-Asyncdb-Count''"

record enquiry =
  en_node :: string
  en_request :: request

definition refusal :: "response list \<Rightarrow> response option" where
  "refusal answers = find (\<lambda>answer. rs_status answer \<ge> bad_request_400) answers"

section \<open>A request on its way\<close>

definition target :: "libs \<Rightarrow> string \<Rightarrow> request \<Rightarrow> string" where
  "target L node req =
     node @ concat (map (\<lambda>segment. ''/'' @ encode_url L segment) (rq_path req)) @
     (if rq_path req = [] then ''/'' else []) @ (if rq_query req \<noteq> [] then ''?'' @ rq_query req else [])"

definition method_of :: "request \<Rightarrow> string" where
  "method_of req = verb_name (rq_method req)"

definition is_head :: "request \<Rightarrow> bool" where
  "is_head req = (rq_method req = Verb_head)"

definition headers_of :: "request \<Rightarrow> string list" where
  "headers_of req =
     (forwarded_header @ '': true'') #
     (if rq_term req \<noteq> 0
      then [term_header @ '': '' @ int_to_string (rq_term req), count_header @ '': '' @ to_string (unat (rq_count req))]
      else [])"

definition forwarded_to :: "libs \<Rightarrow> string \<Rightarrow> request \<Rightarrow> http_request" where
  "forwarded_to L node req = http_request_of (method_of req) (target L node req) (rq_body req) (headers_of req)"

definition forwarded_to_all :: "libs \<Rightarrow> string list \<Rightarrow> request \<Rightarrow> http_request list" where
  "forwarded_to_all L nodes req =
     (let headers = headers_of req
      in map (\<lambda>destination. http_request_of (method_of req) (target L destination req) (rq_body req) headers) nodes)"

section \<open>The answer on its way back\<close>

definition transfer_of :: "libs \<Rightarrow> http_response \<Rightarrow> transfer" where
  "transfer_of L answer =
     no_transfer\<lparr>f_records := (case lexical_size L (header_of answer records_header) of None \<Rightarrow> 0 | Some n \<Rightarrow> n),
       f_next := header_of answer next_header\<rparr>"

text \<open>\<^verbatim>\<open>text.find(sought) != npos\<close>\<close>

fun contains_text :: "string \<Rightarrow> string \<Rightarrow> bool" where
  "contains_text sought [] = (sought = [])"
| "contains_text sought (c # cs) = (take (length sought) (c # cs) = sought \<or> contains_text sought cs)"

text \<open>A \<^verbatim>\<open>long\<close> as a status and as a \<^verbatim>\<open>size_t\<close>.\<close>

definition status_of :: "int \<Rightarrow> status_code" where
  "status_of n = nat (n mod 2 ^ 32)"

definition size_of :: "int \<Rightarrow> nat" where
  "size_of n = nat (n mod 2 ^ 64)"

definition body_of :: "libs \<Rightarrow> string \<Rightarrow> http_response \<Rightarrow> bool \<Rightarrow> response" where
  "body_of L node answer head =
     (let status = status_of (a_status answer)
      in if head then head_response status (a_content_type answer) (size_of (a_content_length answer))
         else if a_body answer = [] then empty_response status
         else if \<not> contains_text json_content_type (a_content_type answer) then text_response status (a_body answer)
         else case parse_object L (a_body answer) of
                None \<Rightarrow> error_response Storage_error
                          (''Node \"'' @ node @ ''\" answered with something that is not a document.'')
              | Some obj \<Rightarrow> json_response status obj)"

definition to_response :: "libs \<Rightarrow> string \<Rightarrow> string + http_response \<Rightarrow> bool \<Rightarrow> response" where
  "to_response L node expected head =
     (case expected of
        Inl why \<Rightarrow> error_response Storage_error (''Node \"'' @ node @ ''\" did not answer: '' @ why @ ''.'')
      | Inr answer \<Rightarrow> (body_of L node answer head)\<lparr>rs_file := transfer_of L answer\<rparr>)"

definition responses_of :: "libs \<Rightarrow> string list \<Rightarrow> (string + http_response) list \<Rightarrow> request \<Rightarrow> response list" where
  "responses_of L nodes answers req =
     map (\<lambda>(node, answer). to_response L node answer (is_head req)) (zip nodes answers)"

section \<open>Asking\<close>

definition forward_timeout :: int where
  "forward_timeout = 30"

definition forward :: "libs \<Rightarrow> 'w net \<Rightarrow> string \<Rightarrow> request \<Rightarrow> 'w \<Rightarrow> response \<times> 'w" where
  "forward L N node req w =
     (let (expected, w) = net_send N (forwarded_to L node req) forward_timeout w
      in (to_response L node expected (is_head req), w))"

definition async_forward :: "libs \<Rightarrow> 'w net \<Rightarrow> string \<Rightarrow> request \<Rightarrow> 'w \<Rightarrow> response \<times> 'w" where
  "async_forward L N node req w =
     (let (expected, w) = net_send N (forwarded_to L node req) forward_timeout w
      in (to_response L node expected (is_head req), w))"

definition forward_each :: "libs \<Rightarrow> 'w net \<Rightarrow> enquiry list \<Rightarrow> 'w \<Rightarrow> response list \<times> 'w" where
  "forward_each L N enquiries w =
     (let (answers, w) =
            net_send_all N (map (\<lambda>asked. forwarded_to L (en_node asked) (en_request asked)) enquiries) forward_timeout w
      in (map (\<lambda>(asked, answer). to_response L (en_node asked) answer (is_head (en_request asked)))
            (zip enquiries answers), w))"

definition forward_all :: "libs \<Rightarrow> 'w net \<Rightarrow> string list \<Rightarrow> request \<Rightarrow> 'w \<Rightarrow> response list \<times> 'w" where
  "forward_all L N nodes req w =
     (let (answers, w) = net_send_all N (forwarded_to_all L nodes req) forward_timeout w
      in (responses_of L nodes answers req, w))"

end
