(* ===== verification/Router.thy ===== *)
theory Router
  imports Repository Etcd_Cluster Forwarder
begin

text \<open>
  \<^verbatim>\<open>src/router/router.cpp\<close>: what a node does with a request. The router works over three seams, which are
  three parts of its state: the store, the cluster and, inside the cluster's client, the network the
  forwarder sends over. Every handler is an operation on that state that may throw what the store throws.
  A coroutine is the operation it runs to its end.
\<close>

unbundle bit_operations_syntax

record ('db, 'w) router =
  store :: "'db repo"
  nodes :: "'w etcd_cluster"
  draining :: bool

type_synonym ('db, 'w, 'a) handler = "(('db, 'w) router, storage_error, 'a) exec"

section \<open>The three seams\<close>

definition on_store :: "('db, 'a) repo_exec \<Rightarrow> ('db, 'w, 'a) handler" where
  "on_store m s = (let (r, st) = m (store s) in (r, s\<lparr>store := st\<rparr>))"

definition on_nodes :: "('w etcd_cluster \<Rightarrow> 'a \<times> 'w etcd_cluster) \<Rightarrow> ('db, 'w, 'a) handler" where
  "on_nodes f s = (let (a, c) = f (nodes s) in (Inr a, s\<lparr>nodes := c\<rparr>))"

definition on_wire :: "('w \<Rightarrow> 'a \<times> 'w) \<Rightarrow> ('db, 'w, 'a) handler" where
  "on_wire f = on_nodes (\<lambda>c. let (a, w) = f (network c) in (a, c\<lparr>etcd_client := (etcd_client c)\<lparr>wire := w\<rparr>\<rparr>))"

section \<open>Answers\<close>

definition no_route :: "string \<Rightarrow> response" where
  "no_route what = error_response Not_found (''No '' @ what @ ''.'')"

definition table_not_found :: "string \<Rightarrow> response" where
  "table_not_found name = error_response Table_not_found (''No table named \"'' @ name @ ''\".'')"

definition carried :: "request \<Rightarrow> int \<Rightarrow> uint64 \<Rightarrow> request" where
  "carried req term cnt = req\<lparr>rq_term := term, rq_count := cnt\<rparr>"

definition node_incomplete :: response where
  "node_incomplete =
     error_response Node_incomplete ''This node holds less than it owns, so it cannot say a key is missing.''"

definition node_alone :: response where
  "node_alone =
     error_response Node_alone
       ''This node has no membership but itself, so it cannot say which node holds a key.''"

definition method_not_allowed :: "verb \<Rightarrow> response" where
  "method_not_allowed meth = error_response Method_not_allowed (verb_name meth @ '' is not allowed here.'')"

definition parse_body :: "libs \<Rightarrow> string \<Rightarrow> json_object option" where
  "parse_body L body = (if body = [] then Some [] else parse_object L body)"

definition record_to_json :: "record_t \<Rightarrow> bool \<Rightarrow> json_object" where
  "record_to_json rec values =
     [(''key'', Jstring (partition_key (rec_key rec)))] @
     (let srt = sort_key (rec_key rec) in if srt \<noteq> [] then [(''sort'', Jstring srt)] else []) @
     (if values then [(''value'', Jstring (rec_value rec))] else [])"

definition page_response :: "libs \<Rightarrow> page \<Rightarrow> range \<Rightarrow> string \<Rightarrow> response" where
  "page_response L pg r issuer =
     json_response ok_200
       ((''records'', Jarray (map (\<lambda>paged. Jobject (record_to_json paged (r_values r))) (p_records pg))) #
        (if p_has_more pg \<and> p_records pg \<noteq> []
         then [(''next'', Jstring (encode_cursor L (rec_key (last (p_records pg))) issuer (r_partition r)))]
         else []))"

section \<open>The router\<close>

definition table_term :: "schema \<Rightarrow> int \<Rightarrow> int" where
  "table_term entries term =
     fold (\<lambda>name tables.
         case schema_read_entry entries name of
           None \<Rightarrow> tables
         | Some e \<Rightarrow> if v_term (e_stamp e) > tables then v_term (e_stamp e) else tables)
       (schema_names entries) term"

definition router_of :: "'db repo \<Rightarrow> 'w etcd_cluster \<Rightarrow> ('db, 'w) router" where
  "router_of repo cluster_nodes =
     (let applied = read_terms repo; part = partition_of table_key
      in \<lparr>store = repo,
          nodes = restore_terms (applied(part := table_term (read_schema repo) (applied part))) cluster_nodes,
          draining = False\<rparr>)"

definition is_incomplete :: "('db, 'w) router \<Rightarrow> bool" where
  "is_incomplete s = (holdings (nodes s) AND NOT (vouched (nodes s)) \<noteq> 0)"

definition missing_table :: "string \<Rightarrow> ('db, 'w) router \<Rightarrow> response" where
  "missing_table name s = (if is_incomplete s then node_incomplete else table_not_found name)"

definition is_short_of :: "nat \<Rightarrow> ('db, 'w) router \<Rightarrow> bool" where
  "is_short_of part s = (has (holdings (nodes s)) part \<and> \<not> has (vouched (nodes s)) part)"

definition set_draining :: "bool \<Rightarrow> ('db, 'w) router \<Rightarrow> ('db, 'w) router" where
  "set_draining value s = s\<lparr>draining := value\<rparr>"

definition is_draining :: "('db, 'w) router \<Rightarrow> bool" where
  "is_draining s = draining s"

definition is_read :: "verb \<Rightarrow> bool" where
  "is_read meth = (meth = Verb_get \<or> meth = Verb_head)"

section \<open>What a node says of itself\<close>

definition zone_names :: "member list \<Rightarrow> (string, string list) smap" where
  "zone_names listed = fold zone_push (filter (\<lambda>m. m_zone m \<noteq> []) listed) []"

definition route_health :: "'db rocksdb \<Rightarrow> 'w net \<Rightarrow> request \<Rightarrow> ('db, 'w) router \<Rightarrow> response" where
  "route_health R N req s =
     (if \<not> is_read (rq_method req) then method_not_allowed (rq_method req)
      else let unled = is_unled N (nodes s);
               leaving = draining s;
               registered = registration (nodes s);
               listed = members (nodes s);
               zoned = zone_names listed;
               health =
                 [(''status'', Jstring ''ok''), (''write_stalled'', Jbool (is_write_stalled R (store s))),
                  (''incomplete'', Jbool (is_incomplete s)), (''unled'', Jbool unled), (''draining'', Jbool leaving)] @
                 (if er_configured registered
                  then [(''etcd'', Jobject [(''registered'', Jbool (er_held registered)),
                                            (''endpoint'', Jstring (er_endpoint registered))])] else []) @
                 (if listed \<noteq> []
                  then [(''nodes'', Jarray (map (\<lambda>m. Jstring (m_node m)) listed)),
                        (''leads'', Jint (int (leads (nodes s))))] @
                       (if zoned \<noteq> []
                        then [(''zones'', Jobject (map (\<lambda>(zone, names). (zone, Jarray (map Jstring names))) zoned))]
                        else [])
                  else [])
           in json_response (if unled \<or> leaving then service_unavailable_503 else ok_200) health)"

definition route_tables :: "request \<Rightarrow> ('db, 'w) router \<Rightarrow> response" where
  "route_tables req s =
     (if \<not> is_read (rq_method req) then method_not_allowed (rq_method req)
      else json_response ok_200
             [(''tables'', Jarray (map (\<lambda>t. Jobject (table_to_json t)) (list_tables (store s))))])"

section \<open>Files of records\<close>

definition read_end :: "libs \<Rightarrow> string \<Rightarrow> string \<Rightarrow> string option option" where
  "read_end L query name =
     (let given = read_parameter L query name
      in if given = [] then Some None else map_option Some (base64_decode given))"

definition share_asked :: "libs \<Rightarrow> string \<Rightarrow> response + share" where
  "share_asked L query =
     (case decode_partitions (read_parameter L query ''partitions'') of
        None \<Rightarrow> Inl (error_response Invalid_partitions
                  ''The partitions asked for are not a set of the partitions this cluster has.'')
      | Some partitions \<Rightarrow>
          (let wanted = default_share\<lparr>s_partitions := partitions,
                          s_values := (read_parameter L query ''values'' \<noteq> ''false'')\<rparr>
           in case read_end L query ''from'' of
                None \<Rightarrow> Inl (error_response Invalid_cursor ''The key to resume the file at is not base64.'')
              | Some resumed \<Rightarrow>
                  (let wanted = (case resumed of None \<Rightarrow> wanted
                                 | Some from \<Rightarrow> wanted\<lparr>s_from := from, s_has_from := True\<rparr>)
                   in case read_end L query ''to'' of
                        None \<Rightarrow> Inl (error_response Invalid_cursor ''The key to end the file at is not base64.'')
                      | Some finish \<Rightarrow>
                          (let wanted = (case finish of None \<Rightarrow> wanted
                                         | Some to \<Rightarrow> wanted\<lparr>s_to := to, s_has_to := True\<rparr>)
                           in Inr (case lexical_size L (read_parameter L query ''bytes'') of
                                None \<Rightarrow> wanted
                              | Some bytes \<Rightarrow>
                                  if bytes > 0 then wanted\<lparr>s_bytes := min bytes max_file_bytes\<rparr> else wanted)))))"

definition route_file :: "libs \<Rightarrow> 'db rocksdb \<Rightarrow> request \<Rightarrow> string \<Rightarrow> ('db, 'w, response) handler" where
  "route_file L R req name s =
     (if rq_method req \<noteq> Verb_get then ret (method_not_allowed (rq_method req)) s
      else if \<not> has_table (store s) name then ret (table_not_found name) s
      else case share_asked L (rq_query req) of
             Inl refused \<Rightarrow> ret refused s
           | Inr wanted \<Rightarrow>
               andthen (on_store (export_records R name wanted))
                 (\<lambda>taken. ret (file_response (x_file taken) (x_records taken)
                    (if x_has_more taken then base64_encode (x_last taken) else []))) s)"

definition route_split :: "libs \<Rightarrow> 'db rocksdb \<Rightarrow> request \<Rightarrow> string \<Rightarrow> ('db, 'w, response) handler" where
  "route_split L R req name s =
     (if rq_method req \<noteq> Verb_get then ret (method_not_allowed (rq_method req)) s
      else if \<not> has_table (store s) name then ret (table_not_found name) s
      else let ways = (case lexical_size L (read_parameter L (rq_query req) ''ways'') of None \<Rightarrow> 0 | Some n \<Rightarrow> n)
           in if ways < 1
              then ret (error_response Invalid_range ''The number of ways to cut a table up is not a number.'') s
              else andthen (on_store (split_points R name (of_nat (min ways max_limit))))
                     (\<lambda>points. ret (json_response ok_200
                        [(''keys'', Jarray (map (\<lambda>point. Jstring (base64_encode point)) points))])) s)"

section \<open>Records\<close>

definition read_here :: "'db rocksdb \<Rightarrow> string \<Rightarrow> string \<Rightarrow> ('db, 'w, response) handler" where
  "read_here R name key =
     andthen (on_store (read_record R name key)) (\<lambda>value.
       case value of
         Some value \<Rightarrow> ret (text_response ok_200 value)
       | None \<Rightarrow> (\<lambda>s.
           if is_short_of (partition_of key) s then ret node_incomplete s
           else ret (empty_response not_found_404) s))"

definition apply_write :: "'db rocksdb \<Rightarrow> request \<Rightarrow> string \<Rightarrow> record_t \<Rightarrow> ('db, 'w, response) handler" where
  "apply_write R req name rec =
     (if rq_term req = 0
      then ret (error_response No_leader ''This node does not lead this key's partition.'')
      else andthen (on_nodes (accept (rec_key rec) (rq_term req))) (\<lambda>accepted.
        if \<not> accepted
        then ret (error_response Stale_leader ''This key is led in a later term than the one that ordered this write.'')
        else andthen (on_store (write_record R name (rec\<lparr>rec_stamp := stamp_of (rq_term req) (rq_count req)\<rparr>)))
               (\<lambda>_. ret (empty_response no_content_204))))"

definition lead_write :: "libs \<Rightarrow> 'db rocksdb \<Rightarrow> 'w net \<Rightarrow> request \<Rightarrow> string \<Rightarrow> record_t \<Rightarrow> leadership \<Rightarrow>
    ('db, 'w, response) handler" where
  "lead_write L R N req name rec lead =
     andthen (on_store (next_count L R)) (\<lambda>cnt s.
       let rec = rec\<lparr>rec_stamp := stamp_of (ld_term lead) cnt\<rparr>;
           where_to = replicas (nodes s) (rec_key rec)
       in andthen (if pl_local where_to then on_store (write_record R name rec) else ret ()) (\<lambda>_.
          andthen (on_wire (forward_all L N (pl_nodes where_to) (carried req (ld_term lead) cnt))) (\<lambda>answers.
            ret (case refusal answers of Some refused \<Rightarrow> refused | None \<Rightarrow> empty_response no_content_204))) s)"

definition forward_to_leader :: "libs \<Rightarrow> 'w net \<Rightarrow> request \<Rightarrow> leadership \<Rightarrow> ('db, 'w, response) handler" where
  "forward_to_leader L N req lead = on_wire (async_forward L N (ld_node lead) req)"

fun read_replicas :: "libs \<Rightarrow> 'w net \<Rightarrow> request \<Rightarrow> string list \<Rightarrow> response \<Rightarrow> 'w \<Rightarrow> response \<times> 'w" where
  "read_replicas L N req [] answer w = (answer, w)"
| "read_replicas L N req (replica # rest) answer w =
     (let (answer, w) = async_forward L N replica req w
      in if rs_status answer < internal_server_error_500 then (answer, w)
         else read_replicas L N req rest answer w)"

definition router_read_record :: "libs \<Rightarrow> 'w net \<Rightarrow> request \<Rightarrow> placement \<Rightarrow> ('db, 'w, response) handler" where
  "router_read_record L N req where_to =
     on_wire (read_replicas L N req (pl_nodes where_to)
       (error_response Storage_error ''No node holding this key answered.''))"

definition parsed_record :: "libs \<Rightarrow> request \<Rightarrow> string \<Rightarrow> string \<Rightarrow> error_message + record_t" where
  "parsed_record L req part srt =
     (let key = compose_key part srt
      in if rq_method req = Verb_put then parse_record L key (rq_body req) else parse_key L key)"

definition route_record :: "libs \<Rightarrow> 'db rocksdb \<Rightarrow> 'w net \<Rightarrow> request \<Rightarrow> string \<Rightarrow> string \<Rightarrow> string \<Rightarrow>
    ('db, 'w, response) handler" where
  "route_record L R N req name part srt s =
     (let writing = (rq_method req = Verb_put); key = compose_key part srt
      in if \<not> writing \<and> \<not> is_read (rq_method req) then ret (method_not_allowed (rq_method req)) s
         else case parsed_record L req part srt of
           Inl e \<Rightarrow> ret (error_response (err_code e) (err_message e)) s
         | Inr rec \<Rightarrow>
             if \<not> writing \<and> is_alone (nodes s) then ret node_alone s
             else if \<not> has_table (store s) name then ret (missing_table name s) s
             else if \<not> writing
             then let where_to = replicas (nodes s) (rec_key rec)
                  in if \<not> pl_local where_to then router_read_record L N req where_to s
                     else andthen (on_store (read_record R name key)) (\<lambda>value.
                       case value of
                         Some value \<Rightarrow> ret (text_response ok_200 value)
                       | None \<Rightarrow> if pl_nodes where_to \<noteq> [] then router_read_record L N req where_to
                                 else read_here R name key) s
             else andthen (on_nodes (leader L N (rec_key rec))) (\<lambda>lead.
               if ld_local lead then lead_write L R N req name rec lead
               else if \<not> ld_known lead
               then ret (error_response No_leader ''No node is leading this key's partition yet.'')
               else forward_to_leader L N req lead) s)"

definition route_forwarded_record :: "libs \<Rightarrow> 'db rocksdb \<Rightarrow> 'w net \<Rightarrow> request \<Rightarrow> string \<Rightarrow> string \<Rightarrow> string \<Rightarrow>
    ('db, 'w, response) handler" where
  "route_forwarded_record L R N req name part srt s =
     (let writing = (rq_method req = Verb_put); key = compose_key part srt
      in if \<not> writing \<and> \<not> is_read (rq_method req) then ret (method_not_allowed (rq_method req)) s
         else case parsed_record L req part srt of
           Inl e \<Rightarrow> ret (error_response (err_code e) (err_message e)) s
         | Inr rec \<Rightarrow>
             if \<not> writing then read_here R name key s
             else if rq_term req \<noteq> 0 then apply_write R req name rec s
             else andthen (on_nodes (leader L N (rec_key rec))) (\<lambda>lead.
               if \<not> ld_local lead then apply_write R req name rec
               else lead_write L R N req name rec lead) s)"

section \<open>Tables\<close>

record ordering =
  od_answer :: "response option"
  od_peers :: "string list"
  od_term :: int
  od_carried :: bool

abbreviation settled_order :: "response \<Rightarrow> ordering" where
  "settled_order answer \<equiv> \<lparr>od_answer = Some answer, od_peers = [], od_term = 0, od_carried = False\<rparr>"

definition order_schema :: "libs \<Rightarrow> 'w net \<Rightarrow> request \<Rightarrow> ('db, 'w, ordering) handler" where
  "order_schema L N req =
     (if rq_term req \<noteq> 0
      then andthen (on_nodes (accept table_key (rq_term req))) (\<lambda>accepted.
        ret (if \<not> accepted
             then settled_order (error_response Stale_leader
                    ''The tables are led in a later term than the one that ordered this.'')
             else \<lparr>od_answer = None, od_peers = [], od_term = 0, od_carried = True\<rparr>))
      else andthen (on_nodes (leader L N table_key)) (\<lambda>lead s.
        if \<not> ld_known lead
        then ret (settled_order (error_response No_leader ''No node is leading the tables yet.'')) s
        else if \<not> ld_local lead
        then (if rq_forwarded req
              then ret (settled_order (error_response No_leader ''This node does not lead the tables.'')) s
              else andthen (on_wire (forward L N (ld_node lead) req)) (\<lambda>answer. ret (settled_order answer)) s)
        else ret \<lparr>od_answer = None, od_peers = peers (nodes s), od_term = ld_term lead, od_carried = False\<rparr> s))"

definition schema_stamp :: "libs \<Rightarrow> 'db rocksdb \<Rightarrow> request \<Rightarrow> ordering \<Rightarrow> ('db, 'w, version) handler" where
  "schema_stamp L R req order =
     (if od_carried order then ret (stamp_of (rq_term req) (rq_count req))
      else andthen (on_store (next_count L R)) (\<lambda>cnt. ret (stamp_of (od_term order) cnt)))"

definition table_names :: "('db, 'w) router \<Rightarrow> string list" where
  "table_names s = map t_name (list_tables (store s))"

text \<open>\<^verbatim>\<open>cluster::refusal(forwarding.forward_all(order.peers, carried(request, order.term, stamp.count)))\<close>\<close>

definition carry_on :: "libs \<Rightarrow> 'w net \<Rightarrow> request \<Rightarrow> ordering \<Rightarrow> version \<Rightarrow> ('db, 'w, response option) handler" where
  "carry_on L N req order stamp =
     andthen (on_wire (forward_all L N (od_peers order) (carried req (od_term order) (v_count stamp))))
       (\<lambda>answers. ret (refusal answers))"

definition router_create_table :: "libs \<Rightarrow> 'db rocksdb \<Rightarrow> 'w net \<Rightarrow> request \<Rightarrow> string \<Rightarrow> ('db, 'w, response) handler" where
  "router_create_table L R N req name =
     (case parse_body L (rq_body req) of
        None \<Rightarrow> ret (error_response Invalid_body ''The body of a table is a JSON object.'')
      | Some body \<Rightarrow>
          andthen (order_schema L N req) (\<lambda>order.
            case od_answer order of
              Some answer \<Rightarrow> ret answer
            | None \<Rightarrow> (\<lambda>s.
                case parse_table name body (table_names s) of
                  Inl e \<Rightarrow> ret (error_response (err_code e) (err_message e)) s
                | Inr t \<Rightarrow>
                    (let existing = read_table (store s) name
                     in andthen (schema_stamp L R req order) (\<lambda>stamp.
                          case existing of
                            Inr standing \<Rightarrow>
                              if standing \<noteq> t
                              then ret (error_response Table_exists
                                     (''A table named \"'' @ name @ ''\" exists with different options.''))
                              else andthen (carry_on L N req order stamp) (\<lambda>failure.
                                ret (case failure of Some f \<Rightarrow> f | None \<Rightarrow> json_response ok_200 (table_to_json t)))
                          | Inl _ \<Rightarrow>
                              andthen (on_store (create_table L R t stamp)) (\<lambda>_.
                              andthen (carry_on L N req order stamp) (\<lambda>failure.
                                ret (case failure of Some f \<Rightarrow> f
                                     | None \<Rightarrow> json_response created_201 (table_to_json t))))) s))))"

definition router_delete_table :: "libs \<Rightarrow> 'db rocksdb \<Rightarrow> 'w net \<Rightarrow> request \<Rightarrow> string \<Rightarrow> ('db, 'w, response) handler" where
  "router_delete_table L R N req name =
     andthen (order_schema L N req) (\<lambda>order.
       case od_answer order of
         Some answer \<Rightarrow> ret answer
       | None \<Rightarrow>
           andthen (schema_stamp L R req order) (\<lambda>stamp s.
             if \<not> has_table (store s) name
             then (if od_carried order
                   then andthen (on_store (delete_table L R name stamp)) (\<lambda>_. ret (empty_response no_content_204)) s
                   else if is_incomplete s then ret node_incomplete s
                   else andthen (carry_on L N req order stamp)
                          (\<lambda>refused. ret (case refused of Some f \<Rightarrow> f | None \<Rightarrow> table_not_found name)) s)
             else andthen (on_store (delete_table L R name stamp)) (\<lambda>_.
                  andthen (carry_on L N req order stamp)
                    (\<lambda>failure. ret (case failure of Some f \<Rightarrow> f | None \<Rightarrow> empty_response no_content_204))) s))"

definition route_table :: "libs \<Rightarrow> 'db rocksdb \<Rightarrow> 'w net \<Rightarrow> request \<Rightarrow> string \<Rightarrow> ('db, 'w, response) handler" where
  "route_table L R N req name s =
     (if rq_method req = Verb_put then router_create_table L R N req name s
      else if rq_method req = Verb_delete then router_delete_table L R N req name s
      else if \<not> is_read (rq_method req) then ret (method_not_allowed (rq_method req)) s
      else case read_table (store s) name of
             Inl e \<Rightarrow> ret (error_response (err_code e) (err_message e)) s
           | Inr t \<Rightarrow> ret (json_response ok_200 (table_to_json t)) s)"

section \<open>Scans\<close>

definition answer_page :: "libs \<Rightarrow> 'db rocksdb \<Rightarrow> request \<Rightarrow> string \<Rightarrow> ('db, 'w, response) handler" where
  "answer_page L R req name s =
     (case parse_range L (rq_query req) (repo_instance (store s)) of
        Inl e \<Rightarrow> ret (error_response (err_code e) (err_message e)) s
      | Inr r \<Rightarrow> andthen (on_store (scan_records R name r))
                  (\<lambda>pg s. ret (page_response L pg r (repo_instance (store s))) s) s)"

text \<open>A range that names no partition is always refused, so the error read there is one that is there.\<close>

lemma parse_range_unnamed: "read_partition L query = None \<Longrightarrow> \<exists>e. parse_range L query issuer = Inl e"
  by (simp add: parse_range_def)

definition router_scan_records :: "libs \<Rightarrow> 'db rocksdb \<Rightarrow> 'w net \<Rightarrow> request \<Rightarrow> string \<Rightarrow> ('db, 'w, response) handler" where
  "router_scan_records L R N req name s =
     (if \<not> rq_forwarded req \<and> is_alone (nodes s) then ret node_alone s
      else if \<not> has_table (store s) name then ret (table_not_found name) s
      else case read_partition L (rq_query req) of
             None \<Rightarrow>
               (case parse_range L (rq_query req) (repo_instance (store s)) of
                  Inl e \<Rightarrow> ret (error_response (err_code e) (err_message e)) s
                | Inr _ \<Rightarrow> undefined)
           | Some named \<Rightarrow>
               (let where_to = (if rq_forwarded req then no_placement else copies_of (nodes s) named);
                    whole = (\<not> is_short_of named s)
                in if pl_local where_to \<and> whole then answer_page L R req name s
                   else if pl_nodes where_to \<noteq> [] then router_read_record L N req where_to s
                   else if whole then answer_page L R req name s
                   else ret node_incomplete s))"

definition route_range :: "libs \<Rightarrow> 'db rocksdb \<Rightarrow> 'w net \<Rightarrow> request \<Rightarrow> string \<Rightarrow> ('db, 'w, response) handler" where
  "route_range L R N req name s =
     (if \<not> is_read (rq_method req) then ret (method_not_allowed (rq_method req)) s
      else router_scan_records L R N req name s)"

section \<open>The routes\<close>

definition no_path :: response where
  "no_path = no_route ''route for this path''"

definition route :: "libs \<Rightarrow> 'db rocksdb \<Rightarrow> 'w net \<Rightarrow> request \<Rightarrow> ('db, 'w, response) handler" where
  "route L R N req s =
     (let path = rq_path req
      in if length path = 1 \<and> path ! 0 = ''health'' then ret (route_health R N req s) s
         else if length path = 1 \<and> path ! 0 = ''schema''
         then (if rq_method req \<noteq> Verb_get then ret (method_not_allowed (rq_method req)) s
               else ret (json_response ok_200 (schema_to_json (read_schema (store s)))) s)
         else if path = [] \<or> path ! 0 \<noteq> ''table'' then ret no_path s
         else if length path = 1 then ret (route_tables req s) s
         else if length path = 2 then route_table L R N req (path ! 1) s
         else if length path = 3 \<and> path ! 2 = ''file'' then route_file L R req (path ! 1) s
         else if length path = 3 \<and> path ! 2 = ''split'' then route_split L R req (path ! 1) s
         else if path ! 2 \<noteq> ''key'' then ret no_path s
         else if length path = 3 then route_range L R N req (path ! 1) s
         else if length path \<noteq> 4 \<and> length path \<noteq> 5 then ret no_path s
         else let srt = (if length path = 5 then path ! 4 else [])
              in if rq_forwarded req then route_forwarded_record L R N req (path ! 1) (path ! 3) srt s
                 else route_record L R N req (path ! 1) (path ! 3) srt s)"

end
