(* ===== verification/Membership.thy ===== *)
theory Membership
  imports Etcd_Cluster
begin

text \<open>
  What the membership of a node guarantees through everything that happens to it: the terms it fences by
  never fall, what it says it holds is what it is asked for, and it vouches for a partition only where it
  held it without a break.
\<close>

unbundle bit_operations_syntax

section \<open>A fence of terms\<close>

text \<open>
  The contract of \<^verbatim>\<open>raise_term\<close>: a term is taken when it is no older than the one seen, and what is seen of
  its partition is then the later of the two. What follows from it for any sequence of orders is proved once.
\<close>

locale term_fence =
  fixes term_at :: "'s \<Rightarrow> nat \<Rightarrow> int"
    and raise :: "nat \<Rightarrow> int \<Rightarrow> 's \<Rightarrow> bool \<times> 's"
  assumes raise_taken: "fst (raise p t s) = (term_at s p \<le> t)"
    and raise_seen: "term_at (snd (raise p t s)) q = (if q = p then max t (term_at s p) else term_at s q)"
begin

lemma raise_mono: "term_at s q \<le> term_at (snd (raise p t s)) q"
  by (simp add: raise_seen)

lemma raises_seen:
  "distinct ps \<Longrightarrow> term_at (fold (\<lambda>p s. snd (raise p (f p) s)) ps s) q =
     (if q \<in> set ps then max (f q) (term_at s q) else term_at s q)"
proof (induction ps arbitrary: s)
  case (Cons p ps)
  then show ?case by (auto simp: raise_seen)
qed simp

lemma orders_mono: "term_at s q \<le> term_at (fold (\<lambda>(p, t) s. snd (raise p t s)) orders s) q"
proof (induction orders arbitrary: s)
  case (Cons o' orders)
  obtain p t where o: "o' = (p, t)" by fastforce
  show ?case using Cons.IH [of "snd (raise p t s)"] raise_mono [of s q p t] by (simp add: o)
qed simp

text \<open>An order that was taken is the last of its partition in an older term.\<close>

lemma taken_fences:
  "fst (raise p t s) \<Longrightarrow> u < t \<Longrightarrow> \<not> fst (raise p u (fold (\<lambda>(p, t) s. snd (raise p t s)) orders (snd (raise p t s))))"
  using orders_mono [of "snd (raise p t s)" p orders] by (simp add: raise_taken raise_seen)

end

interpretation fence: term_fence seen_terms raise_term
  by unfold_locales (auto simp: raise_term_def Let_def)

lemma raise_term_keeps [simp]:
  "configuration (snd (raise_term p t s)) = configuration s" "etcd_client (snd (raise_term p t s)) = etcd_client s"
  "member_list (snd (raise_term p t s)) = member_list s" "holding (snd (raise_term p t s)) = holding s"
  "held_since (snd (raise_term p t s)) = held_since s" "filled (snd (raise_term p t s)) = filled s"
  "members_generation (snd (raise_term p t s)) = members_generation s" "answered (snd (raise_term p t s)) = answered s"
  "leader_list (snd (raise_term p t s)) = leader_list s" "lease (snd (raise_term p t s)) = lease s"
  by (simp_all add: raise_term_def Let_def)

lemma restore_terms_keeps [simp]:
  "configuration (restore_terms ts s) = configuration s" "etcd_client (restore_terms ts s) = etcd_client s"
  "member_list (restore_terms ts s) = member_list s" "holding (restore_terms ts s) = holding s"
  "held_since (restore_terms ts s) = held_since s" "filled (restore_terms ts s) = filled s"
  "members_generation (restore_terms ts s) = members_generation s"
proof -
  have "configuration (fold (\<lambda>p s. snd (raise_term p (ts p) s)) ps s) = configuration s \<and>
      etcd_client (fold (\<lambda>p s. snd (raise_term p (ts p) s)) ps s) = etcd_client s \<and>
      member_list (fold (\<lambda>p s. snd (raise_term p (ts p) s)) ps s) = member_list s \<and>
      holding (fold (\<lambda>p s. snd (raise_term p (ts p) s)) ps s) = holding s \<and>
      held_since (fold (\<lambda>p s. snd (raise_term p (ts p) s)) ps s) = held_since s \<and>
      filled (fold (\<lambda>p s. snd (raise_term p (ts p) s)) ps s) = filled s \<and>
      members_generation (fold (\<lambda>p s. snd (raise_term p (ts p) s)) ps s) = members_generation s" for ps
    by (induction ps arbitrary: s) simp_all
  from this [of "[0..<partition_count]"] show
    "configuration (restore_terms ts s) = configuration s" "etcd_client (restore_terms ts s) = etcd_client s"
    "member_list (restore_terms ts s) = member_list s" "holding (restore_terms ts s) = holding s"
    "held_since (restore_terms ts s) = held_since s" "filled (restore_terms ts s) = filled s"
    "members_generation (restore_terms ts s) = members_generation s"
    by (simp_all add: restore_terms_def)
qed

lemma restore_terms_seen:
  "p < partition_count \<Longrightarrow> seen_terms (restore_terms ts s) p = max (ts p) (seen_terms s p)"
  using fence.raises_seen [of "[0..<partition_count]" ts s p] by (simp add: restore_terms_def)

section \<open>Every step a node's membership takes\<close>

text \<open>
  The operations that change the object, by the thread that runs the passes, the watcher, a request that
  asks for a leader or carries a term, a pass that vouches, and whatever else uses the network.
\<close>

inductive cluster_step :: "libs \<Rightarrow> 'w net \<Rightarrow> 'w etcd_cluster \<Rightarrow> 'w etcd_cluster \<Rightarrow> bool" for L N where
  "cluster_step L N s (start L N s)"
| "cluster_step L N s (snd (discover L N s))"
| "cluster_step L N s (leave L N s)"
| "cluster_step L N s (run_turn L N s)"
| "cluster_step L N s (watch_turn L N s)"
| "cluster_step L N s (vouch partitions since s)"
| "cluster_step L N s (snd (leader L N key s))"
| "cluster_step L N s (snd (accept key term s))"
| "cluster_step L N s (restore_terms applied s)"
| "cluster_step L N s (s\<lparr>etcd_client := (etcd_client s)\<lparr>wire := w\<rparr>\<rparr>)"

text \<open>As many of them as it may be, one after the other.\<close>

inductive cluster_steps :: "libs \<Rightarrow> 'w net \<Rightarrow> nat \<Rightarrow> 'w etcd_cluster \<Rightarrow> 'w etcd_cluster \<Rightarrow> bool" for L N where
  stays: "cluster_steps L N 0 s s"
| steps: "cluster_steps L N n s u \<Longrightarrow> cluster_step L N u v \<Longrightarrow> cluster_steps L N (Suc n) s v"

text \<open>
  A relation between the states before and after that is reflexive and transitive and that every assignment
  of the code is in, the operations made of them are in. What leaves the membership alone comes first.
\<close>

locale quiet_steps =
  fixes Q :: "'w etcd_cluster \<Rightarrow> 'w etcd_cluster \<Rightarrow> bool"
  assumes refl: "Q s s"
    and trans: "Q s t \<Longrightarrow> Q t u \<Longrightarrow> Q s u"
    and of_client: "endpoints c = endpoints (etcd_client s) \<Longrightarrow> (etcd_ok (etcd_client s) \<Longrightarrow> etcd_ok c) \<Longrightarrow>
      Q s (s\<lparr>etcd_client := c\<rparr>)"
    and of_raise: "Q s (snd (raise_term p i s))"
    and of_answered: "Q s (s\<lparr>answered := b\<rparr>)"
    and of_lease: "Q s (s\<lparr>lease := i\<rparr>)"
    and of_registrations: "Q s (s\<lparr>registrations := n\<rparr>)"
    and of_leader_list: "Q s (s\<lparr>leader_list := l\<rparr>)"
    and of_unled: "Q s (s\<lparr>unled_since := i\<rparr>)"
    and of_releasing: "Q s (s\<lparr>releasing := r\<rparr>)"
    and of_running: "Q s (s\<lparr>running := b\<rparr>)"
    and of_changed: "Q s (s\<lparr>changed := b\<rparr>)"
begin

lemma on_client_in: "client_keeps f \<Longrightarrow> Q s (snd (on_client f s))"
  by (simp add: on_client_def client_keeps_def Let_def case_prod_unfold of_client)

lemma on_clientD: "on_client f s = (a, t) \<Longrightarrow> client_keeps f \<Longrightarrow> Q s t"
  using on_client_in [of f s] by simp

lemma stand_unled_in: "Q s (stand_unled N b s)"
  by (simp add: stand_unled_def refl of_unled)

lemma accept_in: "Q s (snd (accept key t s))"
  by (simp add: accept_def refl of_raise)

lemma restore_in: "Q s (restore_terms ts s)"
proof -
  have "Q s (fold (\<lambda>p s. snd (raise_term p (ts p) s)) ps s)" for ps
    by (induction ps arbitrary: s) (auto intro: refl trans [OF of_raise])
  then show ?thesis by (simp add: restore_terms_def)
qed

lemma take_claim_in: "Q s (snd (take_claim p c s))"
  by (simp add: take_claim_def Let_def refl of_raise)

lemma claim_unclaimed_in: "Q s (snd (claim_unclaimed L N p s))"
proof -
  define c where "c = configuration s"
  obtain claimed t where run: "on_client (etcd_create L N (claim_key c p) (cf_node c) (lease s)) s = (claimed, t)"
    by fastforce
  then have "Q s t" by (rule on_clientD) simp
  moreover have "Q t (snd (take_claim p cl t)\<lparr>leader_list := m\<rparr>)" for cl m
    by (rule trans [OF take_claim_in of_leader_list])
  ultimately show ?thesis
    using run by (auto simp: claim_unclaimed_def c_def Let_def case_prod_unfold refl intro: trans split: option.split)
qed

lemma leader_in: "Q s (snd (leader L N key s))"
proof -
  define k where "k = claim_key (configuration s) (partition_of key)"
  obtain claims t where run: "on_client (etcd_get L N k) s = (claims, t)"
    by fastforce
  then have "Q s t" by (rule on_clientD) simp
  then show ?thesis
    using run trans [OF \<open>Q s t\<close> claim_unclaimed_in [of t L N "partition_of key"]]
    by (simp add: leader_def k_def Let_def refl split: option.split)
qed

lemma register_in: "Q s (snd (register_node L N s))"
proof -
  define c where "c = configuration s"
  obtain granted t where run: "on_client (grant_lease L N (cf_lease_seconds c)) s = (granted, t)" by fastforce
  then have st: "Q s t" by (rule on_clientD) simp
  show ?thesis
  proof (cases granted)
    case None
    then show ?thesis using run trans [OF st of_lease] by (simp add: register_node_def c_def Let_def)
  next
    case (Some l)
    obtain written u where put: "on_client (etcd_put L N (cf_prefix c @ cf_node c) (registration_document L c) l)
        (t\<lparr>lease := l\<rparr>) = (written, u)"
      by fastforce
    then have "Q (t\<lparr>lease := l\<rparr>) u" by (rule on_clientD) simp
    then have "Q s u" by (blast intro: trans st of_lease)
    then show ?thesis
      using run Some put trans [OF \<open>Q s u\<close> of_registrations] by (simp add: register_node_def c_def Let_def)
  qed
qed

lemma read_held_in: "Q s (snd (read_held L N at p holder r s))"
proof -
  define c where "c = configuration s"
  obtain removed t where run: "on_client (etcd_remove L N (claim_key c p) (cf_node c)) s = (removed, t)" by fastforce
  then have "Q s t" by (rule on_clientD) simp
  then show ?thesis using run by (simp add: read_held_def c_def Let_def refl split: option.split)
qed

lemma read_unheld_in: "Q s (snd (read_unheld L N p r s))"
proof -
  define c where "c = configuration s"
  obtain claimed t where run: "on_client (etcd_create L N (claim_key c p) (cf_node c) (lease s)) s = (claimed, t)"
    by fastforce
  then have st: "Q s t" by (rule on_clientD) simp
  then show ?thesis
    using run trans [OF st take_claim_in] by (simp add: read_unheld_def c_def Let_def refl case_prod_unfold split: option.split)
qed

lemma read_partitions_in: "Q s (snd (read_partitions L N at claims ps r s))"
proof (induction ps arbitrary: r s)
  case (Cons p ps)
  show ?case
    using trans [OF read_held_in Cons.IH] trans [OF read_unheld_in Cons.IH]
    by (simp add: Let_def case_prod_unfold split: option.split)
qed (simp add: refl)

lemma read_leaders_in: "Q s (read_leaders L N s)"
proof -
  obtain claims t where run: "on_client (etcd_range L N (cf_leader_prefix (configuration s))) s = (claims, t)" by fastforce
  then have st: "Q s t" by (rule on_clientD) simp
  have "Q t ((snd (read_partitions L N at cs ps r t))\<lparr>releasing := rl, leader_list := ll\<rparr>)" for at cs ps r rl ll
    by (rule trans [OF trans [OF read_partitions_in of_releasing] of_leader_list])
  then show ?thesis
    using run trans [OF st of_leader_list] trans [OF st]
    by (simp add: read_leaders_def Let_def refl case_prod_unfold split: option.split)
qed

lemma leave_in: "Q s (leave L N s)"
proof -
  let ?s = "s\<lparr>running := False\<rparr>"
  have a: "Q s (?s\<lparr>lease := 0\<rparr>)" by (rule trans [OF of_running of_lease])
  have b: "Q s ((snd (on_client (revoke L N i) ?s))\<lparr>lease := 0\<rparr>)" for i
    by (rule trans [OF trans [OF of_running on_client_in] of_lease]) simp
  show ?thesis unfolding leave_def Let_def using a b by (simp add: refl)
qed

lemma watch_turn_in: "Q s (watch_turn L N s)"
proof -
  obtain calls t where run: "on_client (etcd_watch L N
      (common_prefix (cf_prefix (configuration s)) (cf_leader_prefix (configuration s)))) s = (calls, t)"
    by fastforce
  then have st: "Q s t" by (rule on_clientD) simp
  show ?thesis using run st trans [OF st of_changed] by (simp add: watch_turn_def Let_def refl)
qed

end

text \<open>And what replaces the membership or vouches for a part of it.\<close>

locale membership_steps = quiet_steps Q for Q :: "'w etcd_cluster \<Rightarrow> 'w etcd_cluster \<Rightarrow> bool" +
  assumes of_replace: "Q s (replace_members names s)"
    and of_vouch: "Q s (vouch ps since s)"
begin

lemma read_members_in: "Q s (read_members L N s)"
proof -
  obtain registered t where run: "on_client (etcd_range L N (cf_prefix (configuration s))) s = (registered, t)" by fastforce
  then have st: "Q s t" by (rule on_clientD) simp
  have kept: "Q t (stand_unled N True (t\<lparr>answered := False\<rparr>))" by (rule trans [OF of_answered stand_unled_in])
  have "Q t ((replace_members names (stand_unled N b t))\<lparr>answered := True\<rparr>)" for names b
    by (rule trans [OF trans [OF stand_unled_in of_replace] of_answered])
  then show ?thesis
    using run trans [OF st] kept trans [OF kept of_replace]
    by (simp add: read_members_def Let_def split: option.split)
qed

lemma refresh_in: "Q s (refresh L N s)"
proof -
  define r where "r = (if lease s = 0 then (False, s) else on_client (keep_alive L N (lease s)) s)"
  obtain alive t where run: "r = (alive, t)" by fastforce
  have "Q s (snd r)" by (simp add: r_def refl on_client_in)
  then have st: "Q s t" by (simp add: run)
  have "Q s (if alive then t else snd (register_node L N t))"
    using st trans [OF st register_in] by simp
  from trans [OF this trans [OF read_members_in read_leaders_in]] show ?thesis
    by (simp add: refresh_def run [unfolded r_def] Let_def)
qed

lemma start_in: "Q s (start L N s)"
  using trans [OF refresh_in of_running] by (simp add: start_def refl)

lemma discover_in: "Q s (snd (discover L N s))"
  by (simp add: discover_def refl read_members_in)

lemma run_turn_in: "Q s (run_turn L N s)"
  using trans [OF of_changed refresh_in] by (simp add: run_turn_def refl)

lemma step_in: "cluster_step L N s t \<Longrightarrow> Q s t"
proof (induction rule: cluster_step.induct)
  case (10 s w)
  show ?case by (rule of_client) (simp_all add: etcd_ok_def)
qed (simp_all add: start_in discover_in leave_in run_turn_in watch_turn_in of_vouch leader_in accept_in restore_in)

lemma steps_in: "cluster_steps L N n s t \<Longrightarrow> Q s t"
  by (induction rule: cluster_steps.induct) (auto intro: refl trans step_in)

end

section \<open>The fence never falls\<close>

interpretation terms_rise: membership_steps "\<lambda>s s'. \<forall>p. seen_terms s p \<le> seen_terms s' p"
  by unfold_locales (auto simp: fence.raise_mono replace_members_def vouch_def Let_def intro: order_trans)

text \<open>
  C11. Once a node has taken an order of a leader, it refuses every order for a key of the same partition in
  an older term, whatever the node did in between, and refusing one changes nothing.
\<close>

theorem older_terms_stay_refused:
  assumes "fst (accept key t s)" and "cluster_steps L N n (snd (accept key t s)) s'"
    and "partition_of other = partition_of key" and "u < t" and "u \<noteq> 0" and "t \<noteq> 0"
  shows "accept other u s' = (False, s')"
proof -
  have "t \<le> seen_terms (snd (accept key t s)) (partition_of key)"
    using assms(6) fence.raise_seen [of "partition_of key" t s "partition_of key"] by (simp add: accept_def)
  also have "\<dots> \<le> seen_terms s' (partition_of key)"
    using terms_rise.steps_in [OF assms(2)] by simp
  finally show ?thesis using assms(3-5) by (simp add: accept_def raise_term_def)
qed

definition quiet_net :: "unit net" where
  "quiet_net =
     \<lparr>net_send = (\<lambda>q t w. (Inl ''refused'', w)), net_send_all = (\<lambda>qs t w. (map (\<lambda>_. Inl ''refused'') qs, w)),
      net_stream = (\<lambda>q w. ([], w)), net_now = (\<lambda>w. 0)\<rparr>"

definition example_cluster :: "unit etcd_cluster" where
  "example_cluster =
     etcd_cluster_of quiet_net (default_config\<lparr>cf_endpoints := [''etcd''], cf_node := ''n1'', cf_zone := ''z1''\<rparr>) ()"

theorem older_terms_stay_refused_witness:
  "accept ''k'' 3 (vouch 1 0 (snd (accept ''k'' 7 example_cluster))) =
     (False, vouch 1 0 (snd (accept ''k'' 7 example_cluster)))"
proof -
  have "fst (accept ''k'' 7 example_cluster)"
    by (simp add: accept_def raise_term_def example_cluster_def etcd_cluster_of_def Let_def)
  moreover have "cluster_steps (example_libs Jnull) quiet_net (Suc 0) (snd (accept ''k'' 7 example_cluster))
      (vouch 1 0 (snd (accept ''k'' 7 example_cluster)))"
    by (rule cluster_steps.steps [OF cluster_steps.stays cluster_step.intros(6)])
  ultimately show ?thesis
    by (rule older_terms_stay_refused) simp_all
qed

section \<open>What a node holds\<close>

lemma fold_place_local:
  "pl_local (fold (place_owner c) owners wh) = (pl_local wh \<or> (\<exists>owner \<in> set owners. m_node owner = cf_node c))"
  by (induction owners arbitrary: wh) (auto simp: place_owner_def)

lemma hold_owned_has:
  assumes "p < partition_count"
  shows "has (hold_owned c registered p owned) q =
     (has owned q \<or> q = p \<and> (\<exists>owner \<in> set (owners_of (partition_name p) registered). m_node owner = cf_node c))"
proof -
  have "has (fold (\<lambda>owner owned. if m_node owner = cf_node c then set_bit p owned else owned) owners owned) q =
      (has owned q \<or> q = p \<and> (\<exists>owner \<in> set owners. m_node owner = cf_node c))" for owners
    using assms by (induction owners arbitrary: owned) (auto simp: bit_set_bit_256)
  then show ?thesis by (simp add: hold_owned_def)
qed

lemma fold_hold_owned:
  "n \<le> partition_count \<Longrightarrow> has (fold (hold_owned c registered) [0..<n] owned) q =
     (has owned q \<or> q < n \<and> (\<exists>owner \<in> set (owners_of (partition_name q) registered). m_node owner = cf_node c))"
  by (induction n) (auto simp: hold_owned_has less_Suc_eq)

lemma holdings_of_local:
  assumes "p < partition_count"
  shows "has (holdings_of (configuration s) (member_list s)) p = pl_local (copies_of s p)"
  using assms
  by (auto simp: holdings_of_def copies_of_def fold_hold_owned fold_place_local no_placement_def partition_count_def)

definition membership_ok :: "'w etcd_cluster \<Rightarrow> bool" where
  "membership_ok s =
     (holding s = holdings_of (configuration s) (member_list s) \<and> filled s AND holding s = filled s \<and>
      endpoints (etcd_client s) = cf_endpoints (configuration s) \<and> etcd_ok (etcd_client s))"

lemma fold_vouch_has:
  "n \<le> partition_count \<Longrightarrow> has (fold (\<lambda>p f. if C p then set_bit p f else f) [0..<n] f) q = (has f q \<or> q < n \<and> C q)"
  by (induction n) (auto simp: bit_set_bit_256 less_Suc_eq)

lemma vouch_has:
  "has (filled (vouch ps since s)) q =
     (has (filled s) q \<or> q < partition_count \<and> has ps q \<and> has (holding s) q \<and> held_since s q \<le> since)"
  by (simp add: vouch_def fold_vouch_has)

lemma vouch_within: "filled s AND holding s = filled s \<Longrightarrow> filled (vouch ps since s) AND holding s = filled (vouch ps since s)"
proof (rule bit_word_eqI)
  fix q assume within: "filled s AND holding s = filled s"
  then have "has (filled s) q \<Longrightarrow> has (holding s) q" by (metis bit_and_iff)
  then show "has (filled (vouch ps since s) AND holding s) q = has (filled (vouch ps since s)) q"
    by (auto simp: vouch_has bit_and_iff)
qed

interpretation stays_ok: membership_steps "\<lambda>s s'. membership_ok s \<longrightarrow> membership_ok s'"
proof (unfold_locales, goal_cases)
  case (14 s ps since)
  have "holding (vouch ps since s) = holding s" "configuration (vouch ps since s) = configuration s"
    "member_list (vouch ps since s) = member_list s" "etcd_client (vouch ps since s) = etcd_client s"
    by (simp_all add: vouch_def)
  then show ?case using vouch_within [of s ps since] unfolding membership_ok_def by metis
qed (auto simp: membership_ok_def replace_members_def Let_def ac_simps)

lemma membership_ok_start: "membership_ok (etcd_cluster_of N c w)"
  by (simp add: membership_ok_def etcd_cluster_of_def holdings_of_def etcd_ok_def)

text \<open>
  C12. In every state a node's membership can come to, the partitions the node says it holds are exactly
  those of which the membership names it as a copy, the one question asked of the keys it is sent and the
  other of the records it fills and clears; and it vouches for no partition it does not hold.
\<close>

theorem holdings_are_the_local_copies:
  assumes "cluster_steps L N n (etcd_cluster_of N c w) s" and "p < partition_count"
  shows "has (holdings s) p = pl_local (copies_of s p) \<and> (has (vouched s) p \<longrightarrow> pl_local (copies_of s p))"
proof -
  have ok: "membership_ok s" using stays_ok.steps_in [OF assms(1)] by (simp add: membership_ok_start)
  then have h: "has (holding s) p = pl_local (copies_of s p)"
    using holdings_of_local [OF assms(2), of s] by (simp add: membership_ok_def)
  moreover have "has (filled s) p \<Longrightarrow> has (holding s) p"
    using ok unfolding membership_ok_def by (metis bit_and_iff)
  ultimately show ?thesis by (auto simp: holdings_def vouched_def)
qed

theorem holdings_are_the_local_copies_witness:
  "has (holdings (run_turn (example_libs Jnull) quiet_net example_cluster)) 7 =
     pl_local (copies_of (run_turn (example_libs Jnull) quiet_net example_cluster) 7)"
proof -
  have "cluster_steps (example_libs Jnull) quiet_net (Suc 0) example_cluster
      (run_turn (example_libs Jnull) quiet_net example_cluster)"
    by (rule cluster_steps.steps [OF cluster_steps.stays cluster_step.intros(4)])
  then show ?thesis
    unfolding example_cluster_def
    by (rule holdings_are_the_local_copies [THEN conjunct1]) (simp add: partition_count_def)
qed

section \<open>A partition that was lost is not vouched for by what was filled before\<close>

text \<open>The part of the object that says what is held, and that only a pass that replaces the membership changes.\<close>

definition share_of :: "'w etcd_cluster \<Rightarrow> config \<times> member list \<times> uint64 \<times> partition_set \<times> (nat \<Rightarrow> uint64) \<times> partition_set" where
  "share_of s = (configuration s, member_list s, members_generation s, holding s, held_since s, filled s)"

interpretation same_share: quiet_steps "\<lambda>s s'. share_of s' = share_of s"
  by unfold_locales (auto simp: share_of_def)

definition share_moves :: "'w etcd_cluster \<Rightarrow> 'w etcd_cluster \<Rightarrow> bool" where
  "share_moves s t =
     (share_of t = share_of s \<or> (\<exists>names. share_of t = share_of (replace_members names s)) \<or>
      (\<exists>ps since. share_of t = share_of (vouch ps since s)))"

lemma replace_members_share:
  "share_of s = share_of t \<Longrightarrow> share_of (replace_members names s) = share_of (replace_members names t)"
  by (simp add: share_of_def replace_members_def Let_def)

lemma read_members_moves:
  "share_of (read_members L N s) = share_of s \<or> (\<exists>names. share_of (read_members L N s) = share_of (replace_members names s))"
proof -
  obtain registered t where run: "on_client (etcd_range L N (cf_prefix (configuration s))) s = (registered, t)" by fastforce
  then have st: "share_of t = share_of s" by (rule same_share.on_clientD) simp
  define u where "u = stand_unled N True (t\<lparr>answered := False\<rparr>)"
  have u: "share_of u = share_of s"
    unfolding u_def same_share.stand_unled_in by (simp add: same_share.of_answered st)
  have v: "share_of (stand_unled N b t) = share_of s" for b
    by (simp add: same_share.stand_unled_in st)
  show ?thesis
  proof (cases registered)
    case None
    then have "read_members L N s =
        (if member_list u = [] then replace_members [member_of (cf_node (configuration s)) (cf_zone (configuration s))] u else u)"
      using run by (simp add: read_members_def Let_def u_def)
    with u replace_members_share [OF u] show ?thesis by (simp split: if_split) metis
  next
    case (Some claims)
    define names where "names = read_names L (configuration s) claims"
    have "share_of (read_members L N s) = share_of (replace_members names (stand_unled N (length names < 2) t))"
      using run Some by (simp add: read_members_def Let_def names_def same_share.of_answered)
    with replace_members_share [OF v] show ?thesis by auto
  qed
qed

lemma refresh_moves:
  "share_of (refresh L N s) = share_of s \<or> (\<exists>names. share_of (refresh L N s) = share_of (replace_members names s))"
proof -
  define r where "r = (if lease s = 0 then (False, s) else on_client (keep_alive L N (lease s)) s)"
  obtain alive t where run: "r = (alive, t)" by fastforce
  define u where "u = (if alive then t else snd (register_node L N t))"
  have "share_of (snd r) = share_of s" by (simp add: r_def same_share.on_client_in)
  then have us: "share_of u = share_of s"
    using same_share.register_in [of L N t] by (simp add: run u_def)
  have "refresh L N s = read_leaders L N (read_members L N u)"
    by (simp add: refresh_def run [unfolded r_def] u_def Let_def)
  then have "share_of (refresh L N s) = share_of (read_members L N u)"
    using same_share.read_leaders_in [of L N "read_members L N u"] by simp
  with read_members_moves [of L N u] us replace_members_share [OF us] show ?thesis by metis
qed

lemma step_moves: "cluster_step L N s t \<Longrightarrow> share_moves s t"
proof (induction rule: cluster_step.induct)
  case (1 s)
  show ?case using refresh_moves [of L N s] same_share.of_running [where s = "refresh L N s" and b = True]
    by (auto simp: start_def share_moves_def)
next
  case (2 s)
  show ?case using read_members_moves [of L N s] by (auto simp: discover_def share_moves_def)
next
  case (4 s)
  have "share_of (s\<lparr>changed := False\<rparr>) = share_of s" by (rule same_share.of_changed)
  then show ?case
    using refresh_moves [of L N "s\<lparr>changed := False\<rparr>"] replace_members_share [of "s\<lparr>changed := False\<rparr>" s]
    by (auto simp: run_turn_def share_moves_def)
next
  case (10 s w)
  show ?case by (simp add: share_moves_def share_of_def)
qed (auto simp: share_moves_def same_share.leave_in same_share.watch_turn_in same_share.leader_in same_share.accept_in
    same_share.restore_in)

lemma fold_gained:
  "fold (\<lambda>p since. if C p then since(p := g) else since) [0..<n] f q = (if q < n \<and> C q then g else f q)"
  by (induction n) (auto simp: less_Suc_eq)

text \<open>One step: the generation rises by at most one, and a partition gained is held since the generation it was gained in.\<close>

lemma move_generation:
  assumes "share_moves s t" and "unat (members_generation s) + 1 < 2 ^ 64"
  shows "members_generation s \<le> members_generation t"
    and "unat (members_generation t) \<le> unat (members_generation s) + 1"
    and "has (holding t) p \<Longrightarrow> has (holding s) p \<and> held_since t p = held_since s p \<or> members_generation s < held_since t p"
proof -
  have gen: "unat (members_generation s + 1) = unat (members_generation s) + 1"
    using assms(2) by (simp add: unat_plus_simple [THEN iffD1] unat_word_ariths)
  then have less: "members_generation s < members_generation s + 1" by (simp add: word_less_nat_alt)
  have in_range: "has ps q \<Longrightarrow> q < partition_count" for ps :: partition_set and q
    using bit_imp_le_length [of ps q] by (simp add: partition_count_def)
  from assms(1) consider
    (same) "share_of t = share_of s" |
    (replaced) names where "share_of t = share_of (replace_members names s)" |
    (vouched) ps since where "share_of t = share_of (vouch ps since s)"
    unfolding share_moves_def by blast
  then have "members_generation s \<le> members_generation t \<and>
      unat (members_generation t) \<le> unat (members_generation s) + 1 \<and>
      (has (holding t) p \<longrightarrow> has (holding s) p \<and> held_since t p = held_since s p \<or> members_generation s < held_since t p)"
  proof cases
    case same
    then show ?thesis by (auto simp: share_of_def)
  next
    case (replaced names)
    then show ?thesis
      using gen less in_range [of _ p] by (auto simp: share_of_def replace_members_def Let_def fold_gained)
  next
    case (vouched ps since)
    then show ?thesis by (auto simp: share_of_def vouch_def)
  qed
  then show "members_generation s \<le> members_generation t"
    and "unat (members_generation t) \<le> unat (members_generation s) + 1"
    and "has (holding t) p \<Longrightarrow> has (holding s) p \<and> held_since t p = held_since s p \<or> members_generation s < held_since t p"
    by blast+
qed

lemma steps_generation:
  "cluster_steps L N n s t \<Longrightarrow> unat (members_generation s) + n < 2 ^ 64 \<Longrightarrow>
     members_generation s \<le> members_generation t \<and> unat (members_generation t) \<le> unat (members_generation s) + n"
proof (induction rule: cluster_steps.induct)
  case (steps n s u v)
  then have "members_generation s \<le> members_generation u" "unat (members_generation u) \<le> unat (members_generation s) + n"
    by simp_all
  moreover have "members_generation u \<le> members_generation v"
    "unat (members_generation v) \<le> unat (members_generation u) + 1"
    using move_generation [OF step_moves [OF steps.hyps(2)]] calculation steps.prems by simp_all
  ultimately show ?case by (auto intro: order_trans)
qed simp

lemma regained_later:
  assumes "cluster_steps L N m s t" and "\<not> has (holding s) p" and "g \<le> members_generation s"
    and "unat (members_generation s) + m < 2 ^ 64" and "has (holding t) p"
  shows "g < held_since t p"
  using assms
proof (induction rule: cluster_steps.induct)
  case (steps m s u v)
  have gen: "members_generation s \<le> members_generation u" "unat (members_generation u) \<le> unat (members_generation s) + m"
    using steps_generation [OF steps.hyps(1)] steps.prems by simp_all
  from move_generation(3) [OF step_moves [OF steps.hyps(2)], of p] gen steps.prems
  consider "has (holding u) p" "held_since v p = held_since u p" | "members_generation u < held_since v p" by auto
  then show ?case
  proof cases
    case 1
    then show ?thesis using steps.IH steps.prems by simp
  next
    case 2
    then show ?thesis using gen(1) steps.prems(2) by (meson le_less_trans order_trans)
  qed
qed simp

text \<open>
  C9. A pass reads the generation, fills the partitions the node holds, and vouches for them at the
  generation it read. If the membership took a partition away in between, the vouch does not cover it, even
  where the node has it back by then: the writes it missed while another node held the partition are never
  taken for absent. The generation is a 64 bit number, and the steps are fewer than it has room for.
\<close>

theorem a_lost_partition_is_not_vouched_for:
  assumes "cluster_steps L N n s s1" and "\<not> has (holdings s1) p" and "cluster_steps L N m s1 s2"
    and "unat (generation s) + n + m < 2 ^ 64"
  shows "has (vouched (vouch ps (generation s) s2)) p = has (vouched s2) p"
proof -
  have gen: "members_generation s \<le> members_generation s1" "unat (members_generation s1) \<le> unat (members_generation s) + n"
    using steps_generation [OF assms(1)] assms(4) by (simp_all add: generation_def)
  have "has (holding s2) p \<Longrightarrow> members_generation s < held_since s2 p"
    using regained_later [OF assms(3), of p "members_generation s"] assms(2,4) gen
    by (simp add: holdings_def generation_def)
  then show ?thesis by (auto simp: vouched_def vouch_has generation_def not_le)
qed

text \<open>A node that stands alone since its second generation, having lost everything in its first.\<close>

definition lost_all :: "unit etcd_cluster" where
  "lost_all = example_cluster\<lparr>members_generation := 1, holding := 0\<rparr>"

definition regained :: "unit etcd_cluster" where
  "regained = snd (discover (example_libs Jnull) quiet_net lost_all)"

theorem a_lost_partition_is_not_vouched_for_witness:
  "has (vouched (vouch (- 1) (generation lost_all) regained)) 7 = has (vouched regained) 7 \<and> has (holdings regained) 7"
proof
  have one: "cluster_steps (example_libs Jnull) quiet_net (Suc 0) lost_all regained"
    unfolding regained_def by (rule cluster_steps.steps [OF cluster_steps.stays cluster_step.intros(2)])
  have lost: "\<not> has (holdings lost_all) 7" and few: "unat (generation lost_all) + 0 + Suc 0 < 2 ^ 64"
    by (simp_all add: generation_def holdings_def lost_all_def)
  show "has (vouched (vouch (- 1) (generation lost_all) regained)) 7 = has (vouched regained) 7"
    by (rule a_lost_partition_is_not_vouched_for [OF cluster_steps.stays lost one few])
  show "has (holdings regained) 7"
    by (simp add: holdings_def regained_def discover_def lost_all_def example_cluster_def etcd_cluster_of_def
        default_config_def is_clustered_def read_members_def on_client_def etcd_range_def etcd_read_def call_def
        quiet_net_def stand_unled_def replace_members_def holdings_of_def Let_def)
qed

end
