(* ===== verification/Memory_Store.thy ===== *)
theory Memory_Store
  imports Rocksdb
begin

text \<open>
  A RocksDB that keeps its families in memory, to show that \<open>rocksdb_laws\<close> can be kept and to run the
  repository on in the witnesses. It is an instance of the parameter and models nothing of the repository.
\<close>

type_synonym mem_db = "(string, entries) smap"

definition in_order :: "entries \<Rightarrow> entries" where
  "in_order m = foldr (\<lambda>(k, v). map_put k v) m []"

fun mem_op :: "batch_op \<Rightarrow> mem_db \<Rightarrow> mem_db" where
  "mem_op (Batch_put fam k v) db =
     (case map_of db fam of None \<Rightarrow> db | Some m \<Rightarrow> map_put fam (map_put k v m) db)"
| "mem_op (Batch_delete fam k) db =
     (case map_of db fam of None \<Rightarrow> db | Some m \<Rightarrow> map_put fam (map_erase k m) db)"

definition frame :: "string \<Rightarrow> string" where
  "frame s = concat (map (\<lambda>c. [CHR 0x01, c]) s) @ [CHR 0x00]"

fun frames :: "string \<Rightarrow> string list" where
  "frames [] = []"
| "frames [a] = (if a = CHR 0x00 then [[]] else [])"
| "frames (a # c # rest) =
     (if a = CHR 0x00 then [] # frames (c # rest)
      else case frames rest of [] \<Rightarrow> [[c]] | f # fs \<Rightarrow> (c # f) # fs)"

fun pairs :: "string list \<Rightarrow> entries" where
  "pairs (k # v # rest) = (k, v) # pairs rest"
| "pairs _ = []"

definition mem_encode :: "entries \<Rightarrow> string" where
  "mem_encode kvs = CHR ''F'' # concat (map (\<lambda>(k, v). frame k @ frame v) kvs)"

definition mem_contents :: "string \<Rightarrow> entries" where
  "mem_contents file = in_order (pairs (frames (tl file)))"

definition mem_rocksdb :: "mem_db rocksdb" where
  "mem_rocksdb =
     \<lparr>status_text = (\<lambda>_. ''status''),
      rdb_get = (\<lambda>db fam k. case map_of db fam of
          None \<Rightarrow> (Not_found_status, [])
        | Some m \<Rightarrow> (case map_of m k of None \<Rightarrow> (Not_found_status, []) | Some v \<Rightarrow> (Ok_status, v))),
      rdb_put = (\<lambda>db fam k v. (Ok_status, mem_op (Batch_put fam k v) db)),
      rdb_batch_put = (\<lambda>_ _. Ok_status),
      rdb_write = (\<lambda>db ops. (Ok_status, fold mem_op ops db)),
      rdb_create_family = (\<lambda>db fam. (Ok_status, map_put fam [] db)),
      rdb_drop_family = (\<lambda>db fam. (Ok_status, map_erase fam db)),
      rdb_iterate = (\<lambda>db fam lo hi backwards. case map_of db fam of
          None \<Rightarrow> ([], Failed_status ''no family'')
        | Some m \<Rightarrow>
            (let kvs = filter (\<lambda>(k, v). lo \<le> k \<and> k < hi) (in_order m)
             in (if backwards then rev kvs else kvs, Ok_status))),
      rdb_metadata = (\<lambda>_ _. []),
      rdb_ingest = (\<lambda>db fam file. case map_of db fam of
          None \<Rightarrow> (Failed_status ''no family'', db)
        | Some m \<Rightarrow> (Ok_status, map_put fam (mem_contents file @ m) db)),
      rdb_resume = (\<lambda>db. db),
      rdb_write_stopped = (\<lambda>_. 0),
      rdb_delayed_rate = (\<lambda>_. 0),
      rdb_list_families = (\<lambda>db. map fst db),
      rdb_open = (\<lambda>db _. if db = [] then (Ok_status, [(''default'', [])])
        else if ''default'' \<in> fst ` set db then (Ok_status, db) else (Failed_status ''no default'', db)),
      sst_open = (\<lambda>_ _. Ok_status),
      sst_put = (\<lambda>_ _ _. Ok_status),
      sst_finish = (\<lambda>_ kvs. (Ok_status, mem_encode kvs)),
      file_write = (\<lambda>_ _ _. True),
      sst_reader_open = (\<lambda>_ _. Ok_status),
      sst_read = (\<lambda>_ file. (mem_contents file, Ok_status))\<rparr>"

definition mem_view :: "mem_db \<Rightarrow> store_view" where
  "mem_view db fam = map_option map_of (map_of db fam)"

lemma map_of_in_order [simp]: "map_of (in_order m) = map_of m"
  by (induction m) (auto simp: in_order_def)

lemma ascending_in_order [simp]: "ascending (in_order m)"
  unfolding ascending_def by (induction m) (auto simp: in_order_def split: prod.splits)

lemma in_order_ascending: "ascending m \<Longrightarrow> in_order m = m"
  using ascending_in_order [of m] unfolding ascending_def by (intro map_ok_unique) simp_all

lemma in_order_iff: "((k, v) \<in> set (in_order m)) = (map_of m k = Some v)"
  using ascending_map_of [OF ascending_in_order, of m k v] by simp

lemma frames_frame [simp]: "frames (frame s @ t) = s # frames t"
proof (induction s)
  case Nil
  then show ?case by (cases t) (simp_all add: frame_def)
next
  case (Cons c s)
  then show ?case by (simp add: frame_def)
qed

lemma pairs_frames [simp]: "pairs (frames (concat (map (\<lambda>(k, v). frame k @ frame v) kvs))) = kvs"
  by (induction kvs) auto

lemma mem_view_put: "mem_view (map_put fam m db) = (mem_view db)(fam \<mapsto> map_of m)"
  by (auto simp: mem_view_def)

lemma mem_view_op [simp]: "mem_view (mem_op op db) = apply_op op (mem_view db)"
  by (cases op) (auto simp: mem_view_def apply_op.simps mem_view_put split: option.splits)

lemma mem_view_ops [simp]: "mem_view (fold mem_op ops db) = apply_batch ops (mem_view db)"
  by (induction ops arbitrary: db) simp_all

lemma mem_view_dom: "dom (mem_view db) = fst ` set db"
  by (force simp: mem_view_def dom_map_of_conv_image_fst [symmetric])

text \<open>The laws can be kept, and this store keeps them.\<close>

lemma mem_rocksdb_laws: "rocksdb_laws mem_rocksdb mem_view mem_contents"
proof -
  let ?R = mem_rocksdb
  have "law_get ?R mem_view"
    by (auto simp: law_get_def mem_rocksdb_def mem_view_def split: option.splits)
  moreover have "law_put ?R mem_view" and "law_write ?R mem_view"
    by (auto simp: law_put_def law_write_def mem_rocksdb_def simp del: mem_op.simps)
  moreover have "law_families ?R mem_view"
    by (auto simp: law_families_def mem_rocksdb_def mem_view_put) (auto simp: mem_view_def)
  moreover have "law_iterate ?R mem_view"
    by (auto simp: law_iterate_def mem_rocksdb_def mem_view_def in_order_iff Let_def
        ascending_filter intro!: exI [of _ "[]"] split: option.splits)
  moreover have "law_files ?R mem_view mem_contents"
    by (auto simp: law_files_def mem_rocksdb_def mem_view_put mem_contents_def mem_encode_def in_order_ascending
        split: option.splits) (auto simp: mem_view_def)
  moreover have "law_resume ?R mem_view"
    by (simp add: law_resume_def mem_rocksdb_def)
  moreover have "law_open ?R mem_view"
    by (auto simp: law_open_def mem_rocksdb_def mem_view_dom split: if_splits) (auto simp: mem_view_def)
  ultimately show ?thesis by (simp add: rocksdb_laws_def)
qed

text \<open>None of its calls fails on a family it has.\<close>

lemma mem_ops [simp]:
  "rdb_put mem_rocksdb db fam k v = (Ok_status, mem_op (Batch_put fam k v) db)"
  "rdb_batch_put mem_rocksdb ops op = Ok_status"
  "rdb_write mem_rocksdb db ops = (Ok_status, fold mem_op ops db)"
  "rdb_create_family mem_rocksdb db fam = (Ok_status, map_put fam [] db)"
  "rdb_drop_family mem_rocksdb db fam = (Ok_status, map_erase fam db)"
  "sst_open mem_rocksdb db name = Ok_status"
  "sst_put mem_rocksdb db kvs kv = Ok_status"
  "sst_finish mem_rocksdb db kvs = (Ok_status, mem_encode kvs)"
  "file_write mem_rocksdb db name file"
  "sst_reader_open mem_rocksdb db file = Ok_status"
  "sst_read mem_rocksdb db file = (mem_contents file, Ok_status)"
  by (simp_all add: mem_rocksdb_def)

lemma mem_get:
  "map_of db fam = Some m \<Longrightarrow> rdb_get mem_rocksdb db fam k =
     (case map_of m k of None \<Rightarrow> (Not_found_status, []) | Some v \<Rightarrow> (Ok_status, v))"
  by (simp add: mem_rocksdb_def)

lemma mem_contents_encode: "ascending kvs \<Longrightarrow> mem_contents (mem_encode kvs) = kvs"
  by (simp add: mem_contents_def mem_encode_def in_order_ascending)

lemma mem_iterate:
  "map_of db fam = Some m \<Longrightarrow> rdb_iterate mem_rocksdb db fam lo hi backwards =
     (let kvs = filter (\<lambda>(k, v). lo \<le> k \<and> k < hi) (in_order m)
      in (if backwards then rev kvs else kvs, Ok_status))"
  by (simp add: mem_rocksdb_def)

lemma mem_ingest:
  "map_of db fam = Some m \<Longrightarrow> rdb_ingest mem_rocksdb db fam file =
     (Ok_status, map_put fam (mem_contents file @ m) db)"
  by (simp add: mem_rocksdb_def)

end
