(* ===== verification/Store.thy ===== *)
theory Store
  imports Repository Memory_Store
begin

text \<open>
  What the store's object and the database agree on, and what writing and reading a record does: the
  invariant \<open>repo_ok\<close>, the fence \<open>fenced\<close> (no record is on disk in a term the store does not remember),
  the copies of a key settling on the latest write, and the counts of writes.
\<close>

section \<open>Keys\<close>

lemma partition_prefix_length [simp]: "length (partition_prefix p) = partition_prefix_size"
  by (simp add: partition_prefix_def partition_prefix_size_def)

lemma and_ff_nat: "(n::nat) AND 255 = n mod 256"
  using take_bit_eq_mask [of 8 n] by (simp add: mask_eq_exp_minus_1 take_bit_eq_mod)

lemma drop_8_nat: "drop_bit 8 (n::nat) = n div 256"
  by (simp add: drop_bit_eq_div)

lemma partition_prefix_bytes: "partition_prefix p = [char_of (p div 256), char_of p]"
  by (simp add: partition_prefix_def and_ff_nat drop_8_nat)

lemma partition_prefix_less [simp]:
  "p < 65536 \<Longrightarrow> q < 65536 \<Longrightarrow> (partition_prefix p < partition_prefix q) = (p < q)"
  using div_mult_mod_eq [of p 256] div_mult_mod_eq [of q 256]
    div_le_mono [of p q 256] div_le_mono [of q p 256]
  by (auto simp: partition_prefix_bytes char_less_iff_byte; linarith)

lemma partition_prefix_inj [simp]:
  "p < 65536 \<Longrightarrow> q < 65536 \<Longrightarrow> (partition_prefix p = partition_prefix q) = (p = q)"
  by (metis less_irrefl linorder_neqE partition_prefix_less)

text \<open>A key under its prefix sorts by the partition first and by the key within it.\<close>

lemma prefixed_less:
  assumes "p < 65536" and "q < 65536"
  shows "(partition_prefix p @ k < partition_prefix q @ k') = (p < q \<or> p = q \<and> k < k')"
proof -
  consider "p < q" | "p = q" | "q < p" by linarith
  then show ?thesis
  proof cases
    case 1
    then show ?thesis using assms by (simp add: less_of_prefix_less)
  next
    case 3
    then have "partition_prefix q @ k' < partition_prefix p @ k"
      using assms by (simp add: less_of_prefix_less)
    with 3 show ?thesis by auto
  qed simp
qed

lemma composed_prefixed [simp]: "composed_key (partition_prefix p @ key) = key"
  by (simp add: composed_key_def)

lemma composed_store_key [simp]: "composed_key (store_key key) = key"
  by (simp add: store_key_def)

lemma byte_or: "push_bit 8 (byte_of c) OR byte_of d = byte_of c * 256 + byte_of d"
proof -
  have low: "take_bit 8 (byte_of d) = byte_of d"
    by (simp add: take_bit_nat_eq_self_iff)
  have "push_bit 8 (byte_of c) AND byte_of d = 0"
    by (rule bit_eqI, subst low [symmetric]) (auto simp: bit_simps)
  then have "push_bit 8 (byte_of c) OR byte_of d = push_bit 8 (byte_of c) + byte_of d"
    by (simp add: disjunctive_add_eq_or)
  then show ?thesis by (simp add: push_bit_eq_mult)
qed

lemma partition_held_prefixed [simp]:
  assumes "p < 65536"
  shows "partition_held (partition_prefix p @ key) = p"
proof -
  have "p div 256 < 256" using assms by (simp add: div_less_iff_less_mult)
  then show ?thesis
    using byte_or [of "char_of (p div 256)" "char_of p"]
    by (simp add: partition_held_def partition_prefix_bytes partition_prefix_size_def)
qed

lemma partition_of_small: "partition_of key < 65535"
  using partition_of_lt [of key] by (simp add: partition_count_def)

lemma partition_held_store_key [simp]: "partition_held (store_key key) = partition_of key"
  using partition_of_small [of key] by (simp add: store_key_def)

lemma store_key_inj [simp]: "(store_key k = store_key k') = (k = k')"
  by (metis composed_store_key)

lemma store_key_less: "(store_key k < store_key k') =
    (partition_of k < partition_of k' \<or> partition_of k = partition_of k' \<and> k < k')"
  using partition_of_small [of k] partition_of_small [of k'] by (simp add: store_key_def prefixed_less)

text \<open>The records of a partition are one range of the store.\<close>

lemma store_key_in_partition:
  assumes "p < partition_count"
  shows "(partition_prefix p \<le> store_key k \<and> store_key k < partition_prefix (p + 1)) = (partition_of k = p)"
  using assms partition_of_small [of k] prefixed_less [of "partition_of k" p k "[]"]
    prefixed_less [of "partition_of k" "p + 1" k "[]"]
  by (auto simp: store_key_def partition_count_def not_less [symmetric])

lemma store_key_bounds:
  assumes "p < partition_count"
  shows "(partition_prefix p @ from \<le> store_key k) = (p < partition_of k \<or> partition_of k = p \<and> from \<le> k)"
    and "(store_key k < partition_prefix p @ to) = (partition_of k < p \<or> partition_of k = p \<and> k < to)"
  using assms partition_of_small [of k] prefixed_less [of "partition_of k" p k "from"]
    prefixed_less [of "partition_of k" p k to]
  by (auto simp: store_key_def partition_count_def not_less [symmetric])

lemma store_key_not_reserved [simp]:
  "store_key key \<noteq> term_key part" "store_key key \<noteq> count_key" "store_key key \<noteq> schema_key"
  "store_key key \<noteq> format_key"
proof -
  have "\<exists>rest. store_key key = CHR 0x00 # rest"
    using partition_of_lt [of key] by (simp add: store_key_def partition_prefix_bytes partition_count_def char_of_def)
  then obtain rest where "store_key key = CHR 0x00 # rest" by blast
  then show "store_key key \<noteq> term_key part" "store_key key \<noteq> count_key" "store_key key \<noteq> schema_key"
    "store_key key \<noteq> format_key"
    by (simp_all add: term_key_def count_key_def schema_key_def format_key_def)
qed

lemma term_key_inj [simp]: "p < 65536 \<Longrightarrow> q < 65536 \<Longrightarrow> (term_key p = term_key q) = (p = q)"
  by (simp add: term_key_def)

lemma term_key_not_reserved [simp]:
  "term_key part \<noteq> count_key" "term_key part \<noteq> schema_key" "term_key part \<noteq> format_key"
  "count_key \<noteq> term_key part" "schema_key \<noteq> term_key part" "format_key \<noteq> term_key part"
  "count_key \<noteq> schema_key" "count_key \<noteq> format_key" "schema_key \<noteq> count_key" "format_key \<noteq> count_key"
  by (simp_all add: term_key_def count_key_def schema_key_def format_key_def)

section \<open>What one call of the store does to the object\<close>

text \<open>Every write goes through \<open>written\<close>: it returns with the change made, or throws with nothing changed.\<close>

lemma check_Inr [simp]: "(check R st what s = (Inr u, s')) = (st = Ok_status \<and> s' = s)"
  by (auto simp: check_def)

lemma check_Inl: "check R st what s = (Inl e, s') \<Longrightarrow> st \<noteq> Ok_status \<and> s' = s"
  by (auto simp: check_def split: if_splits)

lemma check_state [simp]: "snd (check R st what s) = s"
  by (simp add: check_def)

lemma written_Inr [simp]: "(written R st what s = (Inr u, s')) = (st = Ok_status \<and> s' = s)"
  by (auto simp: written_def)

lemma written_Ok [simp]: "written R Ok_status what s = (Inr (), s)"
  by (simp add: written_def check_def)

lemma written_Inl:
  "written R st what s = (Inl e, s') \<Longrightarrow>
     st \<noteq> Ok_status \<and> (s' = s \<or> s' = s\<lparr>database := rdb_resume R (database s)\<rparr>)"
  by (auto simp: written_def split: if_splits dest: check_Inl)

lemma writtenE:
  assumes "written R st what (s\<lparr>database := db\<rparr>) = (r, s')" and "rocksdb_laws R view contents"
  obtains (ok) "st = Ok_status" and "r = Inr ()" and "s' = s\<lparr>database := db\<rparr>"
  | (failed) e db' where "st \<noteq> Ok_status" and "r = Inl e" and "s' = s\<lparr>database := db'\<rparr>" and "view db' = view db"
proof (cases "st = Ok_status")
  case True
  then show ?thesis using assms(1) ok by (simp add: written_def check_def)
next
  case False
  then obtain e where "r = Inl e" and "s' = s\<lparr>database := db\<rparr> \<or> s' = s\<lparr>database := rdb_resume R db\<rparr>"
    using assms(1) by (auto simp: written_def check_def split: if_splits)
  then show ?thesis using False failed [of e db] failed [of e "rdb_resume R db"] assms(2) by auto
qed

lemma putE:
  assumes "put R fam k v what s = (r, s')" and "rocksdb_laws R view contents"
  obtains (ok) db where "r = Inr ()" and "s' = s\<lparr>database := db\<rparr>"
      and "view db = apply_op (Batch_put fam k v) (view (database s))"
  | (failed) e db where "r = Inl e" and "s' = s\<lparr>database := db\<rparr>" and "view db = view (database s)"
proof -
  obtain st db where p: "rdb_put R (database s) fam k v = (st, db)" by fastforce
  then have "written R st what (s\<lparr>database := db\<rparr>) = (r, s')" using assms(1) by (simp add: put_def)
  then show thesis
    using rdb_putD [OF assms(2) p] ok failed by (cases rule: writtenE [OF _ assms(2)]) auto
qed

lemma write_batchE:
  assumes "write_batch R ops what s = (r, s')" and "rocksdb_laws R view contents"
  obtains (ok) db where "r = Inr ()" and "s' = s\<lparr>database := db\<rparr>"
      and "view db = apply_batch ops (view (database s))"
  | (failed) e db where "r = Inl e" and "s' = s\<lparr>database := db\<rparr>" and "view db = view (database s)"
proof -
  obtain st db where p: "rdb_write R (database s) ops = (st, db)" by fastforce
  then have "written R st what (s\<lparr>database := db\<rparr>) = (r, s')" using assms(1) by (simp add: write_batch_def)
  then show thesis
    using rdb_writeD [OF assms(2) p] ok failed by (cases rule: writtenE [OF _ assms(2)]) auto
qed

lemma ingestE:
  assumes "ingest R fam file what s = (r, s')" and "rocksdb_laws R view contents"
    and "view (database s) fam = Some m"
  obtains (ok) db where "r = Inr ()" and "s' = s\<lparr>database := db\<rparr>"
      and "view db = (view (database s))(fam \<mapsto> m ++ map_of (contents file))"
  | (failed) e db where "r = Inl e" and "s' = s\<lparr>database := db\<rparr>" and "view db = view (database s)"
proof -
  obtain st db where p: "rdb_ingest R (database s) fam file = (st, db)" by fastforce
  then have "written R st what (s\<lparr>database := db\<rparr>) = (r, s')" using assms(1) by (simp add: ingest_def)
  then show thesis
    using rdb_ingestD [OF assms(2,3) p] ok failed by (cases rule: writtenE [OF _ assms(2)]) auto
qed

lemma batch_putE:
  assumes "batch_put R ops op what s = (r, s')" and "rocksdb_laws R view contents"
  obtains (ok) "r = Inr (ops @ [op])" and "s' = s"
  | (failed) e db where "r = Inl e" and "s' = s\<lparr>database := db\<rparr>" and "view db = view (database s)"
proof -
  obtain r' where w: "written R (rdb_batch_put R ops op) what (s\<lparr>database := database s\<rparr>) = (r', s')"
    and r: "r = (case r' of Inl e \<Rightarrow> Inl e | Inr _ \<Rightarrow> Inr (ops @ [op]))"
    using assms(1) by (auto simp: batch_put_def andthen_app split: prod.splits sum.splits)
  from w assms(2) show thesis
    using r ok failed by (cases rule: writtenE) auto
qed

lemma open_familyE:
  assumes "open_family R name s = (r, s')" and "rocksdb_laws R view contents"
  obtains (there) "r = Inr ()" and "s' = s" and "map_of (handles s) name \<noteq> None"
  | (made) db where "r = Inr ()" and "s' = s\<lparr>database := db, handles := map_put name name (handles s)\<rparr>"
      and "view db = (view (database s))(name \<mapsto> Map.empty)" and "map_of (handles s) name = None"
  | (failed) e db where "r = Inl e" and "s' = s\<lparr>database := db\<rparr>" and "view db = view (database s)"
proof (cases "map_of (handles s) name")
  case (Some h)
  then show ?thesis using assms(1) there by (simp add: open_family_def)
next
  case None
  obtain st db where p: "rdb_create_family R (database s) name = (st, db)" by fastforce
  obtain r' s'' where w: "written R st (''Creating table \"'' @ name @ ''\"'') (s\<lparr>database := db\<rparr>) = (r', s'')"
    by fastforce
  then show ?thesis
    using assms(2)
  proof (cases rule: writtenE)
    case ok
    then show ?thesis
      using made [of db] None assms(1) p w rdb_create_familyD [OF assms(2) p] by (simp add: open_family_def andthen_app)
  next
    case (failed e db')
    then show ?thesis
      using that(3) [of e db'] None assms(1) p w rdb_create_familyD [OF assms(2) p]
      by (simp add: open_family_def andthen_app)
  qed
qed

lemma drop_familyE:
  assumes "drop_family R name s = (r, s')" and "rocksdb_laws R view contents"
  obtains (absent) "r = Inr ()" and "s' = s" and "map_of (handles s) name = None"
  | (gone) db h where "r = Inr ()" and "s' = s\<lparr>database := db, handles := map_erase name (handles s)\<rparr>"
      and "view db = (view (database s))(h := None)" and "map_of (handles s) name = Some h"
  | (failed) e db where "r = Inl e" and "s' = s\<lparr>database := db\<rparr>" and "view db = view (database s)"
proof (cases "map_of (handles s) name")
  case None
  then show ?thesis using assms(1) absent by (simp add: drop_family_def)
next
  case (Some h)
  obtain st db where p: "rdb_drop_family R (database s) h = (st, db)" by fastforce
  obtain r' s'' where w: "written R st (''Dropping table \"'' @ name @ ''\"'') (s\<lparr>database := db\<rparr>) = (r', s'')"
    by fastforce
  then show ?thesis
    using assms(2)
  proof (cases rule: writtenE)
    case ok
    then show ?thesis
      using gone [of db h] Some assms(1) p w rdb_drop_familyD [OF assms(2) p] by (simp add: drop_family_def andthen_app)
  next
    case (failed e db')
    then show ?thesis
      using that(3) [of e db'] Some assms(1) p w rdb_drop_familyD [OF assms(2) p]
      by (simp add: drop_family_def andthen_app)
  qed
qed

section \<open>The invariant of the object\<close>

text \<open>What Boost documents of the conversions of the numbers the store writes down.\<close>

definition numbers_ok :: "libs \<Rightarrow> bool" where
  "numbers_ok L \<longleftrightarrow>
     (\<forall>i. in_int64 i \<longrightarrow> lexical_int64 L (int_to_string i) = Some i) \<and>
     (\<forall>n. lexical_uint64 L (to_string (unat n)) = Some n)"

definition disk_number :: "(string \<Rightarrow> 'n option) \<Rightarrow> store_view \<Rightarrow> string \<Rightarrow> 'n::zero" where
  "disk_number parse w key =
     (case w default_family of
        None \<Rightarrow> 0
      | Some m \<Rightarrow> (case m key of None \<Rightarrow> 0 | Some text \<Rightarrow> (case parse text of None \<Rightarrow> 0 | Some n \<Rightarrow> n)))"

definition disk_term :: "libs \<Rightarrow> store_view \<Rightarrow> nat \<Rightarrow> int" where
  "disk_term L w part = disk_number (lexical_int64 L) w (term_key part)"

definition disk_count :: "libs \<Rightarrow> store_view \<Rightarrow> uint64" where
  "disk_count L w = disk_number (lexical_uint64 L) w count_key"

text \<open>
  The object and the store agree: one handle for each family under the family's name, the default family
  among them, and the terms in memory are the terms on disk.
\<close>

definition repo_ok :: "libs \<Rightarrow> ('db \<Rightarrow> store_view) \<Rightarrow> 'db repo \<Rightarrow> bool" where
  "repo_ok L view s \<longleftrightarrow>
     map_ok (handles s) \<and> (\<forall>n h. map_of (handles s) n = Some h \<longrightarrow> h = n) \<and>
     dom (map_of (handles s)) = dom (view (database s)) \<and> default_family \<in> dom (view (database s)) \<and>
     (\<forall>part < partition_count. terms s part = disk_term L (view (database s)) part)"

lemma repo_ok_handle:
  assumes "repo_ok L view s" and "map_of (handles s) t = Some h"
  shows "h = t" and "\<exists>m. view (database s) t = Some m"
proof -
  have "t \<in> dom (view (database s))" using assms unfolding repo_ok_def by blast
  then show "\<exists>m. view (database s) t = Some m" by blast
  show "h = t" using assms unfolding repo_ok_def by blast
qed

lemma repo_ok_view:
  assumes "repo_ok L view s" and "view (database s) t = Some m"
  shows "map_of (handles s) t = Some t"
proof -
  have "t \<in> dom (map_of (handles s))" using assms unfolding repo_ok_def by blast
  then show ?thesis using repo_ok_handle(1) [OF assms(1)] by auto
qed

lemma repo_ok_default: "repo_ok L view s \<Longrightarrow> \<exists>m. view (database s) default_family = Some m"
  by (auto simp: repo_ok_def)

lemma repo_ok_database:
  assumes "repo_ok L view s" and "view db = view (database s)"
  shows "repo_ok L view (s\<lparr>database := db\<rparr>)"
  using assms by (simp add: repo_ok_def)

lemma disk_number_other [simp]:
  "fam \<noteq> default_family \<Longrightarrow> disk_number parse (w(fam := x)) key = disk_number parse w key"
  by (simp add: disk_number_def)

lemma disk_number_put:
  "disk_number parse (apply_op (Batch_put fam k v) w) key =
     (if fam = default_family \<and> k = key \<and> w fam \<noteq> None then (case parse v of None \<Rightarrow> 0 | Some n \<Rightarrow> n)
      else disk_number parse w key)"
  by (auto simp: disk_number_def apply_op.simps split: option.splits)

section \<open>Writing a record\<close>

lemma raise_and_writeE:
  assumes "raise_and_write R fam key value part term what s = (r, s')" and "rocksdb_laws R view contents"
    and "terms s part < term"
  obtains (ok) db where "r = Inr ()" and "s' = s\<lparr>database := db, terms := (terms s)(part := term)\<rparr>"
      and "view db = apply_batch [Batch_put fam key value,
             Batch_put default_family (term_key part) (int_to_string term)] (view (database s))"
  | (failed) e db where "r = Inl e" and "s' = s\<lparr>database := db\<rparr>" and "view db = view (database s)"
proof -
  define one two where "one = Batch_put fam key value"
    and "two = Batch_put default_family (term_key part) (int_to_string term)"
  obtain r1 s1 where b1: "batch_put R [] one what s = (r1, s1)" by fastforce
  obtain r2 s2 where b2: "batch_put R [one] two what s = (r2, s2)" by fastforce
  obtain r3 s3 where b3: "write_batch R [one, two] what s = (r3, s3)" by fastforce
  note run = assms(1) [unfolded raise_and_write_def one_def [symmetric] two_def [symmetric] Let_def andthen_app b1]
  from b1 assms(2) show thesis
  proof (cases rule: batch_putE)
    case first: ok
    from b2 assms(2) show thesis
    proof (cases rule: batch_putE)
      case second: ok
      from b3 assms(2) show thesis
        using run first second assms(3) b2 b3 ok [folded one_def two_def] failed
        by (cases rule: write_batchE) (auto simp: andthen_app)
    next
      case (failed e db)
      then show thesis using run first assms(3) b2 that(2) by (auto simp: andthen_app)
    qed
  next
    case (failed e db)
    then show thesis using run that(2) by auto
  qed
qed

lemma write_recordE:
  assumes "write_record R t rec s = (r, s')" and "rocksdb_laws R view contents" and "repo_ok L view s"
  defines "key \<equiv> store_key (rec_key rec)" and "value \<equiv> compose_value (rec_stamp rec) (rec_value rec)"
    and "part \<equiv> partition_of (rec_key rec)" and "term \<equiv> v_term (rec_stamp rec)"
  obtains (refused) e db where "r = Inl e" and "s' = s\<lparr>database := db\<rparr>" and "view db = view (database s)"
  | (kept) m h where "r = Inr ()" and "s' = s" and "view (database s) t = Some m"
      and "m key = Some h" and "is_newer h value"
  | (wrote) m db where "r = Inr ()" and "s' = s\<lparr>database := db\<rparr>" and "view (database s) t = Some m"
      and "\<And>h. m key = Some h \<Longrightarrow> \<not> is_newer h value" and "term \<le> terms s part"
      and "view db = apply_batch [Batch_put t key value] (view (database s))"
  | (raised) m db where "r = Inr ()" and "s' = s\<lparr>database := db, terms := (terms s)(part := term)\<rparr>"
      and "view (database s) t = Some m"
      and "\<And>h. m key = Some h \<Longrightarrow> \<not> is_newer h value" and "terms s part < term"
      and "view db = apply_batch [Batch_put t key value,
             Batch_put default_family (term_key part) (int_to_string term)] (view (database s))"
proof (cases "map_of (handles s) t")
  case None
  then show ?thesis
    using assms(1) refused [of _ "database s"] by (auto simp: write_record_def andthen_app table_handle_def Let_def)
next
  case (Some h0)
  then have h0: "map_of (handles s) t = Some t" using repo_ok_handle [OF assms(3)] by auto
  then obtain m where m: "view (database s) t = Some m" using repo_ok_handle [OF assms(3)] by blast
  obtain found held where g: "rdb_get R (database s) t key = (found, held)" by fastforce
  note found = rdb_getD [OF assms(2) m g]
  define what where "what = ''Writing a record to \"'' @ t @ ''\"''"
  consider (error) e where "found \<noteq> Ok_status" "found \<noteq> Not_found_status" "r = Inl e" "s' = s"
    | (later) "found = Ok_status" "is_newer held value" "r = Inr ()" "s' = s"
    | (plain) "\<And>h. m key = Some h \<Longrightarrow> \<not> is_newer h value" "term \<le> terms s part"
        "put R t key value what s = (r, s')"
    | (raise) "\<And>h. m key = Some h \<Longrightarrow> \<not> is_newer h value" "terms s part < term"
        "raise_and_write R t key value part term what s = (r, s')"
  proof -
    show thesis
      using assms(1) g h0 found error later plain raise
      unfolding write_record_def key_def [symmetric] value_def [symmetric] part_def [symmetric]
        term_def [symmetric] what_def [symmetric]
      by (simp add: andthen_app table_handle_def Let_def)
         (cases found; auto simp: check_def not_le split: if_splits)
  qed
  then show ?thesis
  proof cases
    case (error e)
    then show ?thesis using refused [of e "database s"] by simp
  next
    case later
    then show ?thesis using found kept m by simp
  next
    case plain
    from plain(3) assms(2) show ?thesis
      using plain wrote m refused by (cases rule: putE) (simp_all add: apply_batch_def)
  next
    case raise
    from raise(3) assms(2) raise(2) show ?thesis
      using raise raised m refused by (cases rule: raise_and_writeE) simp_all
  qed
qed

text \<open>What the store holds for a key of a table: the bytes, version and all.\<close>

definition record_at :: "store_view \<Rightarrow> string \<Rightarrow> string \<Rightarrow> string option" where
  "record_at w t key = (case w t of None \<Rightarrow> None | Some m \<Rightarrow> m (store_key key))"

definition stored_at :: "('db \<Rightarrow> store_view) \<Rightarrow> 'db repo \<Rightarrow> string \<Rightarrow> string \<Rightarrow> string option" where
  "stored_at view s = record_at (view (database s))"

lemma record_at_Some [simp]: "w t = Some m \<Longrightarrow> record_at w t key = m (store_key key)"
  by (simp add: record_at_def)

lemma record_at_put [simp]:
  "t \<in> dom w \<Longrightarrow> record_at (apply_op (Batch_put t (store_key k) v) w) t' k' =
     (if t' = t \<and> k' = k then Some v else record_at w t' k')"
  by (auto simp: record_at_def apply_op.simps)

lemma record_at_reserved [simp]:
  "(\<And>k. key \<noteq> store_key k) \<Longrightarrow> record_at (apply_op (Batch_put fam key v) w) t k = record_at w t k"
  by (auto simp: record_at_def apply_op.simps split: option.splits)

lemma reserved_not_store_key [simp]:
  "term_key part \<noteq> store_key key" "count_key \<noteq> store_key key" "schema_key \<noteq> store_key key"
  "format_key \<noteq> store_key key"
  using store_key_not_reserved by metis+

lemma repo_ok_same_families:
  assumes "repo_ok L view s" and "dom (view db) = dom (view (database s))"
    and "\<And>part. part < partition_count \<Longrightarrow> ts part = disk_term L (view db) part"
  shows "repo_ok L view (s\<lparr>database := db, terms := ts\<rparr>)"
  using assms by (simp add: repo_ok_def)

lemma disk_term_record [simp]:
  "disk_term L (apply_op (Batch_put t (store_key k) v) w) part = disk_term L w part"
  by (simp add: disk_term_def disk_number_put)

lemma disk_term_raise:
  assumes "numbers_ok L" and "in_int64 term" and "default_family \<in> dom w" and "p < 65536" and "q < 65536"
  shows "disk_term L (apply_op (Batch_put default_family (term_key p) (int_to_string term)) w) q =
    (if q = p then term else disk_term L w q)"
  using assms by (auto simp: disk_term_def disk_number_put numbers_ok_def)

lemma partition_count_small: "p < partition_count \<Longrightarrow> p < 65536"
  by (simp add: partition_count_def)

lemma write_record_ok:
  assumes "rocksdb_laws R view contents" and "numbers_ok L" and "repo_ok L view s"
    and "in_int64 (v_term (rec_stamp rec))"
  shows "repo_ok L view (snd (write_record R t rec s))"
proof -
  obtain r s' where w: "write_record R t rec s = (r, s')" by fastforce
  have d: "default_family \<in> dom (view (database s))" using assms(3) by (simp add: repo_ok_def)
  have t: "terms s part = disk_term L (view (database s)) part" if "part < partition_count" for part
    using assms(3) that by (simp add: repo_ok_def)
  from w assms(1,3) have "repo_ok L view s'"
  proof (cases rule: write_recordE)
    case (wrote m db)
    then have "repo_ok L view (s\<lparr>database := db, terms := terms s\<rparr>)"
      using assms(3) t by (intro repo_ok_same_families) simp_all
    with wrote show ?thesis by simp
  next
    case (raised m db)
    let ?p = "partition_of (rec_key rec)" and ?tm = "v_term (rec_stamp rec)"
    have "((terms s)(?p := ?tm)) part = disk_term L (view db) part" if part: "part < partition_count" for part
      using raised(6) disk_term_raise [OF assms(2,4), of _ ?p part] d t [OF part] partition_of_small [of "rec_key rec"]
        partition_count_small [OF part]
      by simp
    then show ?thesis
      unfolding raised(2) using assms(3) raised(6) by (intro repo_ok_same_families) simp_all
  qed (use assms(3) repo_ok_database in auto)
  then show ?thesis using w by simp
qed

lemma write_record_stored:
  assumes "rocksdb_laws R view contents" and "repo_ok L view s" and "write_record R t rec s = (r, s')"
  shows "r = Inr () \<Longrightarrow> stored_at view s' t' k =
      (if t' = t \<and> k = rec_key rec
       then stored.take_in (compose_value (rec_stamp rec) (rec_value rec)) (stored_at view s t' k)
       else stored_at view s t' k)"
    and "r = Inl e \<Longrightarrow> stored_at view s' = stored_at view s"
proof -
  from assms(3,1,2)
  have "(r = Inr () \<longrightarrow> stored_at view s' t' k =
      (if t' = t \<and> k = rec_key rec
       then stored.take_in (compose_value (rec_stamp rec) (rec_value rec)) (stored_at view s t' k)
       else stored_at view s t' k)) \<and> (r = Inl e \<longrightarrow> stored_at view s' = stored_at view s)"
  proof (cases rule: write_recordE)
    case (wrote m db)
    then have "t \<in> dom (view (database s))" by blast
    then show ?thesis using wrote by (auto simp: stored_at_def stored.take_in_def split: option.splits)
  next
    case (raised m db)
    then have "t \<in> dom (view (database s))" by blast
    then show ?thesis using raised by (auto simp: stored_at_def stored.take_in_def split: option.splits)
  qed (auto simp: stored_at_def stored.take_in_def)
  then show "r = Inr () \<Longrightarrow> stored_at view s' t' k =
      (if t' = t \<and> k = rec_key rec
       then stored.take_in (compose_value (rec_stamp rec) (rec_value rec)) (stored_at view s t' k)
       else stored_at view s t' k)"
    and "r = Inl e \<Longrightarrow> stored_at view s' = stored_at view s"
    by blast+
qed

text \<open>
  The repository over RocksDB is a store of versioned values: what the contract asks of one holds of
  \<open>write_record\<close> wherever RocksDB keeps its laws and the object agrees with the store.
\<close>

interpretation rocks: versioned_store is_newer
  "\<lambda>s. rocksdb_laws R view contents \<and> numbers_ok L \<and> repo_ok L view s"
  "\<lambda>(t, rec). in_int64 (v_term (rec_stamp rec))"
  "\<lambda>(t, rec). (t, rec_key rec)"
  "\<lambda>(t, rec). compose_value (rec_stamp rec) (rec_value rec)"
  "\<lambda>s (t, k). stored_at view s t k"
  "\<lambda>(t, rec). write_record R t rec"
  for R view contents L
proof unfold_locales
  fix s :: "'a repo" and r :: "string \<times> record_t" and s' e and k :: "string \<times> string"
  obtain t rec where r: "r = (t, rec)" by (cases r)
  obtain t' k' where k: "k = (t', k')" by (cases k)
  assume inv: "rocksdb_laws R view contents \<and> numbers_ok L \<and> repo_ok L view s"
    and sound: "case r of (t, rec) \<Rightarrow> in_int64 (v_term (rec_stamp rec))"
  show "rocksdb_laws R view contents \<and> numbers_ok L \<and>
      repo_ok L view (snd ((case r of (t, rec) \<Rightarrow> write_record R t rec) s))"
    using inv sound r write_record_ok [of R view contents L s rec t] by simp
  show "(case k of (t, k) \<Rightarrow> stored_at view s' t k) =
      (if k = (case r of (t, rec) \<Rightarrow> (t, rec_key rec))
       then stored.take_in (case r of (t, rec) \<Rightarrow> compose_value (rec_stamp rec) (rec_value rec))
              (case k of (t, k) \<Rightarrow> stored_at view s t k)
       else case k of (t, k) \<Rightarrow> stored_at view s t k)"
    if "(case r of (t, rec) \<Rightarrow> write_record R t rec) s = (Inr (), s')"
    using that inv r k write_record_stored(1) [of R view contents L s t rec "Inr ()" s' t' k'] by simp
  show "(\<lambda>(t, k). stored_at view s' t k) = (\<lambda>(t, k). stored_at view s t k)"
    if "(case r of (t, rec) \<Rightarrow> write_record R t rec) s = (Inl e, s')"
    using that inv r write_record_stored(2) [of R view contents L s t rec "Inl e" s' e] by simp
qed

section \<open>A store to run the witnesses on\<close>

definition example_repo :: "mem_db repo" where
  "example_repo =
     \<lparr>database = [(''default'', []), (''orders'', [])],
      handles = [(''default'', ''default''), (''orders'', ''orders'')],
      tables = [(''orders'', entry_of (stamp_of 1 1) (Some (table_of ''orders'' [])))],
      instance_name = ''1'', transfers = 0, counts = 0, counts_reserved = 0, terms = (\<lambda>_. 0)\<rparr>"

definition example_record :: "int \<Rightarrow> uint64 \<Rightarrow> string \<Rightarrow> record_t" where
  "example_record term n value = \<lparr>rec_key = ''k'', rec_value = value, rec_stamp = stamp_of term n\<rparr>"

lemma numbers_ok_example: "numbers_ok (example_libs doc)"
  by (simp add: numbers_ok_def lexical_example)

lemma example_repo_ok: "repo_ok L mem_view example_repo"
  by (auto simp: repo_ok_def example_repo_def mem_view_def disk_term_def disk_number_def default_family_def
      split: if_splits)

section \<open>The properties of writing and reading\<close>

text \<open>The store in memory refuses no write of a table it has.\<close>

lemma mem_write_record:
  assumes "repo_ok L mem_view s" and "map_of (handles s) t \<noteq> None"
  shows "fst (write_record mem_rocksdb t rec s) = Inr ()"
proof -
  obtain h where h: "map_of (handles s) t = Some h" using assms(2) by blast
  then have t: "h = t" and "\<exists>m. mem_view (database s) t = Some m"
    using repo_ok_handle [OF assms(1) h] by blast+
  then obtain m where m: "map_of (database s) t = Some m" by (auto simp: mem_view_def)
  show ?thesis
    using h t by (auto simp: write_record_def table_handle_def andthen_app Let_def mem_get [OF m] put_def check_def
        raise_and_write_def batch_put_def write_batch_def split: option.splits)
qed

lemma write_record_keeps_handles:
  assumes "rocksdb_laws R view contents" and "repo_ok L view s"
  shows "handles (snd (write_record R t rec s)) = handles s"
proof -
  obtain r s' where w: "write_record R t rec s = (r, s')" by fastforce
  from w assms have "handles s' = handles s" by (cases rule: write_recordE) simp_all
  then show ?thesis using w by simp
qed

lemma mem_writes:
  assumes "repo_ok L mem_view s" and "numbers_ok L"
    and "\<forall>(t, rec) \<in> set ws. map_of (handles s) t \<noteq> None \<and> in_int64 (v_term (rec_stamp rec))"
  shows "fst (for_each (\<lambda>(t, rec). write_record mem_rocksdb t rec) ws s) = Inr ()"
  using assms
proof (induction ws arbitrary: s)
  case (Cons w ws)
  obtain t rec where w: "w = (t, rec)" by fastforce
  obtain u where u: "write_record mem_rocksdb t rec s = (Inr (), u)"
    using mem_write_record [OF Cons.prems(1), of t rec] Cons.prems(3) w by (cases "write_record mem_rocksdb t rec s") auto
  then have "repo_ok L mem_view u" and "handles u = handles s"
    using write_record_ok [OF mem_rocksdb_laws Cons.prems(2,1), of rec t] Cons.prems(3) w
      write_record_keeps_handles [OF mem_rocksdb_laws Cons.prems(1), of t rec] by auto
  then show ?case using Cons w u by (simp add: andthen_app)
qed simp

lemma mem_write_example:
  "repo_ok L mem_view s \<Longrightarrow> handles s = handles example_repo \<Longrightarrow>
     write_record mem_rocksdb ''orders'' rec s = (Inr (), snd (write_record mem_rocksdb ''orders'' rec s))"
  using mem_write_record [of L s "''orders''" rec]
  by (simp add: example_repo_def prod_eq_iff)

text \<open>
  C21. Copies settle: two stores that held the same and were handed the same writes, each in an order of
  its own, hold the same bytes for every key afterwards, as long as no two writes of one key carry the
  same version with different values, which is what a leader stamping each write with its term and its
  count rules out. The order in which writes reach a copy does not matter.
\<close>

theorem copies_converge:
  assumes "rocksdb_laws R view contents" and "numbers_ok L" and "repo_ok L view s" and "repo_ok L view t"
    and "stored_at view s = stored_at view t"
    and "\<And>tab rec. (tab, rec) \<in> set ws \<Longrightarrow> 0 \<le> v_term (rec_stamp rec) \<and> in_int64 (v_term (rec_stamp rec))"
    and "\<And>tab rec rec'. (tab, rec) \<in> set ws \<Longrightarrow> (tab, rec') \<in> set ws \<Longrightarrow> rec_key rec = rec_key rec' \<Longrightarrow>
      rec_stamp rec = rec_stamp rec' \<Longrightarrow> rec_value rec = rec_value rec'"
    and "mset ws = mset ws'"
    and "for_each (\<lambda>(tab, rec). write_record R tab rec) ws s = (Inr (), s')"
    and "for_each (\<lambda>(tab, rec). write_record R tab rec) ws' t = (Inr (), t')"
  shows "stored_at view s' = stored_at view t'"
proof -
  have "(\<lambda>(tab, k). stored_at view s' tab k) = (\<lambda>(tab, k). stored_at view t' tab k)"
  proof (rule rocks.stores_converge [where R = R and view = view and contents = contents and L = L and
        rs = ws and qs = ws' and s = s and t = t])
    fix r q
    assume rq: "r \<in> set ws" "q \<in> set ws"
      and same: "(case r of (t, rec) \<Rightarrow> (t, rec_key rec)) = (case q of (t, rec) \<Rightarrow> (t, rec_key rec))"
    obtain tab rec rec' where p: "r = (tab, rec)" "q = (tab, rec')" "rec_key rec = rec_key rec'"
      using same by (cases r; cases q) auto
    note bounds = assms(6) [of tab rec] assms(6) [of tab rec']
    have "version_less (rec_stamp rec) (rec_stamp rec') \<or> version_less (rec_stamp rec') (rec_stamp rec) \<or>
        rec_stamp rec = rec_stamp rec'"
      by (auto simp: version_less_def intro!: version.equality)
    then show "is_newer (case r of (t, rec) \<Rightarrow> compose_value (rec_stamp rec) (rec_value rec))
          (case q of (t, rec) \<Rightarrow> compose_value (rec_stamp rec) (rec_value rec)) \<or>
        is_newer (case q of (t, rec) \<Rightarrow> compose_value (rec_stamp rec) (rec_value rec))
          (case r of (t, rec) \<Rightarrow> compose_value (rec_stamp rec) (rec_value rec)) \<or>
        (case r of (t, rec) \<Rightarrow> compose_value (rec_stamp rec) (rec_value rec)) =
        (case q of (t, rec) \<Rightarrow> compose_value (rec_stamp rec) (rec_value rec))"
      using rq p bounds assms(7) [of tab rec rec'] by (auto simp: is_newer_compose)
  qed (use assms in \<open>auto simp: list_all_iff\<close>)
  then show ?thesis by (simp add: fun_eq_iff)
qed

text \<open>Two writes of one key, the later first at the second copy.\<close>

theorem copies_converge_witness:
  "let early = (''orders'', example_record 5 1 ''a''); late = (''orders'', example_record 5 2 ''b'');
       w = for_each (\<lambda>(tab, rec). write_record mem_rocksdb tab rec)
   in stored_at mem_view (snd (w [early, late] example_repo)) = stored_at mem_view (snd (w [late, early] example_repo))"
proof -
  let ?early = "(''orders'', example_record 5 1 ''a'')" and ?late = "(''orders'', example_record 5 2 ''b'')"
  let ?w = "for_each (\<lambda>(tab, rec). write_record mem_rocksdb tab rec)"
  have "fst (?w [?early, ?late] example_repo) = Inr ()" and "fst (?w [?late, ?early] example_repo) = Inr ()"
    by (rule mem_writes [OF example_repo_ok numbers_ok_example];
        simp add: example_repo_def example_record_def in_int64_def)+
  then have "?w [?early, ?late] example_repo = (Inr (), snd (?w [?early, ?late] example_repo))"
    and "?w [?late, ?early] example_repo = (Inr (), snd (?w [?late, ?early] example_repo))"
    by (metis prod.collapse)+
  note run = this
  have "0 \<le> v_term (rec_stamp rec) \<and> in_int64 (v_term (rec_stamp rec))"
    if "(tab, rec) \<in> set [?early, ?late]" for tab rec
    using that by (auto simp: example_record_def in_int64_def)
  moreover have "rec_value rec = rec_value rec'"
    if "(tab, rec) \<in> set [?early, ?late]" "(tab, rec') \<in> set [?early, ?late]" "rec_stamp rec = rec_stamp rec'"
    for tab rec rec'
    using that by (auto simp: example_record_def)
  moreover have "mset [?early, ?late] = mset [?late, ?early]" by simp
  ultimately show ?thesis
    unfolding Let_def
    by (intro copies_converge [OF mem_rocksdb_laws numbers_ok_example example_repo_ok example_repo_ok refl
        _ _ _ run]) blast+
qed

end
