(* ===== verification/Store_Fence.thy ===== *)
theory Store_Fence
  imports Store
begin

text \<open>
  The fence on disk: no record of a table is held in a term above the one the store remembers for the
  record's partition, whatever is written, dropped or restarted. And the counts a write is stamped with,
  which rise for as long as the store lives.
\<close>

section \<open>The fence\<close>

definition fenced :: "libs \<Rightarrow> store_view \<Rightarrow> bool" where
  "fenced L w \<longleftrightarrow>
     (\<forall>p < partition_count. 0 \<le> disk_term L w p) \<and>
     (\<forall>t m k v. t \<noteq> default_family \<longrightarrow> w t = Some m \<longrightarrow> m k = Some v \<longrightarrow> partition_held k < partition_count \<longrightarrow>
        v_term (version_of v) \<le> disk_term L w (partition_held k))"

lemma fencedD:
  "fenced L w \<Longrightarrow> t \<noteq> default_family \<Longrightarrow> w t = Some m \<Longrightarrow> m k = Some v \<Longrightarrow> partition_held k < partition_count \<Longrightarrow>
     v_term (version_of v) \<le> disk_term L w (partition_held k)"
  unfolding fenced_def by blast

lemma fencedI:
  assumes "fenced L w" and "\<And>p. p < partition_count \<Longrightarrow> disk_term L w p \<le> disk_term L w' p"
    and "\<And>t m k v. t \<noteq> default_family \<Longrightarrow> w' t = Some m \<Longrightarrow> m k = Some v \<Longrightarrow> partition_held k < partition_count \<Longrightarrow>
      v_term (version_of v) \<le> disk_term L w' (partition_held k) \<or> (\<exists>m. w t = Some m \<and> m k = Some v)"
  shows "fenced L w'"
  unfolding fenced_def
proof (intro conjI allI impI)
  show "0 \<le> disk_term L w' p" if "p < partition_count" for p
    using that assms(1) assms(2) [of p] unfolding fenced_def by (meson order_trans)
  fix t m k v
  assume "t \<noteq> default_family" "w' t = Some m" "m k = Some v" "partition_held k < partition_count"
  then show "v_term (version_of v) \<le> disk_term L w' (partition_held k)"
    using assms(3) [of t m k v] assms(2) [of "partition_held k"] fencedD [OF assms(1), of t _ k v]
    by (meson order_trans)
qed

lemma disk_term_other [simp]: "fam \<noteq> default_family \<Longrightarrow> disk_term L (w(fam := x)) p = disk_term L w p"
  by (simp add: disk_term_def)

lemma disk_term_put:
  "fam \<noteq> default_family \<or> (\<forall>p. k \<noteq> term_key p) \<Longrightarrow> disk_term L (apply_op (Batch_put fam k v) w) p = disk_term L w p"
  by (auto simp: disk_term_def disk_number_put)

lemma fenced_reserved:
  assumes "fenced L w" and "\<And>p. key \<noteq> term_key p"
  shows "fenced L (apply_op (Batch_put default_family key v) w)"
proof (rule fencedI [OF assms(1)])
  show "disk_term L w p \<le> disk_term L (apply_op (Batch_put default_family key v) w) p" for p
    using assms(2) by (simp add: disk_term_put)
qed (auto simp: apply_op.simps split: option.splits)

lemma fenced_create: "fenced L w \<Longrightarrow> fam \<noteq> default_family \<Longrightarrow> fenced L (w(fam \<mapsto> Map.empty))"
  by (rule fencedI) (auto split: if_splits)

lemma fenced_drop: "fenced L w \<Longrightarrow> fam \<noteq> default_family \<Longrightarrow> fenced L (w(fam := None))"
  by (rule fencedI) (auto split: if_splits)

lemma fenced_put:
  assumes "fenced L w" and "fam \<noteq> default_family"
    and "partition_held k < partition_count \<Longrightarrow> v_term (version_of v) \<le> disk_term L w (partition_held k)"
  shows "fenced L (apply_op (Batch_put fam k v) w)"
  using assms by (intro fencedI [OF assms(1)])
    (auto simp: disk_term_put apply_op.simps split: option.splits if_splits)

lemma fenced_raise:
  assumes "fenced L w" and "numbers_ok L" and "in_int64 t" and "default_family \<in> dom w"
    and "disk_term L w p \<le> t" and "p < partition_count"
  shows "fenced L (apply_op (Batch_put default_family (term_key p) (int_to_string t)) w)"
proof (rule fencedI [OF assms(1)])
  fix q assume "q < partition_count"
  then show "disk_term L w q \<le> disk_term L (apply_op (Batch_put default_family (term_key p) (int_to_string t)) w) q"
    using assms by (simp add: disk_term_raise partition_count_small)
qed (auto simp: apply_op.simps split: option.splits)

lemma apply_op_swap:
  "op_family a \<noteq> op_family b \<Longrightarrow> apply_op a (apply_op b w) = apply_op b (apply_op a w)"
  by (cases a; cases b) (auto simp: apply_op.simps fun_upd_twist split: option.splits)

text \<open>Writing a record keeps the fence: the term goes to disk in the batch that carries the record.\<close>

lemma write_record_fenced:
  assumes "rocksdb_laws R view contents" and "numbers_ok L" and "repo_ok L view s" and "fenced L (view (database s))"
    and "in_int64 (v_term (rec_stamp rec))" and "t \<noteq> default_family"
  shows "fenced L (view (database (snd (write_record R t rec s))))"
proof -
  obtain r s' where w: "write_record R t rec s = (r, s')" by fastforce
  let ?p = "partition_of (rec_key rec)" and ?v = "compose_value (rec_stamp rec) (rec_value rec)"
  have t: "terms s ?p = disk_term L (view (database s)) ?p"
    and d: "default_family \<in> dom (view (database s))"
    using assms(3) by (simp_all add: repo_ok_def)
  have v: "v_term (version_of ?v) = v_term (rec_stamp rec)" using assms(5) by (simp add: version_of_compose)
  from w assms(1,3) have "fenced L (view (database s'))"
  proof (cases rule: write_recordE)
    case (wrote m db)
    then show ?thesis using assms(4,6) t v by (simp add: fenced_put)
  next
    case (raised m db)
    let ?raise = "Batch_put default_family (term_key ?p) (int_to_string (v_term (rec_stamp rec)))"
    have "fenced L (apply_op ?raise (view (database s)))"
      using assms(2,4,5) raised(5) t d by (intro fenced_raise) simp_all
    from fenced_put [OF this assms(6), of "store_key (rec_key rec)" ?v]
    have "fenced L (apply_op (Batch_put t (store_key (rec_key rec)) ?v) (apply_op ?raise (view (database s))))"
      using assms(2,5) v d partition_of_small [of "rec_key rec"] by (simp add: disk_term_raise)
    then show ?thesis using raised assms(6) by (simp add: apply_op_swap [of "Batch_put t _ _"])
  qed (use assms(4) in simp_all)
  then show ?thesis using w by simp
qed

section \<open>Every operation on tables keeps the object and the fence\<close>

definition guarded :: "libs \<Rightarrow> ('db \<Rightarrow> store_view) \<Rightarrow> 'db repo \<Rightarrow> bool" where
  "guarded L view s \<longleftrightarrow> repo_ok L view s \<and> fenced L (view (database s))"

lemma guarded_database:
  "guarded L view s \<Longrightarrow> view db = view (database s) \<Longrightarrow> guarded L view (s\<lparr>database := db\<rparr>)"
  by (simp add: guarded_def repo_ok_database)

lemma guarded_fields [simp]:
  "guarded L view (s\<lparr>tables := x\<rparr>) = guarded L view s"
  "guarded L view (s\<lparr>transfers := n\<rparr>) = guarded L view s"
  "guarded L view (s\<lparr>counts := c\<rparr>) = guarded L view s"
  "guarded L view (s\<lparr>counts_reserved := c\<rparr>) = guarded L view s"
  "guarded L view (s\<lparr>counts := c, counts_reserved := c'\<rparr>) = guarded L view s"
  by (simp_all add: guarded_def repo_ok_def)

lemma put_reserved_guarded:
  assumes "rocksdb_laws R view contents" and "\<And>p. key \<noteq> term_key p"
  shows "keeps (guarded L view) (put R default_family key v what)"
proof (rule keepsI)
  fix s assume g: "guarded L view s"
  obtain r s' where p: "put R default_family key v what s = (r, s')" by fastforce
  from p assms(1) have "guarded L view s'"
  proof (cases rule: putE)
    case (ok db)
    then have "repo_ok L view (s\<lparr>database := db, terms := terms s\<rparr>)"
      using g assms(2) by (intro repo_ok_same_families) (auto simp: guarded_def repo_ok_def disk_term_put)
    with ok show ?thesis using g assms(2) by (simp add: guarded_def fenced_reserved)
  qed (use g guarded_database in auto)
  then show "guarded L view (snd (put R default_family key v what s))" using p by simp
qed

lemma open_family_guarded:
  assumes "rocksdb_laws R view contents"
  shows "keeps (guarded L view) (open_family R name)"
proof (rule keepsI)
  fix s assume g: "guarded L view s"
  obtain r s' where p: "open_family R name s = (r, s')" by fastforce
  from p assms have "guarded L view s'"
  proof (cases rule: open_familyE)
    case (made db)
    then have "name \<notin> dom (view (database s))"
      using g unfolding guarded_def repo_ok_def by (metis domIff)
    then have "name \<noteq> default_family" using g by (auto simp: guarded_def repo_ok_def)
    then show ?thesis using g made by (auto simp: guarded_def repo_ok_def fenced_create)
  qed (use g guarded_database in auto)
  then show "guarded L view (snd (open_family R name s))" using p by simp
qed

lemma drop_family_guarded:
  assumes "rocksdb_laws R view contents" and "name \<noteq> default_family"
  shows "keeps (guarded L view) (drop_family R name)"
proof (rule keepsI)
  fix s assume g: "guarded L view s"
  obtain r s' where p: "drop_family R name s = (r, s')" by fastforce
  from p assms(1) have "guarded L view s'"
  proof (cases rule: drop_familyE)
    case (gone db h)
    then have "h = name" using g by (simp add: guarded_def repo_ok_def)
    with gone g assms(2) show ?thesis
      by (auto simp: guarded_def repo_ok_def fenced_drop)
  qed (use g guarded_database in auto)
  then show "guarded L view (snd (drop_family R name s))" using p by simp
qed

lemma keeps_assign: "(\<And>s. I s \<Longrightarrow> I (f s)) \<Longrightarrow> keeps I m \<Longrightarrow> keeps I (\<lambda>s. m (f s))"
  by (simp add: keeps_def)

lemma write_tables_guarded:
  "rocksdb_laws R view contents \<Longrightarrow> keeps (guarded L' view) (write_tables L R)"
  using put_reserved_guarded [of R view contents schema_key L']
  by (simp add: keeps_def write_tables_def)

lemma create_table_guarded:
  "rocksdb_laws R view contents \<Longrightarrow> keeps (guarded L' view) (create_table L R t stamp)"
  unfolding create_table_def
  by (rule keeps_andthen [OF open_family_guarded keeps_assign [OF _ write_tables_guarded]]) simp_all

lemma delete_table_guarded:
  "rocksdb_laws R view contents \<Longrightarrow> name \<noteq> default_family \<Longrightarrow> keeps (guarded L' view) (delete_table L R name stamp)"
  unfolding delete_table_def
  by (rule keeps_andthen [OF drop_family_guarded keeps_assign [OF _ write_tables_guarded]]) simp_all

text \<open>No entry of a schema the cluster hands over is the default family's: no table can be declared under it.\<close>

definition no_default :: "schema \<Rightarrow> bool" where
  "no_default entries \<longleftrightarrow> default_family \<notin> fst ` set entries"

lemma changes_named: "c \<in> set (changes_of named entries) \<Longrightarrow> c_name c \<in> fst ` set named"
  by (force simp: changes_of_def)

lemma changes_distinct: "map_ok named \<Longrightarrow> distinct (map c_name (changes_of named entries))"
  using map_ok_distinct [of named]
  by (auto simp: changes_of_def comp_def case_prod_unfold distinct_map intro: inj_on_subset)

lemma keeps_for_each_set: "(\<And>x. x \<in> set xs \<Longrightarrow> keeps I (f x)) \<Longrightarrow> keeps I (for_each f xs)"
  by (induction xs) (auto intro!: keeps_andthen)

lemma merge_schema_guarded:
  assumes "rocksdb_laws R view contents" and "map_ok named" and "no_default named"
  shows "keeps (guarded L' view) (merge_schema L R named)"
proof (rule keepsI)
  fix s assume g: "guarded L' view s"
  obtain changed merged where m: "schema_merge named (tables s) = (changed, merged)" by fastforce
  have "changed = changes_of named (tables s)"
    using m merge_entries_changed [OF map_ok_distinct [OF assms(2)], of "tables s" "[]"] by (simp add: schema_merge_def)
  then have names: "c \<in> set changed \<Longrightarrow> c_name c \<noteq> default_family" for c
    using assms(3) changes_named [of c named "tables s"] unfolding no_default_def by metis
  have "keeps (guarded L' view) (for_each (alter_family R) changed)"
  proof (rule keeps_for_each_set)
    fix c assume "c \<in> set changed"
    then show "keeps (guarded L' view) (alter_family R c)"
      using open_family_guarded [OF assms(1)] drop_family_guarded [OF assms(1) names]
      by (simp add: alter_family_def)
  qed
  then have "keeps (guarded L' view) (andthen (for_each (alter_family R) changed)
      (\<lambda>_. andthen (write_tables L R) (\<lambda>_. ret (length changed))))"
    by (intro keeps_andthen write_tables_guarded [OF assms(1)] keeps_ret)
  from keepsD [OF this, of "s\<lparr>tables := merged\<rparr>"] g m
  show "guarded L' view (snd (merge_schema L R named s))"
    by (simp add: merge_schema_def)
qed

section \<open>Counts\<close>

lemma reserve_counts_guarded:
  assumes "rocksdb_laws R view contents"
  shows "keeps (guarded L' view) (reserve_counts L R)"
proof (rule keepsI)
  fix s assume g: "guarded L' view s"
  have "keeps (guarded L' view) (andthen (put R default_family count_key v what)
      (\<lambda>_ s. ret () (s\<lparr>counts := a, counts_reserved := b\<rparr>)))" for v what a b
    using put_reserved_guarded [OF assms] by (rule keeps_andthen) (auto simp: keeps_def)
  from keepsD [OF this g] show "guarded L' view (snd (reserve_counts L R s))"
    by (simp add: reserve_counts_def Let_def split: prod.splits)
qed

lemma next_count_guarded:
  assumes "rocksdb_laws R view contents"
  shows "keeps (guarded L' view) (next_count L R)"
  unfolding next_count_def
proof (rule keeps_andthen)
  show "keeps (guarded L' view) (\<lambda>s. if counts s = counts_reserved s then reserve_counts L R s else ret () s)"
    using reserve_counts_guarded [OF assms] by (auto simp: keeps_def)
qed (simp add: keeps_def)

section \<open>Starting again\<close>

text \<open>
  What a restart needs of RocksDB beyond its laws: a read of a store that has just been opened answers.
  The code takes every other answer for a key that is not there.
\<close>

definition reads_answer :: "'db rocksdb \<Rightarrow> bool" where
  "reads_answer R \<longleftrightarrow> (\<forall>db fam k. fst (rdb_get R db fam k) = Ok_status \<or> fst (rdb_get R db fam k) = Not_found_status)"

lemma disk_number_read:
  assumes "rocksdb_laws R view contents" and "reads_answer R" and "default_family \<in> dom (view db)"
    and "rdb_get R db default_family key = (st, raw)"
  shows "disk_number parse (view db) key =
    (if st = Ok_status then (case parse raw of None \<Rightarrow> 0 | Some n \<Rightarrow> n) else 0)"
proof -
  obtain m where m: "view db default_family = Some m" using assms(3) by blast
  have "st = Ok_status \<or> st = Not_found_status"
    using assms(2,4) unfolding reads_answer_def by (metis fst_conv)
  then show ?thesis
    using rdb_getD [OF assms(1) m assms(4)] m by (auto simp: disk_number_def)
qed

lemma load_terms_loop:
  assumes "rocksdb_laws R view contents" and "reads_answer R" and "default_family \<in> dom (view (database s))"
  shows "for_each (load_term L R) ps s =
     (Inr (), s\<lparr>terms := (\<lambda>p. if p \<in> set ps then disk_term L (view (database s)) p else terms s p)\<rparr>)"
  using assms(3)
proof (induction ps arbitrary: s)
  case (Cons p ps)
  let ?t = "disk_term L (view (database s)) p"
  have step: "load_term L R p s = (Inr (), s\<lparr>terms := (terms s)(p := ?t)\<rparr>)"
    using disk_number_read [OF assms(1,2) Cons.prems, of "term_key p" _ _ "lexical_int64 L"]
    by (auto simp: load_term_def disk_term_def split: prod.splits)
  have "(\<lambda>q. if q \<in> set ps then disk_term L (view (database s)) q else ((terms s)(p := ?t)) q) =
      (\<lambda>q. if q \<in> set (p # ps) then disk_term L (view (database s)) q else terms s q)"
    by auto
  with Cons.IH [of "s\<lparr>terms := (terms s)(p := ?t)\<rparr>"] Cons.prems show ?case
    by (simp add: andthen_app step cong del: if_weak_cong)
qed simp

lemma load_terms_run:
  assumes "rocksdb_laws R view contents" and "reads_answer R" and "default_family \<in> dom (view (database s))"
  shows "load_terms L R s =
    (Inr (), s\<lparr>terms := (\<lambda>p. if p < partition_count then disk_term L (view (database s)) p else terms s p)\<rparr>)"
  unfolding load_terms_def using load_terms_loop [OF assms, of L "[0..<partition_count]"] by simp

text \<open>Until the terms are loaded the object agrees with the store in its handles alone.\<close>

definition handles_ok :: "('db \<Rightarrow> store_view) \<Rightarrow> 'db repo \<Rightarrow> bool" where
  "handles_ok view s \<longleftrightarrow>
     map_ok (handles s) \<and> (\<forall>n h. map_of (handles s) n = Some h \<longrightarrow> h = n) \<and>
     dom (map_of (handles s)) = dom (view (database s)) \<and> default_family \<in> dom (view (database s))"

lemma repo_ok_handles: "repo_ok L view s = (handles_ok view s \<and>
    (\<forall>part < partition_count. terms s part = disk_term L (view (database s)) part))"
  by (auto simp: repo_ok_def handles_ok_def)

text \<open>
  The terms do not take part in what the steps before do, so what was shown of a guarded object holds of
  one whose terms are still to be loaded: give it the terms of the disk.
\<close>

definition settled :: "libs \<Rightarrow> ('db \<Rightarrow> store_view) \<Rightarrow> 'db repo \<Rightarrow> bool" where
  "settled L view s \<longleftrightarrow> guarded L view (s\<lparr>terms := disk_term L (view (database s))\<rparr>)"

lemma settled_iff: "settled L view s \<longleftrightarrow> handles_ok view s \<and> fenced L (view (database s))"
  by (simp add: settled_def guarded_def repo_ok_handles handles_ok_def)

lemma guarded_settled: "guarded L view s \<longleftrightarrow> settled L view s \<and>
    (\<forall>part < partition_count. terms s part = disk_term L (view (database s)) part)"
  by (auto simp: settled_iff guarded_def repo_ok_handles)

definition ignores_terms :: "('db repo, 'e, 'a) exec \<Rightarrow> bool" where
  "ignores_terms m \<longleftrightarrow> (\<forall>s ts. m (s\<lparr>terms := ts\<rparr>) = map_prod id (\<lambda>s. s\<lparr>terms := ts\<rparr>) (m s))"

lemma keeps_settled:
  assumes "ignores_terms m" and "keeps (guarded L view) m"
  shows "keeps (settled L view) m"
proof (rule keepsI)
  fix s assume "settled L view s"
  then have "guarded L view (snd (m (s\<lparr>terms := disk_term L (view (database s))\<rparr>)))"
    using assms(2) by (simp add: settled_def keeps_def)
  then have "guarded L view ((snd (m s))\<lparr>terms := disk_term L (view (database s))\<rparr>)"
    using assms(1) by (simp add: ignores_terms_def)
  then show "settled L view (snd (m s))"
    by (simp add: guarded_def settled_iff repo_ok_handles handles_ok_def)
qed

lemma ignores_terms_check: "ignores_terms (check R st what)"
  by (auto simp: ignores_terms_def check_def)

lemma ignores_terms_written: "ignores_terms (written R st what)"
  by (auto simp: ignores_terms_def written_def check_def)

lemma ignores_terms_put: "ignores_terms (put R fam k v what)"
  by (auto simp: ignores_terms_def put_def written_def check_def split: prod.splits)

lemma ignores_terms_andthen:
  "ignores_terms m \<Longrightarrow> (\<And>a. ignores_terms (f a)) \<Longrightarrow> ignores_terms (andthen m f)"
  by (auto simp: ignores_terms_def andthen_app split: prod.splits sum.splits)

lemma ignores_terms_for_each: "(\<And>x. ignores_terms (f x)) \<Longrightarrow> ignores_terms (for_each f xs)"
  by (induction xs) (auto simp: ignores_terms_andthen, simp add: ignores_terms_def)

lemma ignores_terms_open: "ignores_terms (open_family R name)"
  by (auto simp: ignores_terms_def open_family_def written_def check_def andthen_app split: prod.splits)

lemma ignores_terms_drop: "ignores_terms (drop_family R name)"
  by (auto simp: ignores_terms_def drop_family_def written_def check_def andthen_app split: prod.splits option.splits)

lemmas open_family_settled = keeps_settled [OF ignores_terms_open open_family_guarded]
  and drop_family_settled = keeps_settled [OF ignores_terms_drop drop_family_guarded]
  and put_reserved_settled = keeps_settled [OF ignores_terms_put put_reserved_guarded]

lemma settled_tables [simp]: "settled L view (s\<lparr>tables := x\<rparr>) = settled L view s"
  by (simp add: settled_iff handles_ok_def)

lemma check_format_settled:
  assumes "rocksdb_laws R view contents"
  shows "keeps (settled L view) (check_format R)"
  using put_reserved_settled [OF assms, of format_key L format_version "''Writing the store format''"]
  by (auto simp: keeps_def check_format_def split: prod.splits)

lemma read_tables_settled:
  assumes "rocksdb_laws R view contents"
  shows "keeps (settled L view) (read_tables L' R)"
proof (rule keepsI)
  fix s assume g: "settled L view s"
  obtain st raw where get: "rdb_get R (database s) default_family schema_key = (st, raw)" by fastforce
  define t where "t = (if st = Ok_status then s\<lparr>tables := to_schema L' raw\<rparr> else s)"
  have "keeps (settled L view) (andthen
      (for_each (drop_family R) (filter (\<lambda>name. name \<noteq> default_family \<and> name \<notin> set (schema_names (tables t)))
        (map fst (handles t))))
      (\<lambda>_. for_each (open_family R) (schema_names (tables t))))"
    by (intro keeps_andthen keeps_for_each_set) (auto intro: drop_family_settled [OF assms] open_family_settled [OF assms])
  moreover have "settled L view t" using g by (simp add: t_def)
  ultimately show "settled L view (snd (read_tables L' R s))"
    using get by (simp add: read_tables_def t_def [symmetric] keeps_def Let_def)
qed

lemma handles_of_names:
  "map_ok m \<Longrightarrow> map_ok (fold (\<lambda>name m. map_put name name m) names m)"
  "map_of (fold (\<lambda>name m. map_put name name m) names m) n = (if n \<in> set names then Some n else map_of m n)"
  by (induction names arbitrary: m) auto

lemma opened_settled:
  assumes "dom (view db) = set names" and "default_family \<in> dom (view db)" and "fenced L (view db)"
  shows "settled L view (opened db names random)"
  using assms handles_of_names(1) [of "[]" names] handles_of_names(2) [of names "[]"]
  by (auto simp: settled_iff handles_ok_def opened_def dom_def split: if_splits)

end
