(* ===== verification/Store_Files.thy ===== *)
theory Store_Files
  imports Store_Fence
begin

text \<open>
  Files of records: what importing a file takes in and what clearing one gives up, what a scan pages
  through and what an export walks.
\<close>

section \<open>Raising the terms a file carries\<close>

definition raise_ops :: "partition_terms \<Rightarrow> partition_terms \<Rightarrow> nat list \<Rightarrow> batch_op list" where
  "raise_ops carried held_terms ps =
     map (\<lambda>p. Batch_put default_family (term_key p) (int_to_string (carried p)))
       (filter (\<lambda>p. carried p > held_terms p) ps)"

lemma raise_batchE:
  assumes "raise_batch R carried what ps ops s = (r, s')" and "rocksdb_laws R view contents"
  obtains (ok) "r = Inr (ops @ raise_ops carried (terms s) ps)" and "s' = s"
  | (failed) e db where "r = Inl e" and "s' = s\<lparr>database := db\<rparr>" and "view db = view (database s)"
  using assms
proof (induction ps arbitrary: ops thesis)
  case Nil
  then show ?case by (simp add: raise_ops_def)
next
  case (Cons p ps)
  show ?case
  proof (cases "carried p > terms s p")
    case True
    let ?op = "Batch_put default_family (term_key p) (int_to_string (carried p))"
    obtain r1 s1 where b: "batch_put R ops ?op what s = (r1, s1)" by fastforce
    from b Cons.prems(4) show ?thesis
    proof (cases rule: batch_putE)
      case ok
      then have run: "raise_batch R carried what ps (ops @ [?op]) s = (r, s')"
        using Cons.prems(3) b True by (simp add: andthen_app)
      show ?thesis
        by (rule Cons.IH [OF _ _ run Cons.prems(4)]) (use Cons.prems(1,2) True in \<open>auto simp: raise_ops_def\<close>)
    next
      case (failed e db)
      then show ?thesis using Cons.prems(2,3) b True by (auto simp: andthen_app)
    qed
  next
    case False
    then have run: "raise_batch R carried what ps ops s = (r, s')" using Cons.prems(3) by simp
    show ?thesis
      by (rule Cons.IH [OF _ _ run Cons.prems(4)]) (use Cons.prems(1,2) False in \<open>auto simp: raise_ops_def\<close>)
  qed
qed

lemma disk_term_raise_ops:
  assumes "numbers_ok L" and "default_family \<in> dom w" and "\<And>p. p \<in> set ps \<Longrightarrow> p < partition_count"
    and "\<And>p. in_int64 (carried p)" and "q < partition_count"
  shows "disk_term L (apply_batch (raise_ops carried h ps) w) q =
    (if q \<in> set ps \<and> carried q > h q then carried q else disk_term L w q)"
  using assms(2,3)
proof (induction ps arbitrary: w)
  case (Cons p ps)
  have small: "p < 65536" "q < 65536" using Cons.prems(2) [of p] assms(5) by (simp_all add: partition_count_def)
  show ?case
  proof (cases "carried p > h p")
    case True
    let ?w = "apply_op (Batch_put default_family (term_key p) (int_to_string (carried p))) w"
    have "disk_term L (apply_batch (raise_ops carried h ps) ?w) q =
        (if q \<in> set ps \<and> carried q > h q then carried q else disk_term L ?w q)"
      using Cons.prems by (intro Cons.IH) simp_all
    with True show ?thesis
      using disk_term_raise [OF assms(1,4) Cons.prems(1) small, of p] by (auto simp: raise_ops_def)
  next
    case False
    then show ?thesis using Cons.IH [of w] Cons.prems by (auto simp: raise_ops_def)
  qed
qed (simp add: raise_ops_def)

lemma raise_ops_other: "t \<noteq> default_family \<Longrightarrow> apply_batch (raise_ops carried h ps) w t = w t"
  by (rule apply_batch_other) (auto simp: raise_ops_def)

lemma record_at_raise_ops [simp]: "record_at (apply_batch (raise_ops carried h ps) w) t k = record_at w t k"
  by (induction ps arbitrary: w) (auto simp: raise_ops_def)

text \<open>After the terms are raised none a file carries is above them, in memory and on disk alike.\<close>

lemma raise_termsE:
  assumes "raise_terms R carried what s = (r, s')" and "rocksdb_laws R view contents" and "numbers_ok L"
    and "guarded L view s" and "\<And>p. in_int64 (carried p)"
  obtains (ok) db ts where "r = Inr ()" and "s' = s\<lparr>database := db, terms := ts\<rparr>" and "guarded L view s'"
      and "\<And>p. p < partition_count \<Longrightarrow> carried p \<le> disk_term L (view db) p"
      and "\<And>t. t \<noteq> default_family \<Longrightarrow> view db t = view (database s) t"
      and "record_at (view db) = record_at (view (database s))"
  | (failed) e db where "r = Inl e" and "s' = s\<lparr>database := db\<rparr>" and "view db = view (database s)"
proof -
  have agree: "terms s p = disk_term L (view (database s)) p" "0 \<le> terms s p" if "p < partition_count" for p
    using assms(4) that by (auto simp: guarded_def repo_ok_def fenced_def)
  let ?ps = "[0..<partition_count]"
  obtain r1 s1 where b: "raise_batch R carried what ?ps [] s = (r1, s1)" by fastforce
  note run = assms(1) [unfolded raise_terms_def Let_def andthen_app b]
  from b assms(2) show thesis
  proof (cases rule: raise_batchE)
    case (failed e db)
    then show thesis using run that(2) by auto
  next
    case batch: ok
    let ?ops = "raise_ops carried (terms s) ?ps"
    show thesis
    proof (cases "?ops = []")
      case True
      then have "carried p \<le> terms s p" if "p < partition_count" for p
        using that by (auto simp: raise_ops_def filter_empty_conv not_less)
      then show thesis
        using run batch True ok [of "terms s" "database s"] assms(4) agree by auto
    next
      case False
      obtain r2 s2 where w: "write_batch R ?ops what s = (r2, s2)" by fastforce
      from w assms(2) show thesis
      proof (cases rule: write_batchE)
        case (failed e db)
        then show thesis using run batch False w that(2) by (auto simp: andthen_app)
      next
        case written: (ok db)
        define ts where "ts = (\<lambda>p. let c = (if p < partition_count \<and> carried p > terms s p then carried p else 0)
          in if c > 0 then c else terms s p)"
        have s': "r = Inr ()" "s' = s\<lparr>database := db, terms := ts\<rparr>"
          using run batch False w written by (auto simp: andthen_app ts_def Let_def cong del: if_weak_cong)
        have d: "default_family \<in> dom (view (database s))" using assms(4) by (simp add: guarded_def repo_ok_def)
        have disk: "disk_term L (view db) p = (if carried p > terms s p then carried p else disk_term L (view (database s)) p)"
          if "p < partition_count" for p
          using written d that assms(3,5) disk_term_raise_ops [of L "view (database s)" ?ps carried p "terms s"] by simp
        have ts: "ts p = disk_term L (view db) p" if "p < partition_count" for p
          using disk [OF that] agree [OF that] that by (simp add: ts_def Let_def)
        have others: "view db t = view (database s) t" if "t \<noteq> default_family" for t
          using written that by (simp add: raise_ops_other)
        have "repo_ok L view s'"
          unfolding s' using assms(4) ts written by (intro repo_ok_same_families) (simp_all add: guarded_def)
        moreover have "fenced L (view db)"
        proof (rule fencedI [of L "view (database s)"])
          show "fenced L (view (database s))" using assms(4) by (simp add: guarded_def)
          show "disk_term L (view (database s)) p \<le> disk_term L (view db) p" if "p < partition_count" for p
            using disk [OF that] agree [OF that] by simp
        qed (use others in auto)
        ultimately show thesis
          using ok [of ts db] s' disk agree others written by (auto simp: guarded_def fun_eq_iff)
      qed
    qed
  qed
qed

section \<open>Importing a file\<close>

text \<open>The entries of a file a table takes: those it has nothing for and those it holds earlier.\<close>

definition taken_from :: "family_view \<Rightarrow> entries \<Rightarrow> entries" where
  "taken_from m kvs = filter (\<lambda>(k, v). case m k of None \<Rightarrow> True | Some h \<Rightarrow> is_newer v h) kvs"

lemma get_answers:
  assumes "rocksdb_laws R view contents" and "reads_answer R" and "view db fam = Some m"
  obtains (there) v where "rdb_get R db fam k = (Ok_status, v)" and "m k = Some v"
  | (absent) v where "rdb_get R db fam k = (Not_found_status, v)" and "m k = None"
proof -
  obtain st v where g: "rdb_get R db fam k = (st, v)" by fastforce
  then have "st = Ok_status \<or> st = Not_found_status" using assms(2) unfolding reads_answer_def by (metis fst_conv)
  then show thesis using rdb_getD [OF assms(1,3) g] g there absent by blast
qed

lemma count_entry_counts:
  assumes "rocksdb_laws R view contents" and "reads_answer R" and "view db fam = Some m"
  shows "i_records (count_entry R db fam (k, v) n) = i_records n + length (taken_from m [(k, v)])"
    and "i_held (count_entry R db fam (k, v) n) = i_held n + (if m k = None then 0 else 1)"
  by (cases rule: get_answers [OF assms, of k]; simp add: count_entry_def taken_from_def Let_def)+

lemma count_entries_records:
  assumes "rocksdb_laws R view contents" and "reads_answer R" and "view db fam = Some m"
  shows "i_records (fold (count_entry R db fam) kvs n) = i_records n + length (taken_from m kvs)"
proof (induction kvs arbitrary: n)
  case (Cons e kvs)
  then show ?case by (cases e) (simp add: count_entry_counts [OF assms], simp add: taken_from_def)
qed (simp add: taken_from_def)

lemma count_entries_held:
  assumes "rocksdb_laws R view contents" and "reads_answer R" and "view db fam = Some m"
  shows "i_held (fold (count_entry R db fam) kvs n) = i_held n + length (filter (\<lambda>(k, v). m k \<noteq> None) kvs)"
proof (induction kvs arbitrary: n)
  case (Cons e kvs)
  then show ?case by (cases e) (simp add: count_entry_counts [OF assms])
qed simp

lemma count_entry_carried:
  "i_carried (count_entry R db fam (k, v) n) =
     (if partition_held k < partition_count \<and> v_term (version_of v) > i_carried n (partition_held k)
      then (i_carried n)(partition_held k := v_term (version_of v)) else i_carried n)"
  by (cases "rdb_get R db fam k") (auto simp: count_entry_def Let_def)

lemma carried_rises: "i_carried n p \<le> i_carried (fold (count_entry R db fam) kvs n) p"
proof (induction kvs arbitrary: n)
  case (Cons e kvs)
  have "i_carried n p \<le> i_carried (count_entry R db fam e n) p"
    by (cases e) (auto simp: count_entry_carried)
  then show ?case using Cons.IH [of "count_entry R db fam e n"] by simp
qed simp

lemma carried_covers:
  "(k, v) \<in> set kvs \<Longrightarrow> partition_held k < partition_count \<Longrightarrow>
     v_term (version_of v) \<le> i_carried (fold (count_entry R db fam) kvs n) (partition_held k)"
proof (induction kvs arbitrary: n)
  case (Cons e kvs)
  show ?case
  proof (cases "(k, v) = e")
    case True
    have "v_term (version_of v) \<le> i_carried (count_entry R db fam (k, v) n) (partition_held k)"
      using Cons.prems(2) by (auto simp: count_entry_carried)
    also have "\<dots> \<le> i_carried (fold (count_entry R db fam) kvs (count_entry R db fam (k, v) n)) (partition_held k)"
      by (rule carried_rises)
    finally show ?thesis using True by simp
  next
    case False
    then show ?thesis using Cons by simp
  qed
qed simp

lemma in_int64_version [simp]: "in_int64 (v_term (version_of v))"
proof -
  have "- (2 ^ 63) \<le> sint (w :: uint64) \<and> sint w < 2 ^ 63" for w
    using sint_range_size [of w] by (simp add: word_size)
  then show ?thesis by (simp add: version_of_def in_int64_def)
qed

lemma carried_int64:
  "(\<And>p. in_int64 (i_carried n p)) \<Longrightarrow> in_int64 (i_carried (fold (count_entry R db fam) kvs n) p)"
proof (induction kvs arbitrary: n)
  case (Cons e kvs)
  have "in_int64 (i_carried (count_entry R db fam e n) q)" for q
    using Cons.prems by (cases e) (auto simp: count_entry_carried)
  then show ?case using Cons.IH [of "count_entry R db fam e n"] by simp
qed simp

text \<open>The second walk keeps exactly what there is to take.\<close>

lemma keep_entriesE:
  assumes "keep_entries R fam what kvs kept s = (r, s')" and "rocksdb_laws R view contents" and "reads_answer R"
    and "view (database s) fam = Some m"
  obtains (ok) "r = Inr (kept @ taken_from m kvs)" and "s' = s" | (failed) e where "r = Inl e" and "s' = s"
  using assms(1)
proof (induction kvs arbitrary: kept thesis)
  case Nil
  then show ?case by (simp add: taken_from_def)
next
  case (Cons e kvs)
  obtain k v where e: "e = (k, v)" by fastforce
  let ?take = "case m k of None \<Rightarrow> True | Some h \<Rightarrow> is_newer v h"
  have run: "keep_entries R fam what (e # kvs) kept s =
      (if ?take
       then andthen (\<lambda>s. check R (sst_put R (database s) kept (k, v)) what s)
              (\<lambda>_. keep_entries R fam what kvs (kept @ [(k, v)])) s
       else keep_entries R fam what kvs kept s)"
    by (cases rule: get_answers [OF assms(2-4), of k]) (simp_all add: e Let_def)
  show ?case
  proof (cases ?take)
    case True
    then have kept: "taken_from m (e # kvs) = (k, v) # taken_from m kvs" by (simp add: taken_from_def e)
    show ?thesis
    proof (cases "sst_put R (database s) kept (k, v) = Ok_status")
      case put: True
      then have "keep_entries R fam what kvs (kept @ [(k, v)]) s = (r, s')"
        using Cons.prems(3) run True by (simp add: andthen_app check_def)
      then show ?thesis using Cons.IH [of "kept @ [(k, v)]"] Cons.prems(1,2) kept by auto
    next
      case False
      then show ?thesis using Cons.prems(2,3) run True by (auto simp: andthen_app check_def split: if_splits)
    qed
  next
    case False
    then have "taken_from m (e # kvs) = taken_from m kvs" by (simp add: taken_from_def e)
    then show ?thesis using Cons run False by auto
  qed
qed

lemma taken_from_set: "(k, v) \<in> set (taken_from m kvs) \<Longrightarrow> (k, v) \<in> set kvs"
  by (auto simp: taken_from_def)

lemma ascending_taken: "ascending kvs \<Longrightarrow> ascending (taken_from m kvs)"
  by (simp add: taken_from_def ascending_filter)

section \<open>Outcomes of the steps of an import\<close>

text \<open>A step that throws leaves the store as it viewed it and touches nothing but the database and the file names.\<close>

definition untouched :: "('db \<Rightarrow> store_view) \<Rightarrow> 'db repo \<Rightarrow> 'db repo \<Rightarrow> bool" where
  "untouched view s s' \<longleftrightarrow>
     view (database s') = view (database s) \<and> handles s' = handles s \<and> tables s' = tables s \<and>
     instance_name s' = instance_name s \<and> counts s' = counts s \<and> counts_reserved s' = counts_reserved s \<and>
     terms s' = terms s"

lemma untouched_refl [simp]: "untouched view s s"
  by (simp add: untouched_def)

lemma untouched_trans: "untouched view s t \<Longrightarrow> untouched view t u \<Longrightarrow> untouched view s u"
  by (simp add: untouched_def)

lemma untouched_transfers [simp]: "untouched view s (s\<lparr>transfers := n\<rparr>)"
  "untouched view (s\<lparr>transfers := n\<rparr>) s' = untouched view s s'"
  by (simp_all add: untouched_def)

lemma untouched_database [simp]: "view db = view (database s) \<Longrightarrow> untouched view s (s\<lparr>database := db\<rparr>)"
  by (simp add: untouched_def)

lemma untouched_view: "untouched view s s' \<Longrightarrow> view (database s') = view (database s)"
  by (simp add: untouched_def)

lemma untouched_guarded: "untouched view s s' \<Longrightarrow> guarded L view s' = guarded L view s"
  by (simp add: untouched_def guarded_def repo_ok_def)

lemma outcome_check:
  "(st = Ok_status \<Longrightarrow> ok () s) \<Longrightarrow> bad s \<Longrightarrow> outcome (check R st what) s ok bad"
  by (simp add: check_def)

lemma outcome_check_here:
  "(st s = Ok_status \<Longrightarrow> ok () s) \<Longrightarrow> bad s \<Longrightarrow> outcome (\<lambda>s. check R (st s) what s) s ok bad"
  by (simp add: check_def outcome_def)

lemma outcome_transfer_name:
  "ok (instance_name s @ ''-'' @ to_string (unat (transfers s)) @ ''.sst'') (s\<lparr>transfers := transfers s + 1\<rparr>) \<Longrightarrow>
     outcome transfer_name s ok bad"
  by (simp add: transfer_name_def outcome_def)

lemma outcome_table_handle:
  assumes "repo_ok L view s" and "\<And>m. view (database s) t = Some m \<Longrightarrow> ok t s" and "bad s"
  shows "outcome (table_handle t) s ok bad"
proof (cases "map_of (handles s) t")
  case (Some h)
  then obtain m where "view (database s) t = Some m" and "h = t" using repo_ok_handle [OF assms(1)] by blast
  with Some assms(2) show ?thesis by (simp add: outcome_def table_handle_def)
qed (simp add: outcome_def table_handle_def assms(3))

lemma outcome_ingest:
  assumes "rocksdb_laws R view contents" and "view (database s) t = Some m"
    and "\<And>db. view db = (view (database s))(t \<mapsto> m ++ map_of (contents file)) \<Longrightarrow> ok () (s\<lparr>database := db\<rparr>)"
    and "\<And>s'. untouched view s s' \<Longrightarrow> bad s'"
  shows "outcome (ingest R t file what) s ok bad"
proof (rule outcomeI)
  fix a s' assume run: "ingest R t file what s = (Inr a, s')"
  from run assms(1,2) show "ok a s'" using assms(3) by (cases rule: ingestE) auto
next
  fix e s' assume run: "ingest R t file what s = (Inl e, s')"
  from run assms(1,2) show "bad s'" using assms(4) by (cases rule: ingestE) auto
qed

lemma outcome_keep_entries:
  assumes "rocksdb_laws R view contents" and "reads_answer R" and "view (database s) t = Some m"
    and "ok (kept @ taken_from m kvs) s" and "bad s"
  shows "outcome (keep_entries R t what kvs kept) s ok bad"
proof (rule outcomeI)
  fix a s' assume run: "keep_entries R t what kvs kept s = (Inr a, s')"
  from run assms(1-3) show "ok a s'" using assms(4) by (cases rule: keep_entriesE) auto
next
  fix e s' assume run: "keep_entries R t what kvs kept s = (Inl e, s')"
  from run assms(1-3) show "bad s'" using assms(5) by (cases rule: keep_entriesE) auto
qed

lemma outcome_open_given:
  "ok () (s\<lparr>transfers := transfers s + 1\<rparr>) \<Longrightarrow> bad (s\<lparr>transfers := transfers s + 1\<rparr>) \<Longrightarrow>
     outcome (open_given R file what) s ok bad"
  by (simp add: outcome_def open_given_def transfer_name_def andthen_app check_def)

text \<open>Taking the kept entries in: the table holds them over what it held, and nothing else changed.\<close>

lemma outcome_ingest_kept:
  assumes "rocksdb_laws R view contents" and "reads_answer R" and "view (database s) t = Some m"
    and "st = Ok_status \<Longrightarrow> ascending kvs"
    and "\<And>db n. st = Ok_status \<Longrightarrow> view db = (view (database s))(t \<mapsto> m ++ map_of (taken_from m kvs)) \<Longrightarrow>
      ok (length (taken_from m kvs)) (s\<lparr>transfers := n, database := db\<rparr>)"
    and "\<And>s'. untouched view s s' \<Longrightarrow> bad s'"
  shows "outcome (ingest_kept R t what kvs st) s ok bad"
proof -
  define u where "u = s\<lparr>transfers := transfers s + 1\<rparr>"
  have m: "view (database u) t = Some m" and bad: "\<And>s'. untouched view u s' \<Longrightarrow> bad s'"
    using assms(3,6) by (auto simp: u_def)
  have ok: "st = Ok_status \<Longrightarrow> view db = (view (database u))(t \<mapsto> m ++ map_of (taken_from m kvs)) \<Longrightarrow>
      ok (length (taken_from m kvs)) (u\<lparr>database := db\<rparr>)" for db
    using assms(5) [of db "transfers u"] by (simp add: u_def)
  let ?kept = "taken_from m kvs"
  have last: "outcome (\<lambda>s. if ?kept = [] then ret 0 s
      else let (st, file) = sst_finish R (database s) ?kept
           in andthen (check R st what) (\<lambda>_. andthen (ingest R t file what) (\<lambda>_. ret (length ?kept))) s) u ok bad"
    if "st = Ok_status"
  proof (cases "?kept = []")
    case True
    then show ?thesis using ok [of "database u"] m that by (auto simp: outcome_def fun_upd_idem)
  next
    case False
    obtain st' sst where f: "sst_finish R (database u) ?kept = (st', sst)" by fastforce
    have "outcome (andthen (check R st' what) (\<lambda>_. andthen (ingest R t sst what) (\<lambda>_. ret (length ?kept)))) u ok bad"
    proof (rule outcome_andthen, rule outcome_check)
      assume "st' = Ok_status"
      then have "contents sst = ?kept"
        using sst_finishD [OF assms(1), of "database u" ?kept sst] f assms(4) [OF that] by (simp add: ascending_taken)
      then show "outcome (andthen (ingest R t sst what) (\<lambda>_. ret (length ?kept))) u ok bad"
        using ok [OF that] bad by (intro outcome_andthen outcome_ingest [OF assms(1) m]) simp_all
    qed (simp add: bad)
    with False f show ?thesis by (simp add: outcome_def)
  qed
  show ?thesis
    unfolding ingest_kept_def
    by (intro outcome_andthen outcome_transfer_name, fold u_def)
       (intro outcome_check_here outcome_andthen outcome_check outcome_keep_entries [OF assms(1,2) m]; simp only: append_Nil last bad untouched_refl)
qed

lemma outcome_raise_terms:
  assumes "rocksdb_laws R view contents" and "numbers_ok L" and "guarded L view s" and "\<And>p. in_int64 (carried p)"
    and "\<And>s'. guarded L view s' \<Longrightarrow> (\<And>p. p < partition_count \<Longrightarrow> carried p \<le> disk_term L (view (database s')) p) \<Longrightarrow>
      (\<And>t. t \<noteq> default_family \<Longrightarrow> view (database s') t = view (database s) t) \<Longrightarrow>
      record_at (view (database s')) = record_at (view (database s)) \<Longrightarrow>
      handles s' = handles s \<Longrightarrow> tables s' = tables s \<Longrightarrow> ok () s'"
    and "\<And>s'. untouched view s s' \<Longrightarrow> bad s'"
  shows "outcome (raise_terms R carried what) s ok bad"
proof (rule outcomeI)
  fix a s' assume run: "raise_terms R carried what s = (Inr a, s')"
  from run assms(1-4) show "ok a s'"
  proof (cases rule: raise_termsE)
    case (ok db ts)
    with assms(5) show ?thesis by simp
  qed simp
next
  fix e s' assume run: "raise_terms R carried what s = (Inl e, s')"
  from run assms(1-4) show "bad s'" using assms(6) by (cases rule: raise_termsE) auto
qed

text \<open>Putting entries no later than the terms into a table keeps the object and the fence.\<close>

lemma guarded_take:
  assumes "guarded L view s" and "t \<noteq> default_family" and "view (database s) t = Some m"
    and "view db = (view (database s))(t \<mapsto> m ++ map_of kvs)"
    and "\<And>k v. (k, v) \<in> set kvs \<Longrightarrow> partition_held k < partition_count \<Longrightarrow>
      v_term (version_of v) \<le> disk_term L (view (database s)) (partition_held k)"
  shows "guarded L view (s\<lparr>database := db\<rparr>)"
proof -
  have "dom (view db) = dom (view (database s))" using assms(3,4) by (auto simp: dom_def)
  then have "repo_ok L view (s\<lparr>database := db, terms := terms s\<rparr>)"
    using assms by (intro repo_ok_same_families) (auto simp: guarded_def repo_ok_def)
  moreover have "fenced L (view db)"
  proof (rule fencedI [of L "view (database s)"])
    show "fenced L (view (database s))" using assms(1) by (simp add: guarded_def)
    fix t' m' k v
    assume "view db t' = Some m'" "m' k = Some v" "partition_held k < partition_count"
    then show "v_term (version_of v) \<le> disk_term L (view db) (partition_held k) \<or>
        (\<exists>m. view (database s) t' = Some m \<and> m k = Some v)"
      using assms(2-5) by (auto simp: map_add_Some_iff dest!: map_of_SomeD split: if_splits)
  qed (simp add: assms(2,4))
  ultimately show ?thesis by (simp add: guarded_def)
qed

text \<open>What an import comes to.\<close>

definition imported :: "libs \<Rightarrow> ('db \<Rightarrow> store_view) \<Rightarrow> string \<Rightarrow> entries \<Rightarrow> 'db repo \<Rightarrow> nat \<Rightarrow> 'db repo \<Rightarrow> bool" where
  "imported L view t kvs s n s' \<longleftrightarrow>
     (\<exists>m. view (database s) t = Some m \<and> n = length (taken_from m kvs) \<and>
        view (database s') t = Some (m ++ map_of (taken_from m kvs))) \<and>
     (\<forall>t'. t' \<noteq> t \<longrightarrow> t' \<noteq> default_family \<longrightarrow> view (database s') t' = view (database s) t') \<and>
     record_at (view (database s')) default_family = record_at (view (database s)) default_family \<and>
     guarded L view s' \<and> handles s' = handles s \<and> tables s' = tables s"

definition unmoved :: "libs \<Rightarrow> ('db \<Rightarrow> store_view) \<Rightarrow> 'db repo \<Rightarrow> 'db repo \<Rightarrow> bool" where
  "unmoved L view s s' \<longleftrightarrow>
     record_at (view (database s')) = record_at (view (database s)) \<and> guarded L view s' \<and>
     handles s' = handles s \<and> tables s' = tables s"

lemma unmoved_untouched: "guarded L view s \<Longrightarrow> untouched view s s' \<Longrightarrow> unmoved L view s s'"
  by (simp add: unmoved_def untouched_guarded) (simp add: untouched_def)

text \<open>What follows the raising of the terms: the file as it is, the entries worth keeping, or nothing.\<close>

definition take_file :: "'db rocksdb \<Rightarrow> string \<Rightarrow> string \<Rightarrow> string \<Rightarrow> nat \<Rightarrow> nat \<Rightarrow> ('db, nat) repo_exec" where
  "take_file R t file what records held_count =
     (if records = 0 then ret 0
      else if held_count = 0 then andthen (ingest R t file what) (\<lambda>_. ret records)
      else (\<lambda>s. let (again, st) = sst_read R (database s) file in ingest_kept R t what again st s))"

lemma take_file_outcome:
  assumes "rocksdb_laws R view contents" and "reads_answer R" and "view (database s) t = Some m"
    and "records = length (taken_from m (contents file))"
    and "held_count = length (filter (\<lambda>(k, v). m k \<noteq> None) (contents file))"
    and "\<And>w db. untouched view s w \<Longrightarrow> view db = (view (database s))(t \<mapsto> m ++ map_of (taken_from m (contents file))) \<Longrightarrow>
      ok records (w\<lparr>database := db\<rparr>)"
    and "\<And>s'. untouched view s s' \<Longrightarrow> bad s'"
  shows "outcome (take_file R t file what records held_count) s ok bad"
proof -
  consider (none) "records = 0" | (whole) "records \<noteq> 0" "held_count = 0" | (some) "records \<noteq> 0" "held_count \<noteq> 0"
    by blast
  then show ?thesis
  proof cases
    case none
    then have "taken_from m (contents file) = []" using assms(4) by simp
    then show ?thesis using none assms(3) assms(6) [of s "database s"] by (simp add: take_file_def fun_upd_idem)
  next
    case whole
    then have "taken_from m (contents file) = contents file"
      using assms(5) by (auto simp: taken_from_def filter_id_conv filter_empty_conv split: option.splits)
    then show ?thesis
      using whole assms(6) [of s] assms(7)
      by (simp add: take_file_def) (intro outcome_andthen outcome_ingest [OF assms(1,3)], simp_all)
  next
    case some
    obtain again st where a: "sst_read R (database s) file = (again, st)" by fastforce
    have "st = Ok_status \<Longrightarrow> again = contents file" "st = Ok_status \<Longrightarrow> ascending again"
      using sst_readD [OF assms(1)] a by blast+
    then have "outcome (ingest_kept R t what again st) s ok bad"
      using assms(4,7) assms(6) [of "s\<lparr>transfers := _\<rparr>"]
      by (intro outcome_ingest_kept [OF assms(1-3)]) auto
    then show ?thesis using some a by (simp add: take_file_def outcome_def)
  qed
qed

lemma import_records_unfold:
  "file \<noteq> [] \<Longrightarrow> import_records R t file =
     (let what = ''Importing a file into \"'' @ t @ ''\"''
      in andthen (table_handle t) (\<lambda>handle.
         andthen (open_given R file what) (\<lambda>_ s.
           let (kvs, st) = sst_read R (database s) file;
               n = fold (count_entry R (database s) handle) kvs \<lparr>i_records = 0, i_held = 0, i_carried = (\<lambda>_. 0)\<rparr>
           in andthen (check R st what) (\<lambda>_.
              andthen (raise_terms R (i_carried n) what) (\<lambda>_.
                take_file R handle file what (i_records n) (i_held n))) s)))"
  by (simp add: import_records_def take_file_def)

lemma imported_by_take:
  assumes "view (database s) t = Some m" and "t \<noteq> default_family" and "guarded L view v"
    and "\<And>t. t \<noteq> default_family \<Longrightarrow> view (database v) t = view (database s) t"
    and "record_at (view (database v)) = record_at (view (database s))" and "handles v = handles s" and "tables v = tables s"
    and "\<And>k x. (k, x) \<in> set kvs \<Longrightarrow> partition_held k < partition_count \<Longrightarrow>
      v_term (version_of x) \<le> disk_term L (view (database v)) (partition_held k)"
    and "untouched view v w" and "view db = (view (database v))(t \<mapsto> m ++ map_of (taken_from m kvs))"
  shows "imported L view t kvs s (length (taken_from m kvs)) (w\<lparr>database := db\<rparr>)"
proof -
  have w: "guarded L view w" "view (database w) = view (database v)" "handles w = handles s" "tables w = tables s"
    using assms(3,6,7,9) by (simp_all add: untouched_guarded) (simp_all add: untouched_def)
  have "guarded L view (w\<lparr>database := db\<rparr>)"
    using w assms(1,2,4,8,10) taken_from_set [of _ _ m kvs] by (intro guarded_take [of L view w t m]) auto
  moreover have "record_at (view db) default_family = record_at (view (database s)) default_family"
    using assms(2,5,10) by (auto simp: record_at_def fun_eq_iff)
  ultimately show ?thesis
    using w assms(1,2,4,10) by (auto simp: imported_def)
qed

lemma import_records_outcome:
  assumes "rocksdb_laws R view contents" and "reads_answer R" and "numbers_ok L" and "guarded L view s"
    and "t \<noteq> default_family" and "file \<noteq> []"
  shows "outcome (import_records R t file) s (imported L view t (contents file) s) (unmoved L view s)"
proof -
  have ok: "repo_ok L view s" using assms(4) by (simp add: guarded_def)
  define u where "u = s\<lparr>transfers := transfers s + 1\<rparr>"
  have u: "guarded L view u" "view (database u) = view (database s)" "handles u = handles s" "tables u = tables s"
    using assms(4) by (simp_all add: u_def)
  have bad: "untouched view u s' \<Longrightarrow> unmoved L view s s'" for s'
    using assms(4) unmoved_untouched by (auto simp: u_def)
  obtain kvs st where r: "sst_read R (database u) file = (kvs, st)" by fastforce
  have kvs: "kvs = contents file" if "st = Ok_status" using sst_readD [OF assms(1)] r that by blast
  define n where "n = fold (count_entry R (database u) t) kvs \<lparr>i_records = 0, i_held = 0, i_carried = (\<lambda>_. 0)\<rparr>"
  have body: "outcome (andthen (check R st what) (\<lambda>_. andthen (raise_terms R (i_carried n) what)
        (\<lambda>_. take_file R t file what (i_records n) (i_held n)))) u
      (imported L view t (contents file) s) (unmoved L view s)"
    if m: "view (database s) t = Some m" for m what
  proof (intro outcome_andthen outcome_check outcome_raise_terms [OF assms(1,3) u(1)])
    assume st: "st = Ok_status"
    have um: "view (database u) t = Some m" using m u by simp
    show "in_int64 (i_carried n p)" for p
      unfolding n_def by (rule carried_int64) (simp add: in_int64_def)
    fix v assume v: "guarded L view v" "\<And>p. p < partition_count \<Longrightarrow> i_carried n p \<le> disk_term L (view (database v)) p"
      "\<And>t. t \<noteq> default_family \<Longrightarrow> view (database v) t = view (database u) t"
      "record_at (view (database v)) = record_at (view (database u))" "handles v = handles u" "tables v = tables u"
    have low: "v_term (version_of x) \<le> disk_term L (view (database v)) (partition_held k)"
      if "(k, x) \<in> set (contents file)" "partition_held k < partition_count" for k x
      using carried_covers [of k x kvs R "database u" t] kvs [OF st] that v(2) [of "partition_held k"]
      unfolding n_def by (meson order_trans)
    have recs: "i_records n = length (taken_from m (contents file))"
      and held: "i_held n = length (filter (\<lambda>(k, v). m k \<noteq> None) (contents file))"
      using count_entries_records [OF assms(1,2) um] count_entries_held [OF assms(1,2) um] kvs [OF st]
      by (simp_all add: n_def)
    show "outcome (take_file R t file what (i_records n) (i_held n)) v
        (imported L view t (contents file) s) (unmoved L view s)"
    proof (rule take_file_outcome [OF assms(1,2) _ recs held])
      show "view (database v) t = Some m" using v(3) [OF assms(5)] um by simp
      show "imported L view t (contents file) s (i_records n) (w\<lparr>database := db\<rparr>)"
        if "untouched view v w" "view db = (view (database v))(t \<mapsto> m ++ map_of (taken_from m (contents file)))" for w db
        unfolding recs using imported_by_take [OF m assms(5) v(1) _ _ _ _ low that] v u by simp
      show "unmoved L view s s'" if "untouched view v s'" for s'
        using that v u by (simp add: unmoved_def untouched_guarded) (simp add: untouched_def)
    qed
  qed (use bad in simp_all)
  show ?thesis
    unfolding import_records_unfold [OF assms(6)] Let_def
    by (intro outcome_andthen outcome_table_handle [OF ok] outcome_open_given, fold u_def)
       (use body r bad in \<open>simp_all add: n_def [symmetric] outcome_def unmoved_untouched [OF assms(4)]\<close>)
qed

lemma map_of_taken:
  assumes "ascending kvs"
  shows "map_of (taken_from m kvs) k =
    (case map_of kvs k of
       None \<Rightarrow> None
     | Some v \<Rightarrow> (case m k of None \<Rightarrow> Some v | Some h \<Rightarrow> if is_newer v h then Some v else None))"
  using ascending_distinct [OF assms]
proof (induction kvs)
  case (Cons e kvs)
  obtain k' v' where e: "e = (k', v')" by fastforce
  have "map_of (taken_from m kvs) k' = None"
    using Cons.prems e taken_from_set [of k' _ m kvs] by (force simp: map_of_eq_None_iff)
  then show ?case using Cons e by (auto simp: taken_from_def split: option.splits)
qed (simp add: taken_from_def)

lemma imported_stored_at:
  assumes "imported L view t kvs s n s'" and "ascending kvs"
  shows "stored_at view s' t' k =
    (case (if t' = t then map_of kvs (store_key k) else None) of
       None \<Rightarrow> stored_at view s t' k
     | Some v \<Rightarrow> Some (case stored_at view s t' k of None \<Rightarrow> v | Some h \<Rightarrow> if is_newer v h then v else h))"
proof (cases "t' = t")
  case True
  obtain m where "view (database s) t = Some m" "view (database s') t = Some (m ++ map_of (taken_from m kvs))"
    using assms(1) by (auto simp: imported_def)
  with True show ?thesis
    using map_of_taken [OF assms(2), of m "store_key k"]
    by (auto simp: stored_at_def map_add_def split: option.splits)
next
  case False
  then have "record_at (view (database s')) t' = record_at (view (database s)) t'"
    using assms(1) by (cases "t' = default_family") (auto simp: imported_def record_at_def fun_eq_iff)
  with False show ?thesis by (simp add: stored_at_def)
qed

section \<open>The properties of importing\<close>


lemma example_repo_guarded: "guarded L mem_view example_repo"
  using example_repo_ok [of L]
  by (auto simp: guarded_def fenced_def example_repo_def mem_view_def disk_term_def disk_number_def default_family_def
      split: if_splits)

lemma mem_reads_answer: "reads_answer mem_rocksdb"
  by (auto simp: reads_answer_def mem_rocksdb_def split: option.splits)

lemma mem_raise_batch: "raise_batch mem_rocksdb carried what ps ops s = (Inr (ops @ raise_ops carried (terms s) ps), s)"
  by (induction ps arbitrary: ops) (auto simp: andthen_app batch_put_def raise_ops_def)

lemma mem_ops_families: "(map_of (fold mem_op ops db) t = None) = (map_of db t = None)"
  using dom_apply_batch [of ops "mem_view db"] mem_view_ops [of ops db]
  by (metis domIff mem_view_def option.map_disc_iff)

lemma mem_raise_terms:
  "\<exists>s'. raise_terms mem_rocksdb carried what s = (Inr (), s') \<and>
     (map_of (database s') t = None) = (map_of (database s) t = None)"
  by (auto simp: raise_terms_def andthen_app mem_raise_batch write_batch_def mem_ops_families)

lemma mem_keep_entries: "\<exists>kept'. keep_entries mem_rocksdb t what kvs kept s = (Inr kept', s)"
  by (induction kvs arbitrary: kept) (auto simp: andthen_app check_def Let_def split: prod.splits)

lemma mem_ingest_run:
  "map_of (database s) t = Some m \<Longrightarrow> ingest mem_rocksdb t file what s =
     (Inr (), s\<lparr>database := map_put t (mem_contents file @ m) (database s)\<rparr>)"
  by (simp add: ingest_def mem_ingest)

lemma mem_import:
  assumes "map_of (handles s) t = Some t" and "map_of (database s) t \<noteq> None" and "file \<noteq> []"
  shows "\<exists>n s'. import_records mem_rocksdb t file s = (Inr n, s')"
proof -
  define u where "u = s\<lparr>transfers := transfers s + 1\<rparr>"
  define what where "what = ''Importing a file into \"'' @ t @ ''\"''"
  define n where "n = fold (count_entry mem_rocksdb (database u) t) (mem_contents file)
    \<lparr>i_records = 0, i_held = 0, i_carried = (\<lambda>_. 0)\<rparr>"
  have g: "open_given mem_rocksdb file what s = (Inr (), u)"
    by (simp add: open_given_def transfer_name_def andthen_app check_def u_def)
  obtain v where v: "raise_terms mem_rocksdb (i_carried n) what u = (Inr (), v)" "map_of (database v) t \<noteq> None"
    using mem_raise_terms [of "i_carried n" what u t] assms(2) by (auto simp: u_def)
  have "\<exists>n s'. take_file mem_rocksdb t file what a b v = (Inr n, s')" for a b
    using v(2) mem_keep_entries [of t what "mem_contents file" "[]" "v\<lparr>transfers := transfers v + 1\<rparr>"]
    by (auto simp: take_file_def andthen_app ingest_kept_def transfer_name_def check_def mem_ingest_run)
  then show ?thesis
    using assms(1) g v(1)
    unfolding import_records_unfold [OF assms(3)] Let_def what_def [symmetric]
    by (simp add: table_handle_def andthen_app check_def n_def [symmetric])
qed

text \<open>A file of one record, taken into a store that held nothing under its key.\<close>

definition example_file :: string where
  "example_file = mem_encode [(store_key ''k'', compose_value (stamp_of 7 1) ''v'')]"

lemma example_file_contents [simp]:
  "mem_contents example_file = [(store_key ''k'', compose_value (stamp_of 7 1) ''v'')]" "example_file \<noteq> []"
  using mem_contents_encode [of "[(store_key ''k'', compose_value (stamp_of 7 1) ''v'')]"]
  by (simp_all add: example_file_def ascending_def) (simp add: mem_encode_def)


section \<open>Clearing what the owner holds\<close>

text \<open>The entries of a file a table may give up: those it holds, and at no later a version.\<close>

definition given_up :: "family_view \<Rightarrow> entries \<Rightarrow> entries" where
  "given_up m kvs = filter (\<lambda>(k, v). case m k of None \<Rightarrow> False | Some h \<Rightarrow> \<not> is_newer h v) kvs"

lemma clear_batch_given_up:
  assumes "rocksdb_laws R view contents" and "reads_answer R" and "view db t = Some m"
  shows "clear_batch R db t kvs = map (\<lambda>(k, v). Batch_delete t k) (given_up m kvs)"
proof (induction kvs)
  case (Cons e kvs)
  obtain k v where e: "e = (k, v)" by fastforce
  show ?case
    using Cons e by (cases rule: get_answers [OF assms, of k]) (simp_all add: given_up_def)
qed (simp add: given_up_def)

lemma apply_deletes:
  "w t = Some m \<Longrightarrow> apply_batch (map (\<lambda>(k, v). Batch_delete t k) kvs) w = w(t \<mapsto> m |` (- fst ` set kvs))"
proof (induction kvs arbitrary: w m)
  case Nil
  then show ?case by (simp add: fun_upd_idem)
next
  case (Cons e kvs)
  obtain k v where e: "e = (k, v)" by fastforce
  have shrink: "(m(k := None)) |` (- fst ` set kvs) = m |` (- insert k (fst ` set kvs))"
    by (auto simp: restrict_map_def fun_eq_iff)
  have "apply_batch (map (\<lambda>(k, v). Batch_delete t k) (e # kvs)) w =
      apply_batch (map (\<lambda>(k, v). Batch_delete t k) kvs) (w(t \<mapsto> m(k := None)))"
    by (simp only: e list.map prod.case apply_batch_Cons apply_op_delete [of w, OF Cons.prems])
  also have "\<dots> = (w(t \<mapsto> m(k := None)))(t \<mapsto> (m(k := None)) |` (- fst ` set kvs))"
    by (rule Cons.IH [of "w(t \<mapsto> m(k := None))" "m(k := None)"]) (rule fun_upd_same)
  finally show ?case unfolding shrink by (simp add: e)
qed

lemma guarded_shrink:
  assumes "guarded L view s" and "t \<noteq> default_family" and "view (database s) t = Some m"
    and "view db = (view (database s))(t \<mapsto> m |` A)"
  shows "guarded L view (s\<lparr>database := db\<rparr>)"
proof -
  have "dom (view db) = dom (view (database s))" using assms(3,4) by (auto simp: dom_def)
  then have "repo_ok L view (s\<lparr>database := db, terms := terms s\<rparr>)"
    using assms by (intro repo_ok_same_families) (auto simp: guarded_def repo_ok_def)
  moreover have "fenced L (view db)"
  proof (rule fencedI [of L "view (database s)"])
    show "fenced L (view (database s))" using assms(1) by (simp add: guarded_def)
    show "disk_term L (view (database s)) p \<le> disk_term L (view db) p" for p
      using assms(2,4) by simp
    fix t' m' k v
    assume "view db t' = Some m'" "m' k = Some v"
    then show "v_term (version_of v) \<le> disk_term L (view db) (partition_held k) \<or>
        (\<exists>m. view (database s) t' = Some m \<and> m k = Some v)"
      using assms(3,4) by (auto simp: restrict_map_def split: if_splits)
  qed
  ultimately show ?thesis by (simp add: guarded_def)
qed

definition cleared :: "libs \<Rightarrow> ('db \<Rightarrow> store_view) \<Rightarrow> string \<Rightarrow> entries \<Rightarrow> 'db repo \<Rightarrow> nat \<Rightarrow> 'db repo \<Rightarrow> bool" where
  "cleared L view t kvs s n s' \<longleftrightarrow>
     (\<exists>m. view (database s) t = Some m \<and> n = length (given_up m kvs) \<and>
        view (database s') = (view (database s))(t \<mapsto> m |` (- fst ` set (given_up m kvs)))) \<and>
     guarded L view s' \<and> handles s' = handles s \<and> tables s' = tables s"

lemma outcome_write_batch:
  assumes "rocksdb_laws R view contents"
    and "\<And>db. view db = apply_batch ops (view (database s)) \<Longrightarrow> ok () (s\<lparr>database := db\<rparr>)"
    and "\<And>s'. untouched view s s' \<Longrightarrow> bad s'"
  shows "outcome (write_batch R ops what) s ok bad"
proof (rule outcomeI)
  fix a s' assume run: "write_batch R ops what s = (Inr a, s')"
  from run assms(1) show "ok a s'" using assms(2) by (cases rule: write_batchE) auto
next
  fix e s' assume run: "write_batch R ops what s = (Inl e, s')"
  from run assms(1) show "bad s'" using assms(3) by (cases rule: write_batchE) auto
qed

definition write_deletes :: "'db rocksdb \<Rightarrow> batch_op list \<Rightarrow> string \<Rightarrow> ('db, nat) repo_exec" where
  "write_deletes R ops what = andthen (if ops = [] then ret () else write_batch R ops what) (\<lambda>_. ret (length ops))"

lemma clear_records_unfold:
  "file \<noteq> [] \<Longrightarrow> clear_records R t file =
     (let what = ''Clearing records of \"'' @ t @ ''\"''
      in andthen (table_handle t) (\<lambda>handle.
         andthen (open_given R file what) (\<lambda>_ s.
           let (kvs, st) = sst_read R (database s) file
           in andthen (check R st what) (\<lambda>_. write_deletes R (clear_batch R (database s) handle kvs) what) s)))"
  by (simp add: clear_records_def write_deletes_def Let_def)

lemma clear_records_outcome:
  assumes "rocksdb_laws R view contents" and "reads_answer R" and "guarded L view s"
    and "t \<noteq> default_family" and "file \<noteq> []"
  shows "outcome (clear_records R t file) s (cleared L view t (contents file) s) (unmoved L view s)"
proof -
  have ok: "repo_ok L view s" using assms(3) by (simp add: guarded_def)
  define u where "u = s\<lparr>transfers := transfers s + 1\<rparr>"
  have u: "guarded L view u" "view (database u) = view (database s)" "handles u = handles s" "tables u = tables s"
    using assms(3) by (simp_all add: u_def)
  have bad: "untouched view u s' \<Longrightarrow> unmoved L view s s'" for s'
    using assms(3) unmoved_untouched by (auto simp: u_def)
  obtain kvs st where r: "sst_read R (database u) file = (kvs, st)" by fastforce
  have kvs: "kvs = contents file" if "st = Ok_status" using sst_readD [OF assms(1)] r that by blast
  have body: "outcome (andthen (check R st what) (\<lambda>_. write_deletes R (clear_batch R (database u) t kvs) what)) u
      (cleared L view t (contents file) s) (unmoved L view s)"
    if m: "view (database s) t = Some m" for m what
  proof (intro outcome_andthen outcome_check)
    assume st: "st = Ok_status"
    have um: "view (database u) t = Some m" using m u by simp
    have ops: "clear_batch R (database u) t kvs = map (\<lambda>(k, v). Batch_delete t k) (given_up m (contents file))"
      using clear_batch_given_up [OF assms(1,2) um] kvs [OF st] by simp
    have fin: "cleared L view t (contents file) s (length (clear_batch R (database u) t kvs)) (u\<lparr>database := db\<rparr>)"
      if "view db = apply_batch (clear_batch R (database u) t kvs) (view (database u))" for db
    proof -
      have db: "view db = (view (database u))(t \<mapsto> m |` (- fst ` set (given_up m (contents file))))"
        unfolding that ops by (rule apply_deletes [of "view (database u)", OF um])
      from guarded_shrink [of L view u, OF u(1) assms(4) um this] db ops u m show ?thesis
        by (simp add: cleared_def)
    qed
    show "outcome (write_deletes R (clear_batch R (database u) t kvs) what) u
        (cleared L view t (contents file) s) (unmoved L view s)"
      unfolding write_deletes_def
    proof (rule outcome_andthen, cases "clear_batch R (database u) t kvs = []")
      case True
      then show "outcome (if clear_batch R (database u) t kvs = [] then ret ()
          else write_batch R (clear_batch R (database u) t kvs) what) u
        (\<lambda>a s'. outcome (ret (length (clear_batch R (database u) t kvs))) s'
          (cleared L view t (contents file) s) (unmoved L view s)) (unmoved L view s)"
        using fin [of "database u"] by simp
    next
      case False
      then show "outcome (if clear_batch R (database u) t kvs = [] then ret ()
          else write_batch R (clear_batch R (database u) t kvs) what) u
        (\<lambda>a s'. outcome (ret (length (clear_batch R (database u) t kvs))) s'
          (cleared L view t (contents file) s) (unmoved L view s)) (unmoved L view s)"
        using fin bad by (simp, intro outcome_write_batch [OF assms(1)]) simp_all
    qed
  qed (use bad in simp_all)
  show ?thesis
    unfolding clear_records_unfold [OF assms(5)] Let_def
    by (intro outcome_andthen outcome_table_handle [OF ok] outcome_open_given, fold u_def)
       (use body r bad in \<open>simp_all add: outcome_def unmoved_untouched [OF assms(3)]\<close>)
qed

lemma cleared_stored_at:
  assumes "cleared L view t kvs s n s'" and "ascending kvs"
  shows "stored_at view s' t' k =
    (case (stored_at view s t' k, if t' = t then map_of kvs (store_key k) else None) of
       (Some h, Some v) \<Rightarrow> if is_newer h v then Some h else None
     | (h, _) \<Rightarrow> h)"
proof -
  obtain m where m: "view (database s) t = Some m"
      "view (database s') = (view (database s))(t \<mapsto> m |` (- fst ` set (given_up m kvs)))"
    using assms(1) by (auto simp: cleared_def)
  have gone: "k \<in> fst ` set (given_up m kvs) \<longleftrightarrow>
      (\<exists>v h. map_of kvs k = Some v \<and> m k = Some h \<and> \<not> is_newer h v)" for k
    by (auto simp: given_up_def image_iff ascending_map_of [OF assms(2)] split: option.splits)
  show ?thesis
    using m gone [of "store_key k"]
    by (cases "t' = t") (auto simp: stored_at_def record_at_def restrict_map_def split: option.splits)
qed

text \<open>
  C25. Clearing gives up exactly the records the file carries at a version at least as late as the one
  held: a record held at a later version than the file's stays, a record the file does not carry stays,
  and so does every other table. A clearing that throws gives nothing up.
\<close>

theorem clear_gives_up_no_later_record:
  assumes "rocksdb_laws R view contents" and "reads_answer R" and "guarded L view s"
    and "t \<noteq> default_family" and "file \<noteq> []" and "ascending (contents file)"
  shows "case clear_records R t file s of
      (Inr n, s') \<Rightarrow> guarded L view s' \<and>
        (\<forall>t' k. stored_at view s' t' k =
           (case (stored_at view s t' k, if t' = t then map_of (contents file) (store_key k) else None) of
              (Some h, Some v) \<Rightarrow> if is_newer h v then Some h else None
            | (h, _) \<Rightarrow> h))
    | (Inl e, s') \<Rightarrow> guarded L view s' \<and> stored_at view s' = stored_at view s"
proof -
  note run = clear_records_outcome [OF assms(1-5)]
  obtain r s' where p: "clear_records R t file s = (r, s')" by fastforce
  show ?thesis
  proof (cases r)
    case (Inl e)
    then show ?thesis using outcomeD(2) [OF run, of e s'] p by (simp add: unmoved_def stored_at_def)
  next
    case (Inr n)
    then have c: "cleared L view t (contents file) s n s'" using outcomeD(1) [OF run] p by simp
    then show ?thesis using cleared_stored_at [OF c assms(6)] Inr p by (simp add: cleared_def)
  qed
qed

text \<open>The store gives up the record a file carries at the same version, and keeps one it holds later.\<close>

lemma mem_clear:
  assumes "map_of (handles s) t = Some t" and "file \<noteq> []"
  shows "\<exists>n s'. clear_records mem_rocksdb t file s = (Inr n, s')"
  using assms
  by (auto simp: clear_records_unfold Let_def andthen_app table_handle_def open_given_def transfer_name_def check_def
      write_deletes_def write_batch_def)

theorem clear_gives_up_no_later_record_witness:
  "\<exists>n s'. clear_records mem_rocksdb ''orders'' example_file example_repo = (Inr n, s') \<and>
     stored_at mem_view s' ''orders'' ''k'' = None"
proof -
  obtain n s' where run: "clear_records mem_rocksdb ''orders'' example_file example_repo = (Inr n, s')"
    using mem_clear [of example_repo "''orders''" example_file] by (auto simp: example_repo_def)
  have "stored_at mem_view example_repo ''orders'' ''k'' = None"
    by (simp add: stored_at_def record_at_def example_repo_def mem_view_def)
  with run clear_gives_up_no_later_record [OF mem_rocksdb_laws mem_reads_answer example_repo_guarded,
      of "''orders''" example_file]
  show ?thesis by (auto simp: default_family_def ascending_def)
qed

end
