(* ===== verification/Store_Life.thy ===== *)
theory Store_Life
  imports Store_Files
begin

text \<open>
  The life of a store: opened on an empty disk, written to, and opened again on what the process before
  it left, any number of times. The steps are the operations of the repository that change it; what is
  shown is what every state of such a life has.
\<close>

section \<open>Opening\<close>

lemma opened_fields [simp]:
  "database (opened db names random) = db" "counts (opened db names random) = 0"
  "counts_reserved (opened db names random) = 0"
  by (simp_all add: opened_def)

text \<open>What opening a store runs through, taken apart once.\<close>

lemma open_repositoryE:
  assumes "rocksdb_laws R view contents" and "open_repository L R disk random = Inr s"
  obtains db names u v where "rdb_list_families R disk = [] \<Longrightarrow> view db = [default_family \<mapsto> Map.empty]"
    and "rdb_list_families R disk \<noteq> [] \<Longrightarrow> view db = view disk"
    and "dom (view db) = set names" and "default_family \<in> dom (view db)"
    and "check_format R (opened db names random) = (Inr (), u)" and "read_tables L R u = (Inr (), v)"
    and "load_terms L R v = (Inr (), s)"
proof -
  define names where "names = (if rdb_list_families R disk = [] then [default_family] else rdb_list_families R disk)"
  obtain st db where o: "rdb_open R disk names = (st, db)" by fastforce
  have st: "st = Ok_status"
    using assms(2) o by (auto simp: open_repository_def names_def [symmetric] Let_def split: if_splits)
  have law: "if rdb_list_families R disk = [] then view db = [''default'' \<mapsto> Map.empty]
      else set (rdb_list_families R disk) = dom (view disk) \<and> ''default'' \<in> dom (view disk) \<and> view db = view disk"
    using assms(1) o st unfolding rocksdb_laws_def law_open_def by blast
  obtain u v where "check_format R (opened db names random) = (Inr (), u)" "read_tables L R u = (Inr (), v)"
      "load_terms L R v = (Inr (), s)"
    using assms(2) o st
    by (auto simp: open_repository_def names_def [symmetric] Let_def andthen_app split: sum.splits prod.splits)
  then show thesis
    using law that [of db names u v] by (auto simp: names_def default_family_def split: if_splits)
qed

lemma open_repository_guarded:
  assumes "rocksdb_laws R view contents" and "reads_answer R"
    and "rdb_list_families R disk = [] \<or> fenced L (view disk)"
    and "open_repository L R disk random = Inr s"
  shows "guarded L view s"
  using assms(1,4)
proof (cases rule: open_repositoryE)
  case (1 db names u v)
  have "fenced L (view db)"
    using assms(3) 1(1,2) by (cases "rdb_list_families R disk = []")
      (auto simp: fenced_def disk_term_def disk_number_def split: if_splits)
  with 1(3,4) have "settled L view (opened db names random)" by (rule opened_settled)
  then have "settled L view u" using keepsD [OF check_format_settled [OF assms(1)], of L "opened db names random"] 1(5) by simp
  then have v: "settled L view v" using keepsD [OF read_tables_settled [OF assms(1), of L L], of u] 1(6) by simp
  then have "default_family \<in> dom (view (database v))" by (simp add: settled_iff handles_ok_def)
  then have "s = v\<lparr>terms := (\<lambda>p. if p < partition_count then disk_term L (view (database v)) p else terms v p)\<rparr>"
    using 1(7) load_terms_run [OF assms(1,2), of v L] by simp
  with v show ?thesis by (simp add: guarded_settled settled_iff handles_ok_def)
qed

section \<open>The steps of a life\<close>

inductive lives :: "libs \<Rightarrow> 'db rocksdb \<Rightarrow> 'db repo \<Rightarrow> bool" for L :: libs and R :: "'db rocksdb" where
  born: "rdb_list_families R disk = [] \<Longrightarrow> open_repository L R disk random = Inr s \<Longrightarrow> lives L R s"
| restarted: "lives L R s \<Longrightarrow> open_repository L R (database s) random = Inr s' \<Longrightarrow> lives L R s'"
| created: "lives L R s \<Longrightarrow> lives L R (snd (create_table L R t stamp s))"
| dropped: "lives L R s \<Longrightarrow> name \<noteq> default_family \<Longrightarrow> lives L R (snd (delete_table L R name stamp s))"
| merged: "lives L R s \<Longrightarrow> map_ok named \<Longrightarrow> no_default named \<Longrightarrow> lives L R (snd (merge_schema L R named s))"
| wrote: "lives L R s \<Longrightarrow> t \<noteq> default_family \<Longrightarrow> in_int64 (v_term (rec_stamp rec)) \<Longrightarrow>
    lives L R (snd (write_record R t rec s))"
| took: "lives L R s \<Longrightarrow> t \<noteq> default_family \<Longrightarrow> lives L R (snd (import_records R t file s))"
| gave_up: "lives L R s \<Longrightarrow> t \<noteq> default_family \<Longrightarrow> lives L R (snd (clear_records R t file s))"
| counted: "lives L R s \<Longrightarrow> lives L R (snd (next_count L R s))"

inductive_simps lives_simps: "lives L R s"

lemma outcome_keeps: "outcome m s (\<lambda>_. I) I \<Longrightarrow> I (snd (m s))"
  by (auto simp: outcome_def split: prod.splits sum.splits)

lemma lives_guarded:
  assumes "rocksdb_laws R view contents" and "reads_answer R" and "numbers_ok L" and "lives L R s"
  shows "guarded L view s"
  using assms(4)
proof induction
  case (born disk random s)
  then show ?case using open_repository_guarded [OF assms(1,2)] by blast
next
  case (restarted s random s')
  then have "fenced L (view (database s))" by (simp add: guarded_def)
  with restarted(2) show ?case using open_repository_guarded [OF assms(1,2)] by blast
next
  case (wrote s t rec)
  then show ?case
    using write_record_ok [OF assms(1,3)] write_record_fenced [OF assms(1,3)] by (simp add: guarded_def)
next
  case (took s t f)
  show ?case
  proof (cases "f = []")
    case False
    show ?thesis
      by (rule outcome_keeps, rule outcome_mono [OF import_records_outcome [OF assms(1-3) took(3,2) False]])
         (auto simp: imported_def unmoved_def)
  qed (simp add: import_records_def took)
next
  case (gave_up s t f)
  show ?case
  proof (cases "f = []")
    case False
    show ?thesis
      by (rule outcome_keeps, rule outcome_mono [OF clear_records_outcome [OF assms(1,2) gave_up(3,2) False]])
         (auto simp: cleared_def unmoved_def)
  qed (simp add: clear_records_def gave_up)
qed (use assms in \<open>auto intro: keepsD [OF create_table_guarded] keepsD [OF delete_table_guarded]
    keepsD [OF merge_schema_guarded] keepsD [OF next_count_guarded]\<close>)


section \<open>Counts\<close>

text \<open>The counts in memory are a block the disk says is taken.\<close>

definition counts_ok :: "libs \<Rightarrow> ('db \<Rightarrow> store_view) \<Rightarrow> 'db repo \<Rightarrow> bool" where
  "counts_ok L view s \<longleftrightarrow> counts s \<le> counts_reserved s \<and> counts_reserved s \<le> disk_count L (view (database s))"

definition room_for_counts :: "libs \<Rightarrow> store_view \<Rightarrow> bool" where
  "room_for_counts L w \<longleftrightarrow> unat (disk_count L w) + 2 ^ 20 < 2 ^ 64"

lemma counts_per_reservation_unat: "unat counts_per_reservation = 2 ^ 20"
  by (simp add: counts_per_reservation_def)

lemma disk_count_put:
  assumes "numbers_ok L" and "default_family \<in> dom w"
  shows "disk_count L (apply_op (Batch_put default_family count_key (to_string (unat n))) w) = n"
  using assms by (auto simp: disk_count_def disk_number_put numbers_ok_def)

lemma reserve_counts_outcome:
  assumes "rocksdb_laws R view contents" and "reads_answer R" and "numbers_ok L"
    and "default_family \<in> dom (view (database s))" and "room_for_counts L (view (database s))"
  shows "outcome (reserve_counts L R) s
    (\<lambda>_ s'. let d = disk_count L (view (database s)) in
       counts s' = d \<and> counts_reserved s' = d + counts_per_reservation \<and>
       disk_count L (view (database s')) = d + counts_per_reservation) (\<lambda>_. True)"
proof -
  let ?d = "disk_count L (view (database s))" and ?what = "''Reserving a block of write counts''"
  obtain st raw where g: "rdb_get R (database s) default_family count_key = (st, raw)" by fastforce
  have d: "?d = (if st = Ok_status then (case lexical_uint64 L raw of None \<Rightarrow> 0 | Some n \<Rightarrow> n) else 0)"
    unfolding disk_count_def by (rule disk_number_read [OF assms(1,2,4) g])
  let ?put = "put R default_family count_key (to_string (unat (?d + counts_per_reservation))) ?what"
  have run: "reserve_counts L R s = andthen ?put
      (\<lambda>_ s. ret () (s\<lparr>counts := ?d, counts_reserved := ?d + counts_per_reservation\<rparr>)) s"
    unfolding reserve_counts_def g by (simp add: d [symmetric] Let_def)
  obtain r s' where p: "?put s = (r, s')" by fastforce
  from p assms(1) show ?thesis
  proof (cases rule: putE)
    case (ok db)
    then show ?thesis using run p disk_count_put [OF assms(3,4)] by (simp add: outcome_def andthen_app Let_def)
  next
    case (failed e db)
    then show ?thesis using run p by (simp add: outcome_def andthen_app)
  qed
qed

text \<open>One call: a count above the ones before it, within what the disk says is taken.\<close>

lemma next_count_rises:
  assumes "rocksdb_laws R view contents" and "reads_answer R" and "numbers_ok L"
    and "default_family \<in> dom (view (database s))" and "room_for_counts L (view (database s))"
    and "counts_ok L view s" and "next_count L R s = (Inr n, s')"
  shows "counts s < n" and "counts s = counts_reserved s \<Longrightarrow> disk_count L (view (database s)) < n"
    and "n = counts s'" and "counts_ok L view s'" and "n \<le> disk_count L (view (database s'))"
proof -
  let ?d = "disk_count L (view (database s))"
  have room: "unat (?d + counts_per_reservation) = unat ?d + 2 ^ 20"
    using assms(5) by (simp add: room_for_counts_def unat_word_ariths counts_per_reservation_unat)
  have all: "counts s < n \<and> (counts s = counts_reserved s \<longrightarrow> ?d < n) \<and> n = counts s' \<and> counts_ok L view s' \<and>
      n \<le> disk_count L (view (database s'))"
  proof (cases "counts s = counts_reserved s")
    case True
    then obtain u where u: "reserve_counts L R s = (Inr (), u)" "n = counts u + 1" "s' = u\<lparr>counts := counts u + 1\<rparr>"
      using assms(7) by (auto simp: next_count_def andthen_app split: prod.splits sum.splits)
    from outcomeD(1) [OF reserve_counts_outcome [OF assms(1-5)] u(1)]
    have c: "counts u = ?d" "counts_reserved u = ?d + counts_per_reservation"
        "disk_count L (view (database u)) = ?d + counts_per_reservation"
      by (simp_all add: Let_def)
    have one: "unat (?d + 1) = unat ?d + 1"
      using assms(5) by (simp add: room_for_counts_def unat_word_ariths)
    then show ?thesis
      using u c room assms(6) unfolding counts_ok_def word_less_nat_alt word_le_nat_alt by simp
  next
    case False
    then have n: "n = counts s + 1" "s' = s\<lparr>counts := counts s + 1\<rparr>"
      using assms(7) by (auto simp: next_count_def andthen_app)
    have "counts s < counts_reserved s" using False assms(6) by (auto simp: counts_ok_def)
    then have "unat (counts s + 1) = unat (counts s) + 1"
      using unsigned_less [where 'a = nat, of "counts_reserved s"]
      unfolding word_less_nat_alt by (simp add: unat_word_ariths)
    with \<open>counts s < counts_reserved s\<close> show ?thesis
      using n False assms(6) unfolding counts_ok_def word_less_nat_alt word_le_nat_alt by simp
  qed
  then show "counts s < n" and "counts s = counts_reserved s \<Longrightarrow> ?d < n"
    and "n = counts s'" and "counts_ok L view s'" and "n \<le> disk_count L (view (database s'))"
    by blast+
qed

text \<open>Opening a store leaves the count on disk alone and holds no block of its own.\<close>

definition unreserved :: "libs \<Rightarrow> ('db \<Rightarrow> store_view) \<Rightarrow> uint64 \<Rightarrow> 'db repo \<Rightarrow> bool" where
  "unreserved L view c s \<longleftrightarrow>
     settled L view s \<and> disk_count L (view (database s)) = c \<and> counts s = 0 \<and> counts_reserved s = 0"

lemma unreserved_database:
  "unreserved L view c s \<Longrightarrow> view db = view (database s) \<Longrightarrow> unreserved L view c (s\<lparr>database := db\<rparr>)"
  by (simp add: unreserved_def settled_iff handles_ok_def)

lemma open_family_unreserved:
  assumes "rocksdb_laws R view contents"
  shows "keeps (unreserved L view c) (open_family R name)"
proof (rule keepsI)
  fix s assume u: "unreserved L view c s"
  obtain r s' where p: "open_family R name s = (r, s')" by fastforce
  have "settled L view s'" using keepsD [OF open_family_settled [OF assms, of L name], of s] u p by (simp add: unreserved_def)
  moreover have "disk_count L (view (database s')) = c \<and> counts s' = 0 \<and> counts_reserved s' = 0"
    using p assms
  proof (cases rule: open_familyE)
    case (made db)
    then have "name \<notin> dom (view (database s))"
      using u unfolding unreserved_def settled_iff handles_ok_def by (metis domIff)
    then have "name \<noteq> default_family" using u by (auto simp: unreserved_def settled_iff handles_ok_def)
    with made u show ?thesis by (simp add: unreserved_def disk_count_def)
  qed (use u in \<open>simp_all add: unreserved_def\<close>)
  ultimately show "unreserved L view c (snd (open_family R name s))" using p by (simp add: unreserved_def)
qed

lemma drop_family_unreserved:
  assumes "rocksdb_laws R view contents" and "name \<noteq> default_family"
  shows "keeps (unreserved L view c) (drop_family R name)"
proof (rule keepsI)
  fix s assume u: "unreserved L view c s"
  obtain r s' where p: "drop_family R name s = (r, s')" by fastforce
  have "settled L view s'" using keepsD [OF drop_family_settled [OF assms, of L], of s] u p by (simp add: unreserved_def)
  moreover have "disk_count L (view (database s')) = c \<and> counts s' = 0 \<and> counts_reserved s' = 0"
    using p assms(1)
  proof (cases rule: drop_familyE)
    case (gone db h)
    then have "h \<noteq> default_family" using u assms(2) by (auto simp: unreserved_def settled_iff handles_ok_def)
    with gone u show ?thesis by (simp add: unreserved_def disk_count_def)
  qed (use u in \<open>simp_all add: unreserved_def\<close>)
  ultimately show "unreserved L view c (snd (drop_family R name s))" using p by (simp add: unreserved_def)
qed

lemma check_format_unreserved:
  assumes "rocksdb_laws R view contents"
  shows "keeps (unreserved L view c) (check_format R)"
proof (rule keepsI)
  fix s assume u: "unreserved L view c s"
  let ?put = "put R default_family format_key format_version ''Writing the store format''"
  obtain r s' where p: "?put s = (r, s')" by fastforce
  have "settled L view s'"
    using keepsD [OF put_reserved_settled [OF assms, of format_key L format_version "''Writing the store format''"], of s]
      u p by (simp add: unreserved_def)
  moreover have "disk_count L (view (database s')) = c \<and> counts s' = 0 \<and> counts_reserved s' = 0"
    using p assms by (cases rule: putE) (use u in \<open>auto simp: unreserved_def disk_count_def disk_number_put\<close>)
  ultimately have "unreserved L view c (snd (?put s))" using p by (simp add: unreserved_def)
  with u show "unreserved L view c (snd (check_format R s))"
    by (simp add: check_format_def split: prod.splits)
qed

lemma read_tables_unreserved:
  assumes "rocksdb_laws R view contents"
  shows "keeps (unreserved L view c) (read_tables L' R)"
proof (rule keepsI)
  fix s assume u: "unreserved L view c s"
  obtain st raw where get: "rdb_get R (database s) default_family schema_key = (st, raw)" by fastforce
  define t where "t = (if st = Ok_status then s\<lparr>tables := to_schema L' raw\<rparr> else s)"
  have "keeps (unreserved L view c) (andthen
      (for_each (drop_family R) (filter (\<lambda>name. name \<noteq> default_family \<and> name \<notin> set (schema_names (tables t)))
        (map fst (handles t))))
      (\<lambda>_. for_each (open_family R) (schema_names (tables t))))"
    by (intro keeps_andthen keeps_for_each_set)
       (auto intro: drop_family_unreserved [OF assms] open_family_unreserved [OF assms])
  moreover have "unreserved L view c t" using u by (simp add: t_def unreserved_def)
  ultimately show "unreserved L view c (snd (read_tables L' R s))"
    using get by (simp add: read_tables_def t_def [symmetric] keeps_def Let_def)
qed

lemma load_terms_counts:
  assumes "rocksdb_laws R view contents" and "reads_answer R" and "default_family \<in> dom (view (database v))"
    and "load_terms L R v = (Inr (), s)"
  shows "database s = database v" "counts s = counts v" "counts_reserved s = counts_reserved v"
  using load_terms_run [OF assms(1-3), of L] assms(4) by auto

lemma open_repository_counts:
  assumes "rocksdb_laws R view contents" and "reads_answer R" and "guarded L view s"
    and "open_repository L R (database s) random = Inr s'"
  shows "disk_count L (view (database s')) = disk_count L (view (database s))" "counts s' = 0" "counts_reserved s' = 0"
proof -
  have "view (database s) \<noteq> Map.empty" using assms(3) by (auto simp: guarded_def repo_ok_def)
  then have listed: "rdb_list_families R (database s) \<noteq> []"
    using assms(1) unfolding rocksdb_laws_def law_open_def by blast
  from assms(1,4) have "disk_count L (view (database s')) = disk_count L (view (database s)) \<and> counts s' = 0 \<and> counts_reserved s' = 0"
  proof (cases rule: open_repositoryE)
    case (1 db names u v)
    have "settled L view (opened db names random)"
      using 1(2-4) listed assms(3) by (intro opened_settled) (simp_all add: guarded_def)
    then have o: "unreserved L view (disk_count L (view (database s))) (opened db names random)"
      using 1(2) listed by (simp add: unreserved_def)
    have "unreserved L view (disk_count L (view (database s))) u"
      using keepsD [OF check_format_unreserved [OF assms(1)] o] 1(5) by simp
    then have v: "unreserved L view (disk_count L (view (database s))) v"
      using keepsD [OF read_tables_unreserved [OF assms(1)]] 1(6) by (metis snd_conv)
    then have "default_family \<in> dom (view (database v))" by (simp add: unreserved_def settled_iff handles_ok_def)
    from load_terms_counts [OF assms(1,2) this 1(7)] v show ?thesis by (simp add: unreserved_def)
  qed
  then show "disk_count L (view (database s')) = disk_count L (view (database s))" "counts s' = 0" "counts_reserved s' = 0"
    by blast+
qed


section \<open>A life, step by step\<close>

definition first_repo :: "mem_db repo" where
  "first_repo =
     \<lparr>database = [(''default'', [(''FORMAT'', ''2'')])], handles = [(''default'', ''default'')], tables = [],
      instance_name = to_string 1, transfers = 0, counts = 0, counts_reserved = 0, terms = (\<lambda>_. 0)\<rparr>"

lemma first_opens: "open_repository (example_libs Jnull) mem_rocksdb [] 1 = Inr first_repo"
proof -
  let ?L = "example_libs Jnull" and ?o = "opened [(''default'', [])] [''default''] 1"
  have "check_format mem_rocksdb ?o = (Inr (), first_repo)"
    by (simp add: check_format_def opened_def default_family_def mem_get put_def first_repo_def format_key_def
        format_version_def)
  moreover have "read_tables ?L mem_rocksdb first_repo = (Inr (), first_repo)"
    by (simp add: read_tables_def first_repo_def default_family_def mem_get schema_key_def schema_names_def Let_def andthen_app)
  moreover have "load_terms ?L mem_rocksdb first_repo = (Inr (), first_repo)"
  proof -
    have "disk_term ?L (mem_view (database first_repo)) p = 0" for p
      by (simp add: disk_term_def disk_number_def mem_view_def first_repo_def default_family_def term_key_def)
    moreover have "terms first_repo = (\<lambda>_. 0)" "default_family \<in> fst ` set (database first_repo)"
      by (simp_all add: first_repo_def default_family_def)
    moreover from this have "first_repo\<lparr>terms := (\<lambda>_. 0)\<rparr> = first_repo" by simp
    ultimately show ?thesis
      using load_terms_run [OF mem_rocksdb_laws mem_reads_answer, of first_repo ?L]
      by (simp add: mem_view_dom cong del: if_weak_cong)
  qed
  moreover have "rdb_open mem_rocksdb [] [''default''] = (Ok_status, [(''default'', [])])"
      "rdb_list_families mem_rocksdb [] = []"
    by (simp_all add: mem_rocksdb_def)
  ultimately show ?thesis by (simp add: open_repository_def default_family_def andthen_app)
qed


text \<open>A store that was born, given a table and written a record in term 5.\<close>

lemma a_life:
  "\<exists>s. lives (example_libs Jnull) mem_rocksdb s \<and>
     stored_at mem_view s ''orders'' ''k'' = Some (compose_value (stamp_of 5 1) ''v'')"
proof -
  let ?L = "example_libs Jnull"
  let ?s1 = "snd (create_table ?L mem_rocksdb (table_of ''orders'' []) (stamp_of 1 1) first_repo)"
  let ?rec = "example_record 5 1 ''v''"
  have i: "in_int64 (v_term (rec_stamp ?rec))" by (simp add: example_record_def in_int64_def)
  have "lives ?L mem_rocksdb first_repo" using lives.born [OF _ first_opens] by (simp add: mem_rocksdb_def)
  then have l1: "lives ?L mem_rocksdb ?s1" by (rule lives.created)
  have t: "''orders'' \<noteq> default_family" by (simp add: default_family_def)
  have h: "map_of (handles ?s1) ''orders'' \<noteq> None" and v: "mem_view (database ?s1) ''orders'' = Some Map.empty"
    by (simp_all add: create_table_def open_family_def first_repo_def andthen_app write_tables_def put_def mem_view_def
        default_family_def)
  have ok: "repo_ok ?L mem_view ?s1"
    using lives_guarded [OF mem_rocksdb_laws mem_reads_answer numbers_ok_example l1] by (simp add: guarded_def)
  obtain s2 where w: "write_record mem_rocksdb ''orders'' ?rec ?s1 = (Inr (), s2)"
    using mem_write_record [OF ok h, of ?rec] by (metis prod.collapse)
  have "stored_at mem_view ?s1 ''orders'' ''k'' = None" using v by (simp add: stored_at_def)
  then have held: "stored_at mem_view s2 ''orders'' ''k'' = Some (compose_value (stamp_of 5 1) ''v'')"
    using write_record_stored(1) [OF mem_rocksdb_laws ok w] by (simp add: example_record_def stored.take_in_def)
  have l2: "lives ?L mem_rocksdb s2" using lives.wrote [OF l1 t i] w by simp
  with held show ?thesis by blast
qed


end
