(* ===== verification/Routing.thy ===== *)
theory Routing
  imports Router Membership Store_Life
begin

text \<open>
  What a node promises of the requests it answers: a leader of an older term is refused, across a restart
  too; a write that is acknowledged is on every copy; a key is missing only where the node vouches for its
  partition; a read changes nothing; an order another node carried here goes no further.
\<close>

section \<open>Running the seams\<close>

lemma on_store_app [exec_simps]: "on_store m s = (fst (m (store s)), s\<lparr>store := snd (m (store s))\<rparr>)"
  by (simp add: on_store_def Let_def case_prod_unfold)

lemma on_nodes_app [exec_simps]: "on_nodes f s = (Inr (fst (f (nodes s))), s\<lparr>nodes := snd (f (nodes s))\<rparr>)"
  by (simp add: on_nodes_def Let_def case_prod_unfold)

lemma on_wire_app [exec_simps]:
  "on_wire f s = (Inr (fst (f (network (nodes s)))),
     s\<lparr>nodes := (nodes s)\<lparr>etcd_client := (etcd_client (nodes s))\<lparr>wire := snd (f (network (nodes s)))\<rparr>\<rparr>\<rparr>)"
  by (simp add: on_wire_def on_nodes_app Let_def case_prod_unfold)

lemma router_same [simp]: "s\<lparr>store := store s\<rparr> = s" "s\<lparr>nodes := nodes s\<rparr> = s"
  by simp_all

section \<open>Orders of another node\<close>

lemma accept_refused:
  "t \<noteq> 0 \<Longrightarrow> t < seen_terms c (partition_of key) \<Longrightarrow> accept key t c = (False, c)"
  by (simp add: accept_def raise_term_def)

lemma accept_taken: "fst (accept key t c) \<Longrightarrow> t \<noteq> 0 \<Longrightarrow> t \<le> seen_terms (snd (accept key t c)) (partition_of key)"
  using fence.raise_seen [of "partition_of key" t c "partition_of key"] by (simp add: accept_def)

lemma accept_refused_same: "\<not> fst (accept key t c) \<Longrightarrow> snd (accept key t c) = c"
  by (auto simp: accept_def raise_term_def Let_def)

lemma table_term_grows: "least \<le> table_term entries least"
proof -
  have "least \<le> fold (\<lambda>name tables. case schema_read_entry entries name of None \<Rightarrow> tables
      | Some e \<Rightarrow> if v_term (e_stamp e) > tables then v_term (e_stamp e) else tables) names least" for names
  proof (induction names arbitrary: least)
    case (Cons name names)
    show ?case
      using Cons.IH [of "case schema_read_entry entries name of None \<Rightarrow> least
        | Some e \<Rightarrow> if v_term (e_stamp e) > least then v_term (e_stamp e) else least"]
      by (auto split: option.splits if_splits)
  qed simp
  then show ?thesis by (simp add: table_term_def)
qed

lemma router_of_seen: "p < partition_count \<Longrightarrow> read_terms repo p \<le> seen_terms (nodes (router_of repo c)) p"
  using table_term_grows [of "read_terms repo (partition_of table_key)" "read_schema repo"]
  by (auto simp: router_of_def Let_def restore_terms_seen le_max_iff_disj)


lemma order_outcome:
  assumes "rocksdb_laws R view contents" and "repo_ok L view (store s)"
  shows "case apply_write R req name rec s of
      (Inr a, s') \<Rightarrow>
        (if rs_status a = no_content_204
         then rq_term req \<le> seen_terms (nodes s') (partition_of (rec_key rec)) \<and>
           (\<forall>t k. stored_at view (store s') t k =
              (if t = name \<and> k = rec_key rec
               then stored.take_in (compose_value (stamp_of (rq_term req) (rq_count req)) (rec_value rec))
                      (stored_at view (store s) t k)
               else stored_at view (store s) t k))
         else s' = s)
    | (Inl e, s') \<Rightarrow> stored_at view (store s') = stored_at view (store s)"
proof -
  obtain taken c where acc: "accept (rec_key rec) (rq_term req) (nodes s) = (taken, c)" by fastforce
  let ?rec = "rec\<lparr>rec_stamp := stamp_of (rq_term req) (rq_count req)\<rparr>"
  obtain r u where w: "write_record R name ?rec (store s) = (r, u)" by fastforce
  consider (none) "rq_term req = 0" | (stale) "rq_term req \<noteq> 0" "\<not> taken" | (taken) "rq_term req \<noteq> 0" taken by blast
  then show ?thesis
  proof cases
    case none
    then show ?thesis by (simp add: apply_write_def)
  next
    case stale
    then have "c = nodes s" using accept_refused_same [of "rec_key rec" "rq_term req" "nodes s"] acc by simp
    then show ?thesis using stale acc by (simp add: apply_write_def andthen_app on_nodes_app)
  next
    case taken
    then have "rq_term req \<le> seen_terms c (partition_of (rec_key rec))"
      using accept_taken [of "rec_key rec" "rq_term req" "nodes s"] acc by simp
    moreover have "apply_write R req name rec s =
        (case r of Inl e \<Rightarrow> (Inl e, s\<lparr>nodes := c, store := u\<rparr>)
         | Inr _ \<Rightarrow> (Inr (empty_response no_content_204), s\<lparr>nodes := c, store := u\<rparr>))"
      using taken acc w by (simp add: apply_write_def andthen_app on_nodes_app on_store_app split: sum.split)
    ultimately show ?thesis
      using write_record_stored [OF assms w] by (cases r) simp_all
  qed
qed

text \<open>
  C8. An order of another node is written exactly when it is answered 204, and then every key is as it was
  but the one written, which is at the later of what was held and what was ordered, at the version the
  leader gave it; the term of the order is one the node now fences by. An order that is refused changes
  nothing at all, and one the store fails on changes no record.
\<close>

theorem an_order_is_applied_or_refused:
  assumes "rocksdb_laws R view contents" and "repo_ok L view (store s)"
  shows "case apply_write R req name rec s of
      (Inr a, s') \<Rightarrow>
        (if rs_status a = no_content_204
         then rq_term req \<le> seen_terms (nodes s') (partition_of (rec_key rec)) \<and>
           (\<forall>t k. stored_at view (store s') t k =
              (if t = name \<and> k = rec_key rec
               then stored.take_in (compose_value (stamp_of (rq_term req) (rq_count req)) (rec_value rec))
                      (stored_at view (store s) t k)
               else stored_at view (store s) t k))
         else s' = s)
    | (Inl e, s') \<Rightarrow> stored_at view (store s') = stored_at view (store s)"
  by (rule order_outcome [OF assms])

section \<open>Writes this node orders\<close>

lemma next_count_stored:
  assumes "rocksdb_laws R view contents"
  shows "stored_at view (snd (next_count L R s)) = stored_at view s"
    and "handles (snd (next_count L R s)) = handles s"
proof -
  have "stored_at view (snd (next_count L R s)) = stored_at view s \<and> handles (snd (next_count L R s)) = handles s"
  proof (cases "counts s = counts_reserved s")
    case False
    then show ?thesis by (simp add: next_count_def andthen_app stored_at_def)
  next
    case True
    obtain st raw where g: "rdb_get R (database s) default_family count_key = (st, raw)" by fastforce
    obtain v where p: "reserve_counts L R s =
        andthen (put R default_family count_key (to_string (unat (v + counts_per_reservation)))
          ''Reserving a block of write counts'')
          (\<lambda>_ s. ret () (s\<lparr>counts := v, counts_reserved := v + counts_per_reservation\<rparr>)) s"
      unfolding reserve_counts_def g by (simp add: Let_def)
    obtain r u where run: "put R default_family count_key (to_string (unat (v + counts_per_reservation)))
        ''Reserving a block of write counts'' s = (r, u)"
      by fastforce
    from run assms have "stored_at view u = stored_at view s \<and> handles u = handles s"
      by (cases rule: putE) (auto simp: stored_at_def intro!: ext)
    then show ?thesis
      using True p run by (cases r) (simp_all add: next_count_def andthen_app stored_at_def)
  qed
  then show "stored_at view (snd (next_count L R s)) = stored_at view s"
    and "handles (snd (next_count L R s)) = handles s" by blast+
qed

lemma refusal_None: "refusal answers = None \<longleftrightarrow> list_all (\<lambda>a. rs_status a < 400) answers"
  by (auto simp: refusal_def find_None_iff list_all_iff not_le)

lemma refusal_Some: "refusal answers = Some a \<Longrightarrow> 400 \<le> rs_status a"
  by (auto simp: refusal_def find_Some_iff)

text \<open>\<^verbatim>\<open>send_all\<close> answers one for one, as its declaration says.\<close>

definition one_for_one :: "'w net \<Rightarrow> bool" where
  "one_for_one N = (\<forall>qs t w. length (fst (net_send_all N qs t w)) = length qs)"

lemma forward_all_length:
  "one_for_one N \<Longrightarrow> length (fst (forward_all L N ns req w)) = length ns"
  by (simp add: forward_all_def responses_of_def forwarded_to_all_def one_for_one_def Let_def case_prod_unfold)

text \<open>How a write that was answered went: a count, the copy here, and the others.\<close>

lemma lead_writeE:
  assumes "lead_write L R N req name rec lead s = (Inr a, s')"
  defines "wh \<equiv> replicas (nodes s) (rec_key rec)"
  obtains cnt u where "next_count L R (store s) = (Inr cnt, u)"
    and "pl_local wh \<longrightarrow> write_record R name (rec\<lparr>rec_stamp := stamp_of (ld_term lead) cnt\<rparr>) u = (Inr (), store s')"
    and "\<not> pl_local wh \<longrightarrow> store s' = u"
    and "a = (case refusal (fst (forward_all L N (pl_nodes wh) (carried req (ld_term lead) cnt) (network (nodes s)))) of
                Some refused \<Rightarrow> refused | None \<Rightarrow> empty_response no_content_204)"
    and "network (nodes s') = snd (forward_all L N (pl_nodes wh) (carried req (ld_term lead) cnt) (network (nodes s)))"
proof -
  obtain r u where run: "next_count L R (store s) = (r, u)" by fastforce
  from assms(1) run obtain cnt where r: "r = Inr cnt"
    by (cases r) (auto simp: lead_write_def andthen_app on_store_app)
  obtain r' u' where w: "write_record R name (rec\<lparr>rec_stamp := stamp_of (ld_term lead) cnt\<rparr>) u = (r', u')" by fastforce
  show thesis
  proof (cases "pl_local wh")
    case True
    with assms(1) run r w show ?thesis
      by (cases r') (auto simp: lead_write_def andthen_app on_store_app on_wire_app wh_def Let_def intro!: that)
  next
    case False
    with assms(1) run r show ?thesis
      by (auto simp: lead_write_def andthen_app on_store_app on_wire_app wh_def Let_def intro!: that)
  qed
qed

text \<open>
  A write is acknowledged only when the store here has it, where this node is a copy, at the version it was given,
  and every other copy, each of which was asked, answered that it took the same request at the same version.
\<close>

lemma acknowledged_write:
  assumes "rocksdb_laws R view contents" and "guarded L view (store s)"
    and "lead_write L R N req name rec lead s = (Inr a, s')" and "rs_status a < bad_request_400"
  defines "wh \<equiv> replicas (nodes s) (rec_key rec)"
  obtains cnt answers where "forward_all L N (pl_nodes wh) (carried req (ld_term lead) cnt) (network (nodes s)) =
      (answers, network (nodes s'))"
    and "list_all (\<lambda>b. rs_status b < bad_request_400) answers"
    and "pl_local wh \<Longrightarrow> stored_at view (store s') name (rec_key rec) =
      stored.take_in (compose_value (stamp_of (ld_term lead) cnt) (rec_value rec)) (stored_at view (store s) name (rec_key rec))"
proof -
  from assms(3) obtain cnt u where c: "next_count L R (store s) = (Inr cnt, u)"
    and w: "pl_local wh \<longrightarrow> write_record R name (rec\<lparr>rec_stamp := stamp_of (ld_term lead) cnt\<rparr>) u = (Inr (), store s')"
    and "\<not> pl_local wh \<longrightarrow> store s' = u"
    and a: "a = (case refusal (fst (forward_all L N (pl_nodes wh) (carried req (ld_term lead) cnt) (network (nodes s)))) of
                Some refused \<Rightarrow> refused | None \<Rightarrow> empty_response no_content_204)"
    and n: "network (nodes s') = snd (forward_all L N (pl_nodes wh) (carried req (ld_term lead) cnt) (network (nodes s)))"
    unfolding wh_def by (rule lead_writeE)
  have g: "repo_ok L view u" "stored_at view u = stored_at view (store s)"
    using keepsD [OF next_count_guarded [OF assms(1), of L L] assms(2)] next_count_stored(1) [OF assms(1), of L "store s"] c
    by (simp_all add: guarded_def)
  obtain answers w' where f: "forward_all L N (pl_nodes wh) (carried req (ld_term lead) cnt) (network (nodes s)) = (answers, w')"
    by fastforce
  show thesis
  proof (rule that)
    show "forward_all L N (pl_nodes wh) (carried req (ld_term lead) cnt) (network (nodes s)) = (answers, network (nodes s'))"
      using f n by simp
    show "list_all (\<lambda>b. rs_status b < bad_request_400) answers"
      using a assms(4) f refusal_Some [of answers] refusal_None [of answers] by (fastforce split: option.splits)
    show "stored_at view (store s') name (rec_key rec) =
        stored.take_in (compose_value (stamp_of (ld_term lead) cnt) (rec_value rec)) (stored_at view (store s) name (rec_key rec))"
      if "pl_local wh"
      using write_record_stored(1) [OF assms(1) g(1) mp [OF w that]] g(2) by simp
  qed
qed

section \<open>Reads\<close>

text \<open>What a read of the store answers, where RocksDB answers at all.\<close>

lemma read_record_state: "snd (read_record R t key s) = s"
  by (auto simp: read_record_def andthen_app table_handle_def Let_def check_def split: option.splits prod.splits)

lemma read_record_stored:
  assumes "rocksdb_laws R view contents" and "repo_ok L view s" and "read_record R t key s = (Inr v, s')"
  shows "v = map_option value_of (stored_at view s t key)"
proof (cases "map_of (handles s) t")
  case None
  then show ?thesis using assms(3) by (simp add: read_record_def andthen_app table_handle_def)
next
  case (Some h)
  then obtain m where m: "h = t" "view (database s) t = Some m" using repo_ok_handle [OF assms(2)] by blast
  obtain st raw where g: "rdb_get R (database s) t (store_key key) = (st, raw)" by fastforce
  show ?thesis
    using assms(3) Some m g rdb_getD [OF assms(1) m(2) g]
    by (auto simp: read_record_def andthen_app table_handle_def stored_at_def check_def split: if_splits)
qed

text \<open>
  C10. A node asked by another for a key answers 200 with exactly the value it holds, and 404 only where it
  holds nothing under the key and vouches for the partition or is not a copy of it: a record it may never
  have received is answered 503. Nothing is changed by asking.
\<close>

theorem a_missing_key_is_vouched_for:
  assumes "rocksdb_laws R view contents" and "repo_ok L view (store s)"
  shows "case read_here R name key s of
      (Inr a, s') \<Rightarrow> s' = s \<and>
        (case stored_at view (store s) name key of
           Some stored_bytes \<Rightarrow> a = text_response ok_200 (value_of stored_bytes)
         | None \<Rightarrow>
             rs_status a = (if has (holdings (nodes s)) (partition_of key) \<and> \<not> has (vouched (nodes s)) (partition_of key)
                            then service_unavailable_503 else not_found_404))
    | (Inl e, s') \<Rightarrow> s' = s"
proof -
  obtain r where run: "read_record R name key (store s) = (r, store s)"
    using read_record_state [of R name key "store s"] by (metis prod.collapse)
  show ?thesis
  proof (cases r)
    case (Inl e)
    then show ?thesis using run by (simp add: read_here_def andthen_app on_store_app)
  next
    case (Inr v)
    then have "v = map_option value_of (stored_at view (store s) name key)"
      using read_record_stored [OF assms] run by blast
    then show ?thesis
      using run Inr by (auto simp: read_here_def andthen_app on_store_app is_short_of_def node_incomplete_def split: option.splits)
  qed
qed


section \<open>A read changes nothing\<close>

definition unmoved_repo :: "'db repo \<Rightarrow> 'db repo \<Rightarrow> bool" where
  "unmoved_repo r r' = (r'\<lparr>transfers := transfers r\<rparr> = r)"

definition unwritten :: "('db, 'w) router \<Rightarrow> ('db, 'w) router \<Rightarrow> bool" where
  "unwritten s s' =
     (unmoved_repo (store s) (store s') \<and> draining s' = draining s \<and>
      (nodes s')\<lparr>etcd_client := (etcd_client (nodes s'))\<lparr>wire := network (nodes s)\<rparr>\<rparr> = nodes s)"

lemma unwritten_refl [simp]: "unwritten s s"
  by (simp add: unwritten_def unmoved_repo_def)

lemma unwritten_wire [intro]: "keeps (unwritten s0) (on_wire f)"
  by (auto simp: keeps_def on_wire_app unwritten_def)

lemma unwritten_store [intro]: "(\<And>r. keeps (unmoved_repo r) m) \<Longrightarrow> keeps (unwritten s0) (on_store m)"
  by (auto simp: keeps_def on_store_app unwritten_def)

lemma keeps_if [intro]: "(b \<Longrightarrow> keeps I m) \<Longrightarrow> (\<not> b \<Longrightarrow> keeps I n) \<Longrightarrow> keeps I (if b then m else n)"
  by simp

lemma keeps_still: "(\<And>s. snd (m s) = s) \<Longrightarrow> keeps I m"
  by (simp add: keeps_def)

lemma transfer_name_unmoved [intro]: "keeps (unmoved_repo r) transfer_name"
  by (auto simp: keeps_def transfer_name_def unmoved_repo_def)

lemma andthen_still: "snd (m s) = s \<Longrightarrow> (\<And>a. snd (f a s) = s) \<Longrightarrow> snd (andthen m f s) = s"
  by (auto simp: andthen_def split: prod.split sum.split)

lemma table_handle_still: "snd (table_handle t s) = s"
  by (simp add: table_handle_def split: option.split)

lemma scan_records_still: "snd (scan_records R t rg s) = s"
  by (simp add: scan_records_def Let_def case_prod_unfold andthen_still table_handle_still)

lemma split_points_still: "snd (split_points R t ways s) = s"
  by (simp add: split_points_def Let_def andthen_still table_handle_still)

lemma export_entries_still: "snd (export_entries R wanted what kvs w s) = s"
proof (induction R wanted what kvs w arbitrary: s rule: export_entries.induct)
  case (2 R wanted what k v rest w)
  then show ?case by (simp add: Let_def andthen_app check_def)
qed simp

lemma export_partitions_still: "snd (export_partitions R t wanted what ps w s) = s"
proof (induction ps arbitrary: w s)
  case (Cons p ps)
  show ?case
    using Cons.IH by (simp add: Let_def case_prod_unfold andthen_still table_handle_still export_entries_still)
qed simp

lemma export_records_unmoved [intro]: "keeps (unmoved_repo r) (export_records R t wanted)"
proof -
  have "keeps (unmoved_repo r) (andthen (\<lambda>s. check R (sst_open R (database s) name) what s) (\<lambda>_.
      andthen (export_partitions R t wanted what ps start_walk) (\<lambda>w s.
        if w_taken w = [] then ret \<lparr>x_file = None, x_records = 0, x_has_more = w_has_more w, x_last = w_last w\<rparr> s
        else let (st, file) = sst_finish R (database s) (w_taken w)
             in andthen (check R st what)
                  (\<lambda>_. ret \<lparr>x_file = Some file, x_records = length (w_taken w), x_has_more = w_has_more w,
                          x_last = w_last w\<rparr>) s)))" for name what ps
    by (rule keeps_still) (simp add: Let_def case_prod_unfold andthen_still export_partitions_still)
  then show ?thesis unfolding export_records_def Let_def by blast
qed

section \<open>The whole of the routes\<close>

lemma keeps_read_replicas [intro]: "keeps (unwritten s0) (router_read_record L N req wh)"
  unfolding router_read_record_def by blast

lemma keeps_at: "(\<And>s. I s \<Longrightarrow> I (snd (m s))) \<Longrightarrow> keeps I m"
  by (rule keepsI)

lemma read_here_unwritten: "unwritten s0 s \<Longrightarrow> unwritten s0 (snd (read_here R name key s))"
proof -
  assume u: "unwritten s0 s"
  have "snd (read_here R name key s) = s"
    unfolding read_here_def
    by (intro andthen_still) (auto simp: on_store_app read_record_state split: option.split)
  with u show ?thesis by simp
qed

lemma answer_page_unwritten: "unwritten s0 s \<Longrightarrow> unwritten s0 (snd (answer_page L R req name s))"
proof -
  assume u: "unwritten s0 s"
  have "snd (answer_page L R req name s) = s"
    unfolding answer_page_def
    by (auto simp: on_store_app scan_records_still intro!: andthen_still split: sum.split)
  with u show ?thesis by simp
qed

lemma on_store_read_still: "snd (on_store (read_record R name key) s) = s"
  by (simp add: on_store_app read_record_state)

lemma route_record_unwritten:
  assumes "is_read (rq_method req)" and "unwritten s0 s"
  shows "unwritten s0 (snd (route_record L R N req name part srt s))"
proof -
  have "rq_method req \<noteq> Verb_put" using assms(1) by (auto simp: is_read_def)
  moreover have "unwritten s0 (snd (router_read_record L N req wh s))" for wh
    by (rule keepsD [OF keeps_read_replicas assms(2)])
  moreover obtain r where r: "on_store (read_record R name (compose_key part srt)) s = (r, s)"
    using on_store_read_still [of R name "compose_key part srt" s] by (metis prod.collapse)
  ultimately show ?thesis
    using assms read_here_unwritten [OF assms(2)]
    by (auto simp: route_record_def Let_def andthen_app split: sum.split option.split)
qed

text \<open>
  C15. A request that reads, of any path and on any branch, changes nothing the node keeps: not a record, a
  table, a term, a count, a member or a leader. What it does use is the name of the next scratch file and
  the network.
\<close>

theorem a_read_changes_nothing:
  assumes "is_read (rq_method req)"
  shows "unwritten s (snd (route L R N req s))"
proof -
  have nw: "rq_method req \<noteq> Verb_put" "rq_method req \<noteq> Verb_delete" using assms by (auto simp: is_read_def)
  have scan: "unwritten s (snd (router_scan_records L R N req name s))" for name
    using answer_page_unwritten [OF unwritten_refl] keepsD [OF keeps_read_replicas unwritten_refl]
    by (auto simp: router_scan_records_def Let_def parse_range_def split: option.split sum.split)
  have split: "unwritten s (snd (route_split L R req name s))" for name
    by (auto simp: route_split_def Let_def andthen_app on_store_app split_points_still split: sum.split)
  have file_of: "unwritten s (snd (route_file L R req name s))" for name
  proof -
    have "unwritten s (snd (andthen (on_store (export_records R name wanted)) (\<lambda>taken. ret (f taken :: response)) s))" for wanted f
      by (rule keepsD [OF keeps_andthen [OF unwritten_store [OF export_records_unmoved] keeps_ret] unwritten_refl])
    then show ?thesis by (simp add: route_file_def split: sum.split)
  qed
  have forwarded: "unwritten s (snd (route_forwarded_record L R N req name part srt s))" for name part srt
    using nw by (simp add: route_forwarded_record_def Let_def read_here_unwritten split: sum.split)
  have rec: "unwritten s (snd (route_record L R N req name part srt s))" for name part srt
    by (rule route_record_unwritten [OF assms unwritten_refl])
  have table: "unwritten s (snd (route_table L R N req name s))" for name
    using nw by (simp add: route_table_def split: sum.split)
  show ?thesis
    using scan split file_of forwarded rec table by (simp add: route_def Let_def route_range_def)
qed

section \<open>An order goes no further than the node it was carried to\<close>

text \<open>Sending to no one is no call of the network.\<close>

definition quiet_when_empty :: "'w net \<Rightarrow> bool" where
  "quiet_when_empty N = (\<forall>t w. net_send_all N [] t w = ([], w))"

definition same_wire :: "'w \<Rightarrow> ('db, 'w) router \<Rightarrow> bool" where
  "same_wire w s = (network (nodes s) = w)"

lemma same_wire_store [intro]: "keeps (same_wire w) (on_store m)"
  by (simp add: keeps_def on_store_app same_wire_def)

lemma same_wire_accept [intro]: "keeps (same_wire w) (on_nodes (accept key t))"
  by (simp add: keeps_def on_nodes_app same_wire_def accept_def)

lemma same_wire_no_one: "quiet_when_empty N \<Longrightarrow> keeps (same_wire w) (on_wire (forward_all L N [] req))"
  by (simp add: keeps_def on_wire_app same_wire_def forward_all_def forwarded_to_all_def responses_of_def
      quiet_when_empty_def Let_def)

lemma apply_write_wire: "keeps (same_wire w) (apply_write R req name rec)"
  unfolding apply_write_def by (auto intro!: keeps_andthen)

lemma read_here_wire: "same_wire w s \<Longrightarrow> same_wire w (snd (read_here R name key s))"
  unfolding read_here_def
  by (rule keepsD [OF keeps_andthen]) (auto simp: keeps_def on_store_app same_wire_def split: option.split)

lemma answer_page_wire: "same_wire w s \<Longrightarrow> same_wire w (snd (answer_page L R req name s))"
  by (auto simp: answer_page_def andthen_app on_store_app same_wire_def split: sum.split)

lemma order_carried:
  assumes "rq_term req \<noteq> 0"
  obtains (refused) answer s' where "order_schema L N req s = (Inr (settled_order answer), s')" and "same_wire w s \<longrightarrow> same_wire w s'"
      and "s' = s" and "rs_status answer = conflict_409"
  | (taken) s' where "order_schema L N req s = (Inr \<lparr>od_answer = None, od_peers = [], od_term = 0, od_carried = True\<rparr>, s')"
      and "same_wire w s \<longrightarrow> same_wire w s'" and "store s' = store s"
proof -
  obtain b c where acc: "accept table_key (rq_term req) (nodes s) = (b, c)" by fastforce
  have wire_same: "network c = network (nodes s)" using acc by (auto simp: accept_def raise_term_def Let_def split: if_splits)
  show thesis
  proof (cases b)
    case True
    then show ?thesis
      using acc assms wire_same
      by (intro taken [of "s\<lparr>nodes := c\<rparr>"]) (simp_all add: order_schema_def andthen_app on_nodes_app same_wire_def)
  next
    case False
    then have "c = nodes s" using acc accept_refused_same [of table_key "rq_term req" "nodes s"] by simp
    then show ?thesis
      using acc assms False
      by (intro refused [of "error_response Stale_leader
            ''The tables are led in a later term than the one that ordered this.''" s]) (simp_all add: order_schema_def andthen_app on_nodes_app same_wire_def)
  qed
qed

text \<open>The order of a node that was carried an operation: it is carried on to no one.\<close>

abbreviation carried_order :: ordering where
  "carried_order \<equiv> \<lparr>od_answer = None, od_peers = [], od_term = 0, od_carried = True\<rparr>"

lemma carry_on_no_one:
  assumes "quiet_when_empty N"
  shows "keeps (same_wire w) (andthen (carry_on L N req carried_order stamp) (\<lambda>f. ret (g f)))"
  unfolding carry_on_def by (intro keeps_andthen same_wire_no_one [OF assms] keeps_ret | simp)+

lemma store_then_no_one:
  assumes "quiet_when_empty N"
  shows "keeps (same_wire w) (andthen (on_store m) (\<lambda>_. andthen (carry_on L N req carried_order stamp) (\<lambda>f. ret (g f))))"
  by (intro keeps_andthen [OF same_wire_store] carry_on_no_one [OF assms])

lemma store_then_answer: "keeps (same_wire w) (andthen (on_store m) (\<lambda>_. ret a))"
  by (intro keeps_andthen [OF same_wire_store] keeps_ret)

lemma create_carried_wire:
  assumes "quiet_when_empty N" and "rq_term req \<noteq> 0" and "same_wire w s"
  shows "same_wire w (snd (router_create_table L R N req name s))"
proof (cases "parse_body L (rq_body req)")
  case (Some body)
  from assms(2) show ?thesis
  proof (cases rule: order_carried [of req L N s w])
    case (refused answer s')
    then show ?thesis using Some assms(3) by (simp add: router_create_table_def andthen_app)
  next
    case (taken s')
    then have "same_wire w s'" using assms(3) by blast
    then show ?thesis
      using Some taken(1) keepsD [OF carry_on_no_one [OF assms(1)]] keepsD [OF store_then_no_one [OF assms(1)]]
      by (auto simp: router_create_table_def andthen_app [of "order_schema L N req"] schema_stamp_def Let_def
          andthen_app [of "ret _"] split: sum.split)
  qed
qed (simp add: router_create_table_def assms(3))

lemma delete_carried_wire:
  assumes "quiet_when_empty N" and "rq_term req \<noteq> 0" and "same_wire w s"
  shows "same_wire w (snd (router_delete_table L R N req name s))"
  using assms(2)
proof (cases rule: order_carried [of req L N s w])
  case (refused answer s')
  then show ?thesis using assms(3) by (simp add: router_delete_table_def andthen_app)
next
  case (taken s')
  then have "same_wire w s'" using assms(3) by blast
  then show ?thesis
    using taken(1) keepsD [OF store_then_answer] keepsD [OF store_then_no_one [OF assms(1)]]
    by (auto simp: router_delete_table_def andthen_app [of "order_schema L N req"] schema_stamp_def
        andthen_app [of "ret _"])
qed


section \<open>A node cut off from etcd orders nothing\<close>

text \<open>
  C18. A node that is in a cluster and did not hear from etcd on its last pass takes no write of a client:
  the write is refused with an error and nothing is changed, here or on any other node.
\<close>

theorem a_node_without_etcd_orders_nothing:
  assumes "is_clustered (configuration (nodes s))" and "\<not> answered (nodes s)" and "rq_method req = Verb_put"
  shows "\<exists>a. route_record L R N req name part srt s = (Inr a, s) \<and> bad_request_400 \<le> rs_status a"
proof -
  have "leader L N key (nodes s) = (no_leadership, nodes s)" for key
    using assms(1,2) by (simp add: leader_def Let_def)
  then show ?thesis
    using assms(3)
    by (auto simp: route_record_def Let_def andthen_app on_nodes_app no_leadership_def missing_table_def node_incomplete_def
        table_not_found_def split: sum.split)
qed

section \<open>A node to run the witnesses on\<close>

text \<open>A node told of no etcd: the only copy of every key, and its leader.\<close>

definition alone_cluster :: "unit etcd_cluster" where
  "alone_cluster = etcd_cluster_of quiet_net default_config ()"

definition example_node :: "(mem_db, unit) router" where
  "example_node = \<lparr>store = example_repo, nodes = alone_cluster, draining = False\<rparr>"

definition ordered_put :: "int \<Rightarrow> request" where
  "ordered_put term =
     \<lparr>rq_method = Verb_put, rq_path = [''table'', ''orders'', ''key'', ''k''], rq_query = [], rq_body = ''v'',
      rq_forwarded = True, rq_term = term, rq_count = 1\<rparr>"

definition plain_get :: request where
  "plain_get =
     \<lparr>rq_method = Verb_get, rq_path = [''table'', ''orders'', ''key'', ''k''], rq_query = [], rq_body = [],
      rq_forwarded = False, rq_term = 0, rq_count = 0\<rparr>"

lemmas example_node_defs = example_node_def alone_cluster_def etcd_cluster_of_def default_config_def quiet_net_def

lemma example_node_ok: "repo_ok L mem_view (store example_node)" "guarded L mem_view (store example_node)"
  using example_repo_ok [of L] example_repo_guarded [of L] by (simp_all add: example_node_def)

lemma example_node_empty: "stored_at mem_view (store example_node) ''orders'' ''k'' = None"
  by (simp add: stored_at_def record_at_def example_node_def example_repo_def mem_view_def)

lemma quiet_net_ok: "one_for_one quiet_net" "quiet_when_empty quiet_net"
  by (simp_all add: one_for_one_def quiet_when_empty_def quiet_net_def)

lemma example_node_replicas: "replicas (nodes example_node) key = no_placement"
  by (simp add: replicas_def copies_of_def example_node_defs)


theorem an_order_is_applied_or_refused_witness:
  "\<exists>a s'. apply_write mem_rocksdb (ordered_put 7) ''orders'' (example_record 0 0 ''v'') example_node = (Inr a, s') \<and>
     rs_status a = 204 \<and> stored_at mem_view (store s') ''orders'' ''k'' = Some (compose_value (stamp_of 7 1) ''v'')"
proof -
  let ?rec = "(example_record 0 0 ''v'')\<lparr>rec_stamp := stamp_of 7 1\<rparr>"
  obtain u where w: "write_record mem_rocksdb ''orders'' ?rec (store example_node) = (Inr (), u)"
    using mem_write_record [OF example_node_ok(1), of "''orders''" ?rec]
    by (auto simp: example_node_def example_repo_def prod_eq_iff)
  have taken: "fst (accept ''k'' 7 (nodes example_node))"
    by (simp add: accept_def raise_term_def example_node_defs)
  define s' where "s' = example_node\<lparr>nodes := snd (accept ''k'' 7 (nodes example_node)), store := u\<rparr>"
  have run: "apply_write mem_rocksdb (ordered_put 7) ''orders'' (example_record 0 0 ''v'') example_node =
      (Inr (empty_response 204), s')"
    using w taken
    by (simp add: apply_write_def andthen_app on_nodes_app on_store_app ordered_put_def example_record_def s'_def)
  with an_order_is_applied_or_refused [OF mem_rocksdb_laws example_node_ok(1), where req = "ordered_put 7"
      and name = "''orders''" and rec = "example_record 0 0 ''v''"] example_node_empty
  have "stored_at mem_view (store s') ''orders'' ''k'' = Some (compose_value (stamp_of 7 1) ''v'')"
    by (simp add: ordered_put_def example_record_def stored.take_in_def)
  with run show ?thesis by simp
qed

text \<open>The node in memory leads a write of its own.\<close>

definition own_lead :: leadership where
  "own_lead = \<lparr>ld_known = True, ld_local = True, ld_node = [], ld_term = 0\<rparr>"

definition led_write :: "(storage_error + response) \<times> (mem_db, unit) router" where
  "led_write =
     lead_write (example_libs Jnull) mem_rocksdb quiet_net (ordered_put 0) ''orders'' (example_record 0 0 ''v'') own_lead
       example_node"

lemma example_lead_write: "led_write = (Inr (empty_response 204), snd led_write)"
proof -
  let ?L = "example_libs Jnull"
  have "next_count ?L mem_rocksdb (store example_node) = (Inr 1, snd (next_count ?L mem_rocksdb (store example_node)))"
    by (simp add: next_count_def reserve_counts_def example_node_def example_repo_def andthen_app put_def default_family_def
        count_key_def mem_get counts_per_reservation_def)
  then obtain u where c: "next_count ?L mem_rocksdb (store example_node) = (Inr 1, u)" by blast
  have u: "repo_ok ?L mem_view u" "handles u = handles (store example_node)"
    using keepsD [OF next_count_guarded [OF mem_rocksdb_laws, of ?L ?L] example_node_ok(2)]
      next_count_stored(2) [OF mem_rocksdb_laws, of ?L "store example_node"] c
    by (simp_all add: guarded_def)
  let ?rec = "(example_record 0 0 ''v'')\<lparr>rec_stamp := stamp_of 0 1\<rparr>"
  obtain u' where w: "write_record mem_rocksdb ''orders'' ?rec u = (Inr (), u')"
    using mem_write_record [OF u(1), of "''orders''" ?rec] u(2)
    by (auto simp: example_node_def example_repo_def prod_eq_iff)
  have "replicas (nodes example_node) k = \<lparr>pl_local = True, pl_nodes = []\<rparr>" for k
    by (simp add: example_node_replicas no_placement_def)
  then show ?thesis
    using c w
    by (simp add: led_write_def own_lead_def lead_write_def andthen_app on_store_app on_wire_app Let_def forward_all_def
        forwarded_to_all_def responses_of_def refusal_def quiet_net_def)
qed


theorem a_missing_key_is_vouched_for_witness:
  "\<exists>a. read_here mem_rocksdb ''orders'' ''k'' example_node = (Inr a, example_node) \<and> rs_status a = 503"
proof -
  have "read_record mem_rocksdb ''orders'' ''k'' (store example_node) = (Inr None, store example_node)"
    by (simp add: read_record_def andthen_app table_handle_def example_node_def example_repo_def mem_get)
  then obtain a where a: "read_here mem_rocksdb ''orders'' ''k'' example_node = (Inr a, example_node)"
    by (cases "is_short_of (partition_of ''k'') example_node") (simp_all add: read_here_def andthen_app on_store_app)
  have "has (holdings (nodes example_node)) (partition_of ''k'')" "\<not> has (vouched (nodes example_node)) (partition_of ''k'')"
    using partition_of_lt [of "''k''"] by (simp_all add: holdings_def vouched_def example_node_defs partition_count_def)
  with a a_missing_key_is_vouched_for [OF mem_rocksdb_laws example_node_ok(1), of "''k''" "''orders''"] example_node_empty
  show ?thesis by simp
qed

theorem a_read_changes_nothing_witness:
  "unwritten example_node (snd (route (example_libs Jnull) mem_rocksdb quiet_net plain_get example_node))"
  by (rule a_read_changes_nothing) (simp add: plain_get_def is_read_def)


theorem a_node_without_etcd_orders_nothing_witness:
  "\<exists>a. route_record (example_libs Jnull) mem_rocksdb quiet_net (ordered_put 0) ''orders'' ''k'' []
     (example_node\<lparr>nodes := example_cluster\<rparr>) = (Inr a, example_node\<lparr>nodes := example_cluster\<rparr>) \<and> 400 \<le> rs_status a"
  by (rule a_node_without_etcd_orders_nothing)
     (simp_all add: example_cluster_def etcd_cluster_of_def is_clustered_def ordered_put_def)

end
