(* ===== verification/Pool.thy ===== *)
theory Pool
  imports Prelude
begin

text \<open>
  \<^verbatim>\<open>src/http/pool.cpp\<close> and \<^verbatim>\<open>src/http/shared_pool.cpp\<close>: the connections a thread, and the connections every
  coroutine, keeps open between requests. A connection is what the pools ask of one; whether its socket is
  open and whether anything is there to be read on it are the operating system's to say, and a field of it.
\<close>

record connection =
  cn_host :: string
  cn_port :: string
  cn_idle_since :: int
  cn_open :: bool
  cn_readable :: bool

definition max_idle :: int where
  "max_idle = 45 * 1000000000"

definition goes_to :: "connection \<Rightarrow> string \<Rightarrow> string \<Rightarrow> bool" where
  "goes_to c host port = (cn_host c = host \<and> cn_port c = port)"

definition mark_idle :: "int \<Rightarrow> connection \<Rightarrow> connection" where
  "mark_idle now c = c\<lparr>cn_idle_since := now\<rparr>"

definition is_reusable :: "connection \<Rightarrow> int \<Rightarrow> bool" where
  "is_reusable c at = (if \<not> cn_open c \<or> at - cn_idle_since c \<ge> max_idle then False else \<not> cn_readable c)"

definition new_connection :: "string \<Rightarrow> string \<Rightarrow> connection" where
  "new_connection host port =
     \<lparr>cn_host = host, cn_port = port, cn_idle_since = 0, cn_open = False, cn_readable = False\<rparr>"

section \<open>Taking and keeping\<close>

text \<open>The last of a list that satisfies a predicate, and the list without it.\<close>

fun take_first :: "('a \<Rightarrow> bool) \<Rightarrow> 'a list \<Rightarrow> ('a \<times> 'a list) option" where
  "take_first P [] = None"
| "take_first P (x # xs) =
     (if P x then Some (x, xs) else map_option (\<lambda>(y, ys). (y, x # ys)) (take_first P xs))"

definition take_last :: "('a \<Rightarrow> bool) \<Rightarrow> 'a list \<Rightarrow> ('a \<times> 'a list) option" where
  "take_last P xs = map_option (\<lambda>(y, ys). (y, rev ys)) (take_first P (rev xs))"

definition take_connection :: "string \<Rightarrow> string \<Rightarrow> int \<Rightarrow> connection list \<Rightarrow> connection \<times> connection list" where
  "take_connection host port now idle =
     (let idle = filter (\<lambda>kept. \<not> (goes_to kept host port \<and> \<not> is_reusable kept now)) idle
      in case take_last (\<lambda>kept. goes_to kept host port) idle of
           None \<Rightarrow> (new_connection host port, idle)
         | Some (taken, idle) \<Rightarrow> (taken, idle))"

definition keep_connection :: "nat \<Rightarrow> int \<Rightarrow> connection \<Rightarrow> connection list \<Rightarrow> connection list" where
  "keep_connection connection_cache now used idle =
     (if \<not> cn_open used then idle
      else (if length idle \<ge> connection_cache then tl idle else idle) @ [mark_idle now used])"

text \<open>The pool of a thread keeps 64 connections, the one all coroutines share 256.\<close>

definition pool_cache :: nat where
  "pool_cache = 64"

definition shared_pool_cache :: nat where
  "shared_pool_cache = 256"

definition pool_take :: "string \<Rightarrow> string \<Rightarrow> int \<Rightarrow> connection list \<Rightarrow> connection \<times> connection list" where
  "pool_take host port now idle = take_connection host port now idle"

definition pool_keep :: "int \<Rightarrow> connection \<Rightarrow> connection list \<Rightarrow> connection list" where
  "pool_keep now used idle = keep_connection pool_cache now used idle"

definition shared_pool_take :: "string \<Rightarrow> string \<Rightarrow> int \<Rightarrow> connection list \<Rightarrow> connection \<times> connection list" where
  "shared_pool_take host port now idle = take_connection host port now idle"

definition shared_pool_keep :: "int \<Rightarrow> connection \<Rightarrow> connection list \<Rightarrow> connection list" where
  "shared_pool_keep now used idle = keep_connection shared_pool_cache now used idle"

definition shared_pool_shutdown :: "connection list \<Rightarrow> connection list" where
  "shared_pool_shutdown idle = []"

section \<open>What a pool promises\<close>

lemma take_first_Some:
  "take_first P xs = Some (y, ys) \<Longrightarrow> P y \<and> (\<exists>as bs. xs = as @ y # bs \<and> ys = as @ bs \<and> list_all (\<lambda>a. \<not> P a) as)"
proof (induction xs arbitrary: ys)
  case (Cons x xs)
  show ?case
  proof (cases "P x")
    case True
    with Cons.prems have "y = x" "ys = xs" by auto
    with True show ?thesis by (intro conjI exI [of _ "[]"] exI [of _ xs]) auto
  next
    case False
    with Cons.prems obtain zs where zs: "take_first P xs = Some (y, zs)" "ys = x # zs" by auto
    from Cons.IH [OF zs(1)] obtain as bs where "P y" "xs = as @ y # bs" "zs = as @ bs" "list_all (\<lambda>a. \<not> P a) as" by blast
    with False zs(2) show ?thesis by (intro conjI exI [of _ "x # as"] exI [of _ bs]) auto
  qed
qed simp

lemma take_first_None: "take_first P xs = None \<longleftrightarrow> list_all (\<lambda>x. \<not> P x) xs"
  by (induction xs) auto

lemma take_last_Some:
  assumes "take_last P xs = Some (y, ys)"
  shows "P y \<and> (\<exists>as bs. xs = as @ y # bs \<and> ys = as @ bs \<and> list_all (\<lambda>b. \<not> P b) bs)"
proof -
  from assms obtain zs where z: "take_first P (rev xs) = Some (y, zs)" "ys = rev zs" by (auto simp: take_last_def)
  from take_first_Some [OF z(1)] obtain as bs where
    "P y" "rev xs = as @ y # bs" "zs = as @ bs" "list_all (\<lambda>a. \<not> P a) as" by blast
  moreover from this have "xs = rev bs @ y # rev as" by (metis append.assoc append_Cons append_Nil rev.simps(2) rev_append rev_rev_ident)
  ultimately show ?thesis using z(2) by (intro conjI exI [of _ "rev bs"] exI [of _ "rev as"]) auto
qed

text \<open>
  C33. A connection taken from a pool goes to the node it was asked for and is either a new one, and then the
  pool held none that could be used for the node, or one the pool held that is open, quiet and idle for less
  than a node keeps one; the pool then holds what it held without it and without those of the node that could
  not be used.
\<close>

theorem a_connection_taken_can_be_used:
  "case pool_take host port now idle of
     (taken, left) \<Rightarrow>
       goes_to taken host port \<and>
       (let usable = filter (\<lambda>c. \<not> (goes_to c host port \<and> \<not> is_reusable c now)) idle
        in if list_ex (\<lambda>c. goes_to c host port) usable
           then is_reusable taken now \<and> (\<exists>as bs. usable = as @ taken # bs \<and> left = as @ bs)
           else taken = new_connection host port \<and> left = usable)"
proof -
  let ?u = "filter (\<lambda>c. \<not> (goes_to c host port \<and> \<not> is_reusable c now)) idle"
  show ?thesis
  proof (cases "take_last (\<lambda>kept. goes_to kept host port) ?u")
    case None
    then have "\<not> list_ex (\<lambda>c. goes_to c host port) ?u"
      unfolding take_last_def option.map_disc_iff take_first_None list_ex_iff list_all_iff by auto
    moreover have "goes_to (new_connection host port) host port" by (simp add: new_connection_def goes_to_def)
    ultimately show ?thesis using None by (simp add: pool_take_def take_connection_def Let_def)
  next
    case (Some taken_left)
    obtain taken left_over where tl: "taken_left = (taken, left_over)" by fastforce
    from take_last_Some [OF Some [unfolded tl]] obtain as bs where
      t: "goes_to taken host port" "?u = as @ taken # bs" "left_over = as @ bs" by blast
    then have "taken \<in> set ?u" by simp
    then have "is_reusable taken now" using t(1) by simp
    moreover have "list_ex (\<lambda>c. goes_to c host port) ?u" using t by (simp add: list_ex_iff)
    ultimately show ?thesis
      using Some tl t by (auto simp: pool_take_def take_connection_def Let_def)
  qed
qed

text \<open>
  Neither pool ever keeps more connections than its cache is for, however many are handed back to it, and
  what it keeps last is what was handed back last.
\<close>

lemma pools_are_bounded:
  "(length idle \<le> pool_cache \<longrightarrow> length (pool_keep now used idle) \<le> pool_cache) \<and>
   (length idle \<le> shared_pool_cache \<longrightarrow> length (shared_pool_keep now used idle) \<le> shared_pool_cache) \<and>
   (cn_open used \<longrightarrow> last (pool_keep now used idle) = mark_idle now used)"
  by (auto simp: pool_keep_def shared_pool_keep_def keep_connection_def pool_cache_def shared_pool_cache_def)

end
