(* ===== verification/Beast.thy ===== *)
theory Beast
  imports Http Pool
begin

text \<open>
  \<^verbatim>\<open>src/http/beast_client.cpp\<close>: the client that sends the requests of a node over the connections it keeps.
  Where a request goes, how it is written as a message, what is read of an answer, when it is made again and
  how many are made at once over the pool of a thread are the code's. Whether a host is an address or a
  name to look up is told apart as the code does; looking up, dialling, writing one message and reading one answer
  are Boost's and the operating system's, and the functions of the record \<open>sockets\<close>.
\<close>

section \<open>Where a request goes\<close>

record location =
  lo_host :: string
  lo_port :: string
  lo_target :: string
  lo_authority :: string

definition scheme :: string where
  "scheme = ''http://''"

text \<open>\<^verbatim>\<open>find_first_of\<close> and \<^verbatim>\<open>rfind\<close>.\<close>

fun find_index :: "('a \<Rightarrow> bool) \<Rightarrow> 'a list \<Rightarrow> nat option" where
  "find_index P [] = None"
| "find_index P (x # xs) = (if P x then Some 0 else map_option Suc (find_index P xs))"

definition rfind_char :: "char \<Rightarrow> string \<Rightarrow> nat option" where
  "rfind_char c s = map_option (\<lambda>i. length s - 1 - i) (find_index (\<lambda>x. x = c) (rev s))"

definition locate :: "string \<Rightarrow> location option" where
  "locate url =
     (if take (length scheme) url \<noteq> scheme then None
      else let after = drop (length scheme) url;
               finish = find_index (\<lambda>c. c = CHR ''/'' \<or> c = CHR ''?'') after;
               authority = (case finish of None \<Rightarrow> after | Some e \<Rightarrow> take e after);
               target_text = (case finish of None \<Rightarrow> ''/''
                 | Some e \<Rightarrow> if after ! e = CHR ''/'' then drop e after else ''/'' @ drop e after);
               bracket = rfind_char CHR '']'' authority;
               colon = rfind_char CHR '':'' authority;
               (host, port) =
                 (case colon of
                    Some c \<Rightarrow> if bracket = None \<or> c > the bracket then (take c authority, drop (c + 1) authority)
                              else (authority, ''80'')
                  | None \<Rightarrow> (authority, ''80''));
               host = (case bracket of
                    None \<Rightarrow> host
                  | Some b \<Rightarrow> if length host > 1 \<and> hd host = CHR ''['' then take (b - 1) (drop 1 host) else host)
           in if host = [] \<or> port = [] then None
              else Some \<lparr>lo_host = host, lo_port = port, lo_target = target_text, lo_authority = authority\<rparr>)"

definition not_a_url :: "string \<Rightarrow> string" where
  "not_a_url url = ''\"'' @ url @ ''\" is not a URL this client can send to.''"

section \<open>A request as a message\<close>

text \<open>What the code sets of a message and reads of one: the fields in the order they are set.\<close>

type_synonym fields = "(string \<times> string) list"

record message =
  mg_method :: verb
  mg_target :: string
  mg_body :: string
  mg_headers :: fields
  mg_keep_alive :: bool

text \<open>\<^verbatim>\<open>fields::set\<close>: what was held under the name goes.\<close>

definition set_field :: "string \<Rightarrow> string \<Rightarrow> fields \<Rightarrow> fields" where
  "set_field name held_as fs = filter (\<lambda>(key, _). \<not> same_name key name) fs @ [(name, held_as)]"

definition is_padding :: "char \<Rightarrow> bool" where
  "is_padding c = (c = CHR '' '' \<or> byte_of c = 9)"

definition set_header :: "string \<Rightarrow> fields \<Rightarrow> fields" where
  "set_header line fs =
     (case find_index (\<lambda>c. c = CHR '':'') line of
        None \<Rightarrow> fs
      | Some colon \<Rightarrow>
          if colon = 0 then fs
          else set_field (take colon line)
                 (rev (dropWhile is_padding (rev (dropWhile is_padding (drop (colon + 1) line))))) fs)"

text \<open>\<^verbatim>\<open>string_to_verb\<close>: a method Beast has no name for is sent as it is.\<close>

definition string_to_verb :: "string \<Rightarrow> verb" where
  "string_to_verb name =
     (if name = ''GET'' then Verb_get else if name = ''HEAD'' then Verb_head else if name = ''PUT'' then Verb_put
      else if name = ''DELETE'' then Verb_delete else Verb_other name)"

definition message_of :: "location \<Rightarrow> http_request \<Rightarrow> message" where
  "message_of place sending =
     \<lparr>mg_method = string_to_verb (q_method sending), mg_target = lo_target place, mg_body = q_body sending,
      mg_headers = fold set_header (q_headers sending) (set_field ''Host'' (lo_authority place) []),
      mg_keep_alive = True\<rparr>"

section \<open>An answer as it arrives\<close>

record received_answer =
  ra_status :: int
  ra_fields :: fields
  ra_body :: string
  ra_keep_alive :: bool

definition header_prefix :: string where
  "header_prefix = ''X-Asyncdb-''"

definition is_ours :: "string \<times> string \<Rightarrow> bool" where
  "is_ours field =
     (length (fst field) \<ge> length header_prefix \<and> same_name (take (length header_prefix) (fst field)) header_prefix)"

text \<open>A length that is not there, or is not a number, is none.\<close>

definition take_headers :: "libs \<Rightarrow> received_answer \<Rightarrow> http_response \<Rightarrow> http_response" where
  "take_headers L received answer =
     answer\<lparr>a_status := ra_status received, a_content_type := header_in (ra_fields received) ''Content-Type'',
       a_content_length :=
         (case lexical_int64 L (header_in (ra_fields received) ''Content-Length'') of None \<Rightarrow> 0 | Some n \<Rightarrow> n),
       a_headers := a_headers answer @ filter is_ours (ra_fields received)\<rparr>"

definition no_answer :: http_response where
  "no_answer =
     \<lparr>a_status = 0, a_content_type = [], a_body = [], a_content_length = 0, a_reused = False, a_headers = []\<rparr>"

section \<open>One request and the answer to it\<close>

text \<open>How one read of an answer that does not end on its own ended: on its own, on the buffer being full, or failed.\<close>

datatype read_end = Read_some | Read_full | Read_failed string

record 'x sockets =
  \<comment> \<open>\<^verbatim>\<open>make_address\<close>: whether a host is an address; the lexical conversion of a port to its sixteen bits\<close>
  sk_address :: "string \<Rightarrow> bool"
  sk_port :: "string \<Rightarrow> 16 word option"
  \<comment> \<open>\<^verbatim>\<open>async_resolve\<close> of a host and a port: the addresses, or the message of the error\<close>
  sk_resolve :: "string \<Rightarrow> string \<Rightarrow> 'x \<Rightarrow> (string + string list) \<times> 'x"
  \<comment> \<open>\<^verbatim>\<open>async_connect\<close> to an address and a port, and to the first of some addresses that answers, until a time:
      the message of the error it ended in, if any\<close>
  sk_dial :: "string \<Rightarrow> 16 word \<Rightarrow> int \<Rightarrow> 'x \<Rightarrow> string option \<times> 'x"
  sk_dial_any :: "string list \<Rightarrow> int \<Rightarrow> 'x \<Rightarrow> string option \<times> 'x"
  \<comment> \<open>\<^verbatim>\<open>async_write\<close> and \<^verbatim>\<open>async_read\<close>, until a time: the answer, or the message of the error and whether
      anything of an answer had been read\<close>
  sk_transmit :: "connection \<Rightarrow> message \<Rightarrow> int option \<Rightarrow> 'x \<Rightarrow> ((string \<times> bool) + received_answer) \<times> 'x"
  \<comment> \<open>\<^verbatim>\<open>poll\<close>: whether there is anything to read on a connection\<close>
  sk_readable :: "connection \<Rightarrow> 'x \<Rightarrow> bool"
  \<comment> \<open>\<^verbatim>\<open>async_write\<close>, \<^verbatim>\<open>async_read_header\<close> and then \<^verbatim>\<open>async_read_some\<close> until the answer is done: what each
      read brought and how it ended\<close>
  sk_reads :: "connection \<Rightarrow> message \<Rightarrow> 'x \<Rightarrow> (string \<times> read_end) list \<times> 'x"
  \<comment> \<open>\<^verbatim>\<open>steady_clock::now()\<close>, in nanoseconds\<close>
  sk_now :: "'x \<Rightarrow> int"

definition second :: int where
  "second = 1000000000"

text \<open>An address is connected to as it is, where its port is one; a name is looked up first.\<close>

definition connect :: "'x sockets \<Rightarrow> string \<Rightarrow> string \<Rightarrow> int \<Rightarrow> 'x \<Rightarrow> string option \<times> 'x" where
  "connect K host port until w =
     (if sk_address K host
      then (case sk_port K port of
              None \<Rightarrow> (Some ''Invalid argument'', w)
            | Some number \<Rightarrow> sk_dial K host number until w)
      else (case sk_resolve K host port w of
              (Inl failed, w) \<Rightarrow> (Some failed, w)
            | (Inr addresses, w) \<Rightarrow> sk_dial_any K addresses until w))"

definition close_link :: "connection \<Rightarrow> connection" where
  "close_link link = link\<lparr>cn_open := False\<rparr>"

text \<open>One try: a connection that is not open is made first. The error says whether anything had been read.\<close>

definition attempt :: "'x sockets \<Rightarrow> message \<Rightarrow> int option \<Rightarrow> int \<Rightarrow> connection \<Rightarrow> 'x \<Rightarrow>
    ((string \<times> bool) + received_answer) \<times> connection \<times> 'x" where
  "attempt K carried deadline connect_timeout link w =
     (let (refused, link, w) =
        (if cn_open link then (None, link, w)
         else let bound = sk_now K w + connect_timeout * second;
                  (refused, w) = connect K (cn_host link) (cn_port link)
                    (case deadline of None \<Rightarrow> bound | Some d \<Rightarrow> min d bound) w
              in (refused, if refused = None then link\<lparr>cn_open := True\<rparr> else link, w))
      in case refused of
           Some why \<Rightarrow> (Inl (why, False), link, w)
         | None \<Rightarrow> (let (answer, w) = sk_transmit K link carried deadline w in (answer, link, w)))"

function exchange_tries :: "libs \<Rightarrow> 'x sockets \<Rightarrow> message \<Rightarrow> int option \<Rightarrow> int \<Rightarrow> bool \<Rightarrow> connection \<Rightarrow> 'x \<Rightarrow>
    (string + http_response) \<times> connection \<times> 'x" where
  "exchange_tries L K carried deadline connect_timeout reused link w =
     (case attempt K carried deadline connect_timeout link w of
        (Inr received, link, w) \<Rightarrow>
          (Inr ((take_headers L received (no_answer\<lparr>a_reused := reused\<rparr>))\<lparr>a_body := ra_body received\<rparr>),
           if ra_keep_alive received then link else close_link link, w)
      | (Inl (why, got_some), link, w) \<Rightarrow>
          if \<not> reused \<or> got_some then (Inl why, close_link link, w)
          else exchange_tries L K carried deadline connect_timeout False (close_link link) w)"
  by pat_completeness auto

text \<open>A request is made again only while it is on a connection that was used before, so at most once.\<close>

termination by (relation "measure (\<lambda>(L, K, carried, deadline, connect_timeout, reused, link, w). if reused then 1 else 0)") auto

declare exchange_tries.simps [simp del]

definition exchange :: "libs \<Rightarrow> 'x sockets \<Rightarrow> location \<Rightarrow> http_request \<Rightarrow> int \<Rightarrow> int \<Rightarrow> connection \<Rightarrow> 'x \<Rightarrow>
    (string + http_response) \<times> connection \<times> 'x" where
  "exchange L K place sent timeout connect_timeout link w =
     exchange_tries L K (message_of place sent)
       (if timeout > 0 then Some (sk_now K w + timeout * second) else None) connect_timeout (cn_open link) link w"

section \<open>Many requests at once\<close>

text \<open>What the operating system says of the connections a pool holds, when one is taken.\<close>

definition polled :: "'x sockets \<Rightarrow> 'x \<Rightarrow> connection list \<Rightarrow> connection list" where
  "polled K w idle = map (\<lambda>c. c\<lparr>cn_readable := sk_readable K c w\<rparr>) idle"

record 'x beast =
  bc_idle :: "connection list"
  bc_shared :: "connection list"
  bc_world :: 'x

text \<open>
  The connections of all requests are taken before the first is used and handed back after the last answer,
  so no two requests of a fan out share one.
\<close>

fun take_links :: "'x sockets \<Rightarrow> http_request list \<Rightarrow> 'x beast \<Rightarrow> (location \<times> connection) option list \<times> 'x beast" where
  "take_links K [] b = ([], b)"
| "take_links K (sent # requests) b =
     (case locate (q_url sent) of
        None \<Rightarrow> (let (links, b) = take_links K requests b in (None # links, b))
      | Some place \<Rightarrow>
          (let (link, idle) = pool_take (lo_host place) (lo_port place) (sk_now K (bc_world b)) (polled K (bc_world b) (bc_idle b));
               (links, b) = take_links K requests (b\<lparr>bc_idle := idle\<rparr>)
           in (Some (place, link) # links, b)))"

fun exchange_all :: "libs \<Rightarrow> 'x sockets \<Rightarrow> int \<Rightarrow> int \<Rightarrow> (http_request \<times> (location \<times> connection) option) list \<Rightarrow> 'x \<Rightarrow>
    (string + http_response) list \<times> connection list \<times> 'x" where
  "exchange_all L K timeout connect_timeout [] w = ([], [], w)"
| "exchange_all L K timeout connect_timeout ((sent, taken) # rest) w =
     (case taken of
        None \<Rightarrow>
          (let (answers, links, w) = exchange_all L K timeout connect_timeout rest w
           in (Inl (not_a_url (q_url sent)) # answers, links, w))
      | Some (place, link) \<Rightarrow>
          (let (answer, link, w) = exchange L K place sent timeout connect_timeout link w;
               (answers, links, w) = exchange_all L K timeout connect_timeout rest w
           in (answer # answers, link # links, w)))"

definition fan_out :: "libs \<Rightarrow> 'x sockets \<Rightarrow> int \<Rightarrow> http_request list \<Rightarrow> int \<Rightarrow> 'x beast \<Rightarrow>
    (string + http_response) list \<times> 'x beast" where
  "fan_out L K connect_timeout requests timeout b =
     (let (links, b) = take_links K requests b;
          (answers, used, w) = exchange_all L K timeout connect_timeout (zip requests links) (bc_world b)
      in (answers, b\<lparr>bc_idle := fold (pool_keep (sk_now K w)) used (bc_idle b), bc_world := w\<rparr>))"

definition beast_send :: "libs \<Rightarrow> 'x sockets \<Rightarrow> int \<Rightarrow> http_request \<Rightarrow> int \<Rightarrow> 'x beast \<Rightarrow> (string + http_response) \<times> 'x beast" where
  "beast_send L K connect_timeout sent timeout b =
     (let (answers, b) = fan_out L K connect_timeout [sent] timeout b in (hd answers, b))"

definition async_send :: "libs \<Rightarrow> 'x sockets \<Rightarrow> int \<Rightarrow> http_request \<Rightarrow> int \<Rightarrow> 'x beast \<Rightarrow> (string + http_response) \<times> 'x beast" where
  "async_send L K connect_timeout sent timeout b =
     (case locate (q_url sent) of
        None \<Rightarrow> (Inl (not_a_url (q_url sent)), b)
      | Some place \<Rightarrow>
          (let (link, idle) = shared_pool_take (lo_host place) (lo_port place) (sk_now K (bc_world b))
                 (polled K (bc_world b) (bc_shared b));
               (answer, link, w) = exchange L K place sent timeout connect_timeout link (bc_world b)
           in (answer, b\<lparr>bc_shared := shared_pool_keep (sk_now K w) link idle, bc_world := w\<rparr>)))"

text \<open>
  An answer that does not end on its own: the pieces that brought something are handed on, up to the read
  that failed. The receiver that ends a stream early is the caller's (\<open>watch_pieces\<close>).
\<close>

fun fed_pieces :: "(string \<times> read_end) list \<Rightarrow> string list" where
  "fed_pieces [] = []"
| "fed_pieces ((piece, ended) # reads) =
     (if piece \<noteq> [] then [piece] else []) @
     (case ended of Read_failed why \<Rightarrow> [] | Read_some \<Rightarrow> fed_pieces reads | Read_full \<Rightarrow> fed_pieces reads)"

definition feed :: "'x sockets \<Rightarrow> int \<Rightarrow> location \<Rightarrow> http_request \<Rightarrow> 'x \<Rightarrow> string list \<times> 'x" where
  "feed K connect_timeout place sent w =
     (let link = new_connection (lo_host place) (lo_port place);
          (refused, w) = connect K (cn_host link) (cn_port link) (sk_now K w + connect_timeout * second) w
      in case refused of
           Some why \<Rightarrow> ([], w)
         | None \<Rightarrow> (let (reads, w) = sk_reads K (link\<lparr>cn_open := True\<rparr>) (message_of place sent) w in (fed_pieces reads, w)))"

definition beast_stream :: "'x sockets \<Rightarrow> int \<Rightarrow> http_request \<Rightarrow> 'x beast \<Rightarrow> string list \<times> 'x beast" where
  "beast_stream K connect_timeout sent b =
     (case locate (q_url sent) of
        None \<Rightarrow> ([], b)
      | Some place \<Rightarrow>
          (let (pieces, w) = feed K connect_timeout place sent (bc_world b) in (pieces, b\<lparr>bc_world := w\<rparr>)))"

text \<open>The client as the network the rest of a node is written over.\<close>

definition beast_net :: "libs \<Rightarrow> 'x sockets \<Rightarrow> int \<Rightarrow> 'x beast net" where
  "beast_net L K connect_timeout =
     \<lparr>net_send = beast_send L K connect_timeout, net_send_all = fan_out L K connect_timeout,
      net_stream = beast_stream K connect_timeout,
      net_now = (\<lambda>b. sk_now K (bc_world b))\<rparr>"

end
