(* ===== verification/Session.thy ===== *)
theory Session
  imports Router Beast
begin

text \<open>
  \<^verbatim>\<open>src/server/session.cpp\<close>: a request as it is read off a connection, made the router's, and the router's
  answer as it is written back, and the life of the connection between the two. Boost.Beast parses and
  prints the messages; what the code sets of one and reads of one is what is here.
\<close>

record sent_answer =
  sa_status :: status_code
  sa_fields :: fields
  sa_body :: string
  sa_keep_alive :: bool

definition max_header_size :: nat where
  "max_header_size = 3 * max_key_size + 8 * 1024"

section \<open>Writing an answer\<close>

text \<open>The field that names the server and the one of \<^verbatim>\<open>keep_alive\<close> are read by nobody here.\<close>

definition describe :: "response \<Rightarrow> fields" where
  "describe given =
     (let fs = (if rs_content_type given \<noteq> [] then set_field ''Content-Type'' (rs_content_type given) [] else []);
          fs = (if f_records (rs_file given) > 0
                then set_field records_header (to_string (f_records (rs_file given))) fs else fs)
      in if f_next (rs_file given) \<noteq> [] then set_field next_header (f_next (rs_file given)) fs else fs)"

text \<open>\<^verbatim>\<open>prepare_payload\<close>: no length is said of an answer that has no body by its status.\<close>

definition prepare_payload :: "status_code \<Rightarrow> string \<Rightarrow> fields \<Rightarrow> fields" where
  "prepare_payload status body fs =
     (if body \<noteq> [] \<or> (status \<ge> 200 \<and> status \<noteq> 204 \<and> status \<noteq> 304)
      then set_field ''Content-Length'' (to_string (length body)) fs else fs)"

definition write_text :: "libs \<Rightarrow> bool \<Rightarrow> response \<Rightarrow> bool \<Rightarrow> sent_answer" where
  "write_text L stays_open given head =
     (let body = response_body L given;
          body_length = (if body = [] then rs_length given else length body);
          written = (if head then [] else body);
          fs = prepare_payload (rs_status given) written (describe given)
      in \<lparr>sa_status = rs_status given,
          sa_fields = (if head \<and> body_length > 0 then set_field ''Content-Length'' (to_string body_length) fs else fs),
          sa_body = written, sa_keep_alive = stays_open\<rparr>)"

text \<open>\<open>unopened\<close> is the message of the error the scratch file opens with, or nothing where it opens.\<close>

definition make_response :: "libs \<Rightarrow> string option \<Rightarrow> bool \<Rightarrow> response \<Rightarrow> bool \<Rightarrow> sent_answer" where
  "make_response L unopened stays_open given head =
     (case f_sent (rs_file given) of
        Some bytes \<Rightarrow>
          (case unopened of
             Some why \<Rightarrow>
               write_text L stays_open
                 (error_response Storage_error (''The file of records could not be opened to send: '' @ why @ ''.'')) head
           | None \<Rightarrow>
               \<lparr>sa_status = rs_status given, sa_fields = prepare_payload (rs_status given) bytes (describe given),
                sa_body = bytes, sa_keep_alive = stays_open\<rparr>)
      | None \<Rightarrow> write_text L stays_open given head)"

section \<open>Reading a request\<close>

definition is_routable_method :: "verb \<Rightarrow> bool" where
  "is_routable_method meth = (meth = Verb_get \<or> meth = Verb_head \<or> meth = Verb_put \<or> meth = Verb_delete)"

definition read_term :: "libs \<Rightarrow> string \<Rightarrow> int" where
  "read_term L header =
     (if header = [] then 0 else case lexical_int64 L header of None \<Rightarrow> 0 | Some read \<Rightarrow> read)"

definition read_count :: "libs \<Rightarrow> string \<Rightarrow> uint64" where
  "read_count L header =
     (if header = [] then 0 else case lexical_uint64 L header of None \<Rightarrow> 0 | Some n \<Rightarrow> n)"

definition has_traversal :: "libs \<Rightarrow> string \<Rightarrow> bool" where
  "has_traversal L target_text =
     list_ex (\<lambda>segment. segment = ''..'')
       (split_path L (case find_char CHR ''?'' target_text of None \<Rightarrow> target_text | Some i \<Rightarrow> take i target_text))"

definition routed :: "libs \<Rightarrow> message \<Rightarrow> request" where
  "routed L m =
     \<lparr>rq_method = mg_method m, rq_path = split_path L (mg_target m), rq_query = query_string (mg_target m),
      rq_body = mg_body m, rq_forwarded = (header_in (mg_headers m) forwarded_header \<noteq> []),
      rq_term = read_term L (header_in (mg_headers m) term_header),
      rq_count = read_count L (header_in (mg_headers m) count_header)\<rparr>"

definition answer_to :: "libs \<Rightarrow> 'db rocksdb \<Rightarrow> 'w net \<Rightarrow> message \<Rightarrow> ('db, 'w) router \<Rightarrow> response \<times> ('db, 'w) router" where
  "answer_to L R N m s =
     (if \<not> is_routable_method (mg_method m)
      then (error_response Method_not_allowed (verb_name (mg_method m) @ '' is not a method of this API.''), s)
      else if mg_target m = [] \<or> mg_target m ! 0 \<noteq> CHR ''/'' \<or> has_traversal L (mg_target m)
      then (error_response Invalid_path ''Invalid request path.'', s)
      else case route L R N (routed L m) s of
             (Inl e, s) \<Rightarrow> (error_response (thrown_code e) (thrown_message e), s)
           | (Inr answer, s) \<Rightarrow> (answer, s))"

definition handle_request :: "libs \<Rightarrow> 'db rocksdb \<Rightarrow> 'w net \<Rightarrow> string option \<Rightarrow> bool \<Rightarrow> message \<Rightarrow> ('db, 'w) router \<Rightarrow>
    sent_answer \<times> ('db, 'w) router" where
  "handle_request L R N unopened stopping m s =
     (let (answer, s) = answer_to L R N m s
      in (make_response L unopened (mg_keep_alive m \<and> \<not> stopping) answer (mg_method m = Verb_head), s))"

section \<open>The life of a connection\<close>

text \<open>
  A session waits for a request, or writes an answer, or was closed. It is told to stop by a handler posted
  to its strand, which runs when the strand gets to it.
\<close>

record session =
  se_waiting :: bool
  se_told :: bool
  se_cancelled :: bool
  se_writing :: "sent_answer option"
  se_closed :: bool

definition session_of :: session where
  "session_of = \<lparr>se_waiting = False, se_told = False, se_cancelled = False, se_writing = None, se_closed = False\<rparr>"

definition session_read :: "session \<Rightarrow> session" where
  "session_read c = c\<lparr>se_waiting := True\<rparr>"

definition session_write :: "sent_answer \<Rightarrow> session \<Rightarrow> session" where
  "session_write answer c = c\<lparr>se_writing := Some answer\<rparr>"

definition session_close :: "session \<Rightarrow> session" where
  "session_close c = c\<lparr>se_closed := True\<rparr>"

definition session_run :: "session \<Rightarrow> session" where
  "session_run c = session_read c"

definition session_stop :: "session \<Rightarrow> session" where
  "session_stop c = c\<lparr>se_told := True\<rparr>"

text \<open>The posted handler: only a read that is pending is cut, and it then ends in an error.\<close>

definition session_stopped :: "session \<Rightarrow> session" where
  "session_stopped c = (let c = c\<lparr>se_told := False\<rparr> in if se_waiting c then c\<lparr>se_cancelled := True\<rparr> else c)"

text \<open>The end of a read, an error or a whole request, which is answered.\<close>

definition on_read :: "libs \<Rightarrow> 'db rocksdb \<Rightarrow> 'w net \<Rightarrow> string option \<Rightarrow> bool \<Rightarrow> message option \<Rightarrow> session \<Rightarrow> ('db, 'w) router \<Rightarrow>
    session \<times> ('db, 'w) router" where
  "on_read L R N unopened stopping received c s =
     (let c = c\<lparr>se_waiting := False\<rparr>
      in case received of
           None \<Rightarrow> (session_close c, s)
         | Some m \<Rightarrow> (let (answer, s) = handle_request L R N unopened stopping m s in (session_write answer c, s)))"

definition on_write :: "bool \<Rightarrow> bool \<Rightarrow> bool \<Rightarrow> session \<Rightarrow> session" where
  "on_write stays_open failed stopping c =
     (let c = c\<lparr>se_writing := None\<rparr>
      in if failed then session_close c
         else if stays_open \<and> \<not> stopping then session_read c
         else session_close c)"

text \<open>What can happen to a session next. A read that was cut ends in an error.\<close>

inductive session_step :: "libs \<Rightarrow> 'db rocksdb \<Rightarrow> 'w net \<Rightarrow> bool \<Rightarrow> session \<times> ('db, 'w) router \<Rightarrow>
    session \<times> ('db, 'w) router \<Rightarrow> bool" for L R N stopping where
  told: "se_told c \<Longrightarrow> session_step L R N stopping (c, s) (session_stopped c, s)"
| read_ends: "se_waiting c \<Longrightarrow> (se_cancelled c \<longrightarrow> received = None) \<Longrightarrow>
    session_step L R N stopping (c, s) (on_read L R N unopened stopping received c s)"
| write_ends: "se_writing c = Some answer \<Longrightarrow>
    session_step L R N stopping (c, s) (on_write (sa_keep_alive answer) failed stopping c, s)"

inductive_cases session_stepE: "session_step L R N stopping x y"

definition session_ok :: "session \<Rightarrow> bool" where
  "session_ok c = (if se_closed c then \<not> se_waiting c \<and> se_writing c = None
                   else se_waiting c \<longleftrightarrow> se_writing c = None)"

lemmas session_defs = session_read_def session_write_def session_close_def session_stopped_def on_read_def on_write_def Let_def

lemma session_step_ok:
  assumes "session_step L R N stopping (c, s) (c', s')" "session_ok c"
  shows "session_ok c'"
  using assms by (auto elim!: session_stepE simp: session_ok_def session_defs
    split: option.splits prod.splits if_splits)

definition session_rest :: "session \<Rightarrow> nat" where
  "session_rest c = (if se_closed c then 0 else if se_waiting c then 2 else 1) + (if se_told c then 1 else 0)"

lemma session_step_rest:
  assumes "session_step L R N True (c, s) (c', s')" "session_ok c"
  shows "session_rest c' < session_rest c"
  using assms by (auto elim!: session_stepE simp: session_ok_def session_rest_def session_defs
    split: option.splits prod.splits if_splits)

lemma session_step_alive:
  assumes "session_ok c" "\<not> se_closed c"
  shows "\<exists>x. session_step L R N stopping (c, s) x"
proof (cases "se_waiting c")
  case True
  then show ?thesis by (meson read_ends)
next
  case False
  with assms obtain answer where "se_writing c = Some answer" by (auto simp: session_ok_def)
  then show ?thesis by (meson write_ends)
qed

lemma session_steps_ok: "(session_step L R N stopping ^^ n) (c, s) (c', s') \<Longrightarrow> session_ok c \<Longrightarrow> session_ok c'"
proof (induction n arbitrary: c s)
  case (Suc n)
  from Suc.prems(1) obtain d t where d: "session_step L R N stopping (c, s) (d, t)"
    "(session_step L R N stopping ^^ n) (d, t) (c', s')" by (metis relpowp_Suc_D2 surj_pair)
  from Suc.IH [OF d(2) session_step_ok [OF d(1) Suc.prems(2)]] show ?case .
qed simp

lemma session_steps_rest:
  "(session_step L R N True ^^ n) (c, s) (c', s') \<Longrightarrow> session_ok c \<Longrightarrow> session_rest c' + n \<le> session_rest c"
proof (induction n arbitrary: c s)
  case (Suc n)
  from Suc.prems(1) obtain d t where d: "session_step L R N True (c, s) (d, t)"
    "(session_step L R N True ^^ n) (d, t) (c', s')" by (metis relpowp_Suc_D2 surj_pair)
  from session_step_rest [OF d(1) Suc.prems(2)] Suc.IH [OF d(2) session_step_ok [OF d(1) Suc.prems(2)]]
  show ?case by linarith
qed simp

end
