(* ===== verification/Share_Walk.thy ===== *)
theory Share_Walk
  imports Router
begin

text \<open>
  \<^verbatim>\<open>src/progress/patience.cpp\<close>, \<^verbatim>\<open>src/transfer/relay.cpp\<close> and \<^verbatim>\<open>src/transfer/transfer.cpp\<close>: how a node reads
  another node's share of a table, in several pieces at once, and takes the files of it in.

  The thread that asks touches the network alone and the threads that take files in touch the store alone,
  so a walk is here the asking, round after round, which puts each piece's files in order, and then the
  taking in of all of them in any order that keeps each piece's own: \<open>schedule\<close> says which, and what is proved
  of a walk is proved for every one. The rounds are bounded by \<open>fuel\<close>; a walk that runs out of it is no
  result (\<open>None\<close>), and the properties say what is enough of it. A \<^verbatim>\<open>stop_token\<close> is a question asked of the world.
\<close>

section \<open>Patience\<close>

record patience =
  without :: int
  expires :: int

definition patience_of :: "'w net \<Rightarrow> int \<Rightarrow> 'w \<Rightarrow> patience" where
  "patience_of N secs w = \<lparr>without = seconds secs, expires = net_now N w + seconds secs\<rparr>"

definition spent :: "'w net \<Rightarrow> patience \<Rightarrow> 'w \<Rightarrow> bool" where
  "spent N p w = (net_now N w \<ge> expires p)"

definition renew :: "'w net \<Rightarrow> patience \<Rightarrow> 'w \<Rightarrow> patience" where
  "renew N p w = p\<lparr>expires := net_now N w + without p\<rparr>"

section \<open>The handoff between two threads\<close>

record relay =
  slot :: "string option"
  closed :: bool

definition empty_relay :: relay where
  "empty_relay = \<lparr>slot = None, closed = False\<rparr>"

text \<open>Each operation waits for its condition: nothing is a thread that still waits.\<close>

definition relay_put :: "string \<Rightarrow> relay \<Rightarrow> relay option" where
  "relay_put file r = (if slot r \<noteq> None then None else Some (r\<lparr>slot := Some file\<rparr>))"

definition relay_take :: "relay \<Rightarrow> (string option \<times> relay) option" where
  "relay_take r =
     (if slot r = None \<and> \<not> closed r then None
      else case slot r of None \<Rightarrow> Some (None, r) | Some file \<Rightarrow> Some (Some file, r\<lparr>slot := None\<rparr>))"

definition relay_close :: "relay \<Rightarrow> relay" where
  "relay_close r = r\<lparr>closed := True\<rparr>"

section \<open>A share of a table\<close>

definition default_workers :: nat where
  "default_workers = 4"

record transfer_share =
  ts_node :: string
  ts_table :: string
  ts_partitions :: partition_set
  ts_values :: bool
  ts_workers :: nat
  ts_bytes :: nat

record transfer_outcome =
  to_whole :: bool
  to_refused :: bool

record piece =
  pc_from :: string
  pc_has_from :: bool
  pc_to :: string
  pc_has_to :: bool
  pc_going :: bool
  pc_whole :: bool
  pc_refused :: bool

definition new_piece :: piece where
  "new_piece =
     \<lparr>pc_from = [], pc_has_from = False, pc_to = [], pc_has_to = False, pc_going = True, pc_whole = False,
      pc_refused = False\<rparr>"

definition get_request :: "string list \<Rightarrow> string \<Rightarrow> request" where
  "get_request path query =
     \<lparr>rq_method = Verb_get, rq_path = path, rq_query = query, rq_body = [], rq_forwarded = False, rq_term = 0, rq_count = 0\<rparr>"

definition schema_request :: request where
  "schema_request = get_request [''schema''] []"

text \<open>What an answer does to its piece, and the file it puts in the relay, if any.\<close>

definition carry :: "piece \<Rightarrow> response \<Rightarrow> piece \<times> string list" where
  "carry walking answer =
     (if rs_status answer \<noteq> ok_200 then (walking\<lparr>pc_going := False, pc_refused := True\<rparr>, [])
      else (if f_next (rs_file answer) = [] then walking\<lparr>pc_going := False, pc_whole := True\<rparr>
            else case base64_decode (f_next (rs_file answer)) of
                   None \<Rightarrow> walking\<lparr>pc_going := False, pc_refused := True\<rparr>
                 | Some resumes \<Rightarrow>
                     if pc_has_from walking \<and> resumes = pc_from walking
                     then walking\<lparr>pc_going := False, pc_refused := True\<rparr>
                     else walking\<lparr>pc_from := resumes, pc_has_from := True\<rparr>,
            [rs_text answer]))"

definition file_request :: "libs \<Rightarrow> transfer_share \<Rightarrow> piece \<Rightarrow> nat \<Rightarrow> request" where
  "file_request L wanted walking bytes =
     get_request [''table'', ts_table wanted, ''file'']
       (''partitions='' @ encode_partitions (ts_partitions wanted) @
        ''&values='' @ (if ts_values wanted then ''true'' else ''false'') @
        ''&bytes='' @ to_string bytes @
        (if pc_has_from walking then ''&from='' @ encode_url L (base64_encode (pc_from walking)) else []) @
        (if pc_has_to walking then ''&to='' @ encode_url L (base64_encode (pc_to walking)) else []))"

definition split_request :: "transfer_share \<Rightarrow> request" where
  "split_request wanted = get_request [''table'', ts_table wanted, ''split''] (''ways='' @ to_string (ts_workers wanted))"

fun read_points :: "json list \<Rightarrow> string list option" where
  "read_points [] = Some []"
| "read_points (encoded # rest) =
     (case (case encoded of Jstring s \<Rightarrow> base64_decode s | _ \<Rightarrow> None) of
        None \<Rightarrow> None
      | Some key \<Rightarrow> map_option (\<lambda>keys. key # keys) (read_points rest))"

definition asked_points :: "libs \<Rightarrow> 'w net \<Rightarrow> transfer_share \<Rightarrow> 'w \<Rightarrow> string list \<times> 'w" where
  "asked_points L N wanted w =
     (if ts_workers wanted < 2 then ([], w)
      else let (answer, w) = forward L N (ts_node wanted) (split_request wanted) w
           in if rs_status answer \<noteq> ok_200 then ([], w)
              else case json_array_at (rs_json answer) ''keys'' of
                     None \<Rightarrow> ([], w)
                   | Some keys \<Rightarrow> (case read_points keys of None \<Rightarrow> [] | Some points \<Rightarrow> points, w))"

definition pieces_of :: "string list \<Rightarrow> piece list" where
  "pieces_of points =
     map (\<lambda>i. let walking = (if i > 0 then new_piece\<lparr>pc_from := points ! (i - 1), pc_has_from := True\<rparr> else new_piece)
              in if i < length points then walking\<lparr>pc_to := points ! i, pc_has_to := True\<rparr> else walking)
       [0..<length points + 1]"

section \<open>A walk\<close>

record walking =
  wk_pieces :: "piece list"
  wk_files :: "string list list"
  wk_waiting :: patience

definition carry_to :: "nat \<Rightarrow> response \<Rightarrow> walking \<Rightarrow> walking" where
  "carry_to i answer k =
     (let (p, put) = carry (wk_pieces k ! i) answer
      in k\<lparr>wk_pieces := (wk_pieces k)[i := p], wk_files := (wk_files k)[i := wk_files k ! i @ put]\<rparr>)"

definition ask_round :: "libs \<Rightarrow> 'w net \<Rightarrow> transfer_share \<Rightarrow> nat \<Rightarrow> nat list \<Rightarrow> walking \<Rightarrow> 'w \<Rightarrow> walking \<times> 'w" where
  "ask_round L N wanted bytes asked k w =
     (let (answers, w) = forward_each L N
            (map (\<lambda>i. \<lparr>en_node = ts_node wanted, en_request = file_request L wanted (wk_pieces k ! i) bytes\<rparr>) asked) w;
          k = fold (\<lambda>(i, answer). carry_to i answer) (zip asked answers) k
      in (k\<lparr>wk_waiting := renew N (wk_waiting k) w\<rparr>, w))"

definition still_going :: "walking \<Rightarrow> nat list" where
  "still_going k = filter (\<lambda>i. pc_going (wk_pieces k ! i)) [0..<length (wk_pieces k)]"

fun ask_rounds :: "nat \<Rightarrow> libs \<Rightarrow> 'w net \<Rightarrow> ('w \<Rightarrow> bool) \<Rightarrow> transfer_share \<Rightarrow> nat \<Rightarrow> walking \<Rightarrow> 'w \<Rightarrow> (walking \<times> 'w) option" where
  "ask_rounds 0 L N stop_requested wanted bytes k w = None"
| "ask_rounds (Suc fuel) L N stop_requested wanted bytes k w =
     (if stop_requested w \<or> spent N (wk_waiting k) w then Some (k, w)
      else if still_going k = [] then Some (k, w)
      else let (k, w) = ask_round L N wanted bytes (still_going k) k w
           in ask_rounds fuel L N stop_requested wanted bytes k w)"

text \<open>
  The files of all pieces in the order the takers get to them: the schedule names the taker that moves next,
  and what it leaves is taken piece by piece.
\<close>

fun interleave :: "nat list \<Rightarrow> string list list \<Rightarrow> string list" where
  "interleave [] queues = concat queues"
| "interleave (i # schedule) queues =
     (if i < length queues \<and> queues ! i \<noteq> []
      then hd (queues ! i) # interleave schedule (queues[i := tl (queues ! i)])
      else interleave schedule queues)"

text \<open>A file that throws ends the taking in, not the emptying of the relays. The count is what the files added.\<close>

fun take_in :: "(string \<Rightarrow> ('db, 'w, nat) handler) \<Rightarrow> string list \<Rightarrow> bool \<Rightarrow> nat \<Rightarrow> ('db, 'w) router \<Rightarrow>
    (bool \<times> nat) \<times> ('db, 'w) router" where
  "take_in take_file [] failed n s = ((failed, n), s)"
| "take_in take_file (file # files) failed n s =
     (if failed then take_in take_file files failed n s
      else case take_file file s of
             (Inl _, s) \<Rightarrow> take_in take_file files True n s
           | (Inr m, s) \<Rightarrow> take_in take_file files False (n + m) s)"

definition with_wire :: "'w \<Rightarrow> ('db, 'w) router \<Rightarrow> ('db, 'w) router" where
  "with_wire w s = s\<lparr>nodes := (nodes s)\<lparr>etcd_client := (etcd_client (nodes s))\<lparr>wire := w\<rparr>\<rparr>\<rparr>"

record walked =
  wd_outcome :: transfer_outcome
  wd_count :: nat
  wd_waiting :: patience

definition ended :: "bool \<Rightarrow> piece list \<Rightarrow> transfer_outcome" where
  "ended failed pieces =
     \<lparr>to_whole = (\<not> failed \<and> list_all pc_whole pieces), to_refused = list_ex pc_refused pieces\<rparr>"

definition walk_share :: "nat \<Rightarrow> nat list \<Rightarrow> libs \<Rightarrow> 'w net \<Rightarrow> ('w \<Rightarrow> bool) \<Rightarrow> transfer_share \<Rightarrow> (string \<Rightarrow> ('db, 'w, nat) handler) \<Rightarrow>
    patience \<Rightarrow> ('db, 'w) router \<Rightarrow> (walked \<times> ('db, 'w) router) option" where
  "walk_share fuel schedule L N stop_requested wanted take_file waiting s =
     (if stop_requested (network (nodes s))
      then Some (\<lparr>wd_outcome = \<lparr>to_whole = False, to_refused = False\<rparr>, wd_count = 0, wd_waiting = waiting\<rparr>, s)
      else let (points, w) = asked_points L N wanted (network (nodes s));
               pieces = pieces_of points;
               bytes = max (ts_bytes wanted div length pieces) 1
           in case ask_rounds fuel L N stop_requested wanted bytes
                \<lparr>wk_pieces = pieces, wk_files = replicate (length pieces) [], wk_waiting = waiting\<rparr> w of
                None \<Rightarrow> None
              | Some (k, w) \<Rightarrow>
                  (let ((failed, n), s) = take_in take_file (interleave schedule (wk_files k)) False 0 (with_wire w s)
                   in Some (\<lparr>wd_outcome = ended failed (wk_pieces k), wd_count = n, wd_waiting = wk_waiting k\<rparr>, s)))"

fun tables_of :: "libs \<Rightarrow> 'w net \<Rightarrow> string list \<Rightarrow> patience \<Rightarrow> 'w \<Rightarrow> (schema option \<times> patience) \<times> 'w" where
  "tables_of L N [] waiting w = ((None, waiting), w)"
| "tables_of L N (node # zone) waiting w =
     (if spent N waiting w then ((None, waiting), w)
      else let (answer, w) = forward L N node schema_request w
           in if rs_status answer \<noteq> ok_200 \<or> json_array_at (rs_json answer) ''schema'' = None
              then tables_of L N zone waiting w
              else ((Some (to_schema L (json_serialize L (Jobject (rs_json answer)))), renew N waiting w), w))"

end
