(* ===== verification/Reconcile.thy ===== *)
theory Reconcile
  imports Share_Walk
begin

text \<open>
  \<^verbatim>\<open>src/reconcile/reconcile.cpp\<close> and \<^verbatim>\<open>src/rebuild/rebuild.cpp\<close>: a pass that brings a store in line with the
  membership, taking what this node owns from the nodes that hold it and giving up what it does not own once
  the owner has it, and the filling of an empty store before the node joins.

  A pass is a run: it may throw what the store throws, and it has no result (\<open>None\<close>) where a loop of it
  outran its fuel. \<open>schedules\<close> orders the takers of the walk of each node and table.
\<close>

unbundle bit_operations_syntax

type_synonym ('s, 'a) run = "'s \<Rightarrow> ((storage_error + 'a) \<times> 's) option"

definition run_of :: "('s, storage_error, 'a) exec \<Rightarrow> ('s, 'a) run" where
  "run_of m s = Some (m s)"

definition chain :: "('s, 'a) run \<Rightarrow> ('a \<Rightarrow> ('s, 'b) run) \<Rightarrow> ('s, 'b) run" where
  "chain m f s =
     (case m s of
        None \<Rightarrow> None
      | Some (Inl e, s) \<Rightarrow> Some (Inl e, s)
      | Some (Inr a, s) \<Rightarrow> f a s)"

definition walk_run :: "nat \<Rightarrow> nat list \<Rightarrow> libs \<Rightarrow> 'w net \<Rightarrow> ('w \<Rightarrow> bool) \<Rightarrow> transfer_share \<Rightarrow> (string \<Rightarrow> ('db, 'w, nat) handler) \<Rightarrow>
    patience \<Rightarrow> (('db, 'w) router, walked) run" where
  "walk_run fuel schedule L N stop_requested wanted take_file waiting s =
     map_option (\<lambda>(d, s). (Inr d, s)) (walk_share fuel schedule L N stop_requested wanted take_file waiting s)"

type_synonym schedules = "string \<Rightarrow> string \<Rightarrow> nat list"

section \<open>Taking\<close>

record reconcile_outcome =
  oc_fetched :: nat
  oc_cleared :: nat
  oc_deferred :: nat
  oc_finished :: bool
  oc_refused :: bool
  oc_filled :: partition_set
  oc_generation :: uint64

definition no_outcome :: reconcile_outcome where
  "no_outcome =
     \<lparr>oc_fetched = 0, oc_cleared = 0, oc_deferred = 0, oc_finished = False, oc_refused = False, oc_filled = 0,
      oc_generation = 0\<rparr>"

definition settled_outcome :: "reconcile_outcome \<Rightarrow> bool" where
  "settled_outcome done_of = (oc_finished done_of \<and> \<not> oc_refused done_of \<and> oc_deferred done_of = 0)"

definition moved :: "reconcile_outcome \<Rightarrow> bool" where
  "moved done_of = (oc_fetched done_of > 0 \<or> oc_cleared done_of > 0)"

definition share_wanted :: "string \<Rightarrow> string \<Rightarrow> partition_set \<Rightarrow> bool \<Rightarrow> nat \<Rightarrow> transfer_share" where
  "share_wanted node name partitions values workers =
     \<lparr>ts_node = node, ts_table = name, ts_partitions = partitions, ts_values = values, ts_workers = workers,
      ts_bytes = max_file_bytes\<rparr>"

text \<open>A file taken in, and the terms it brought restored to the fence.\<close>

definition take_records :: "'db rocksdb \<Rightarrow> string \<Rightarrow> string \<Rightarrow> ('db, 'w, nat) handler" where
  "take_records R name file =
     andthen (on_store (import_records R name file)) (\<lambda>n s.
       ret n (s\<lparr>nodes := restore_terms (read_terms (store s)) (nodes s)\<rparr>))"

definition fetch_from :: "nat \<Rightarrow> schedules \<Rightarrow> libs \<Rightarrow> 'db rocksdb \<Rightarrow> 'w net \<Rightarrow> ('w \<Rightarrow> bool) \<Rightarrow> string \<Rightarrow> string \<Rightarrow> partition_set \<Rightarrow>
    nat \<Rightarrow> patience \<Rightarrow> (('db, 'w) router, reconcile_outcome \<times> patience) run" where
  "fetch_from fuel schedules L R N stop_requested node name partitions workers waiting =
     chain (walk_run fuel (schedules node name) L N stop_requested (share_wanted node name partitions True workers)
         (take_records R name) waiting)
       (\<lambda>d. run_of (ret
          (no_outcome\<lparr>oc_finished := to_whole (wd_outcome d) \<or> to_refused (wd_outcome d),
             oc_refused := to_refused (wd_outcome d), oc_fetched := wd_count d,
             oc_filled := (if to_whole (wd_outcome d) then partitions else 0)\<rparr>, wd_waiting d)))"

section \<open>Giving up\<close>

record misplaced =
  ms_records :: nat
  ms_orphaned :: nat
  ms_finished :: bool
  ms_elsewhere :: "(string, partition_set) smap"

definition misplace :: "placement \<Rightarrow> nat \<Rightarrow> misplaced \<Rightarrow> misplaced" where
  "misplace where_to part found =
     (case pl_nodes where_to of
        [] \<Rightarrow> found\<lparr>ms_orphaned := ms_orphaned found + 1\<rparr>
      | owner # _ \<Rightarrow>
          found\<lparr>ms_elsewhere := hold_partition part owner (ms_elsewhere found), ms_records := ms_records found + 1\<rparr>)"

definition unread :: "range \<Rightarrow> record_t list \<Rightarrow> record_t list" where
  "unread r records = filter (\<lambda>walked. \<not> (r_has_from r \<and> rec_key walked = r_from r)) records"

fun walk_partition :: "nat \<Rightarrow> 'db rocksdb \<Rightarrow> 'w net \<Rightarrow> ('w \<Rightarrow> bool) \<Rightarrow> placement \<Rightarrow> string \<Rightarrow> range \<Rightarrow> patience \<Rightarrow> misplaced \<Rightarrow>
    (('db, 'w) router, bool \<times> patience \<times> misplaced) run" where
  "walk_partition 0 R N stop_requested where_to name r waiting found s = None"
| "walk_partition (Suc fuel) R N stop_requested where_to name r waiting found s =
     (if stop_requested (network (nodes s)) \<or> spent N waiting (network (nodes s))
      then Some (Inr (False, waiting, found), s)
      else chain (run_of (on_store (scan_records R name r))) (\<lambda>pg s.
        let fresh = unread r (p_records pg);
            found = fold (\<lambda>_. misplace where_to (r_partition r)) fresh found
        in if \<not> p_has_more pg \<or> p_records pg = [] \<or> fresh = []
           then Some (Inr (True, waiting, found), s)
           else walk_partition fuel R N stop_requested where_to name
                  (r\<lparr>r_from := rec_key (last (p_records pg)), r_has_from := True\<rparr>)
                  (renew N waiting (network (nodes s))) found s) s)"

fun walk_partitions :: "nat \<Rightarrow> 'db rocksdb \<Rightarrow> 'w net \<Rightarrow> ('w \<Rightarrow> bool) \<Rightarrow> string \<Rightarrow> nat \<Rightarrow> partition_set \<Rightarrow> nat list \<Rightarrow> patience \<Rightarrow>
    misplaced \<Rightarrow> (('db, 'w) router, patience \<times> misplaced) run" where
  "walk_partitions fuel R N stop_requested name page_size owned [] waiting found =
     run_of (ret (waiting, found\<lparr>ms_finished := True\<rparr>))"
| "walk_partitions fuel R N stop_requested name page_size owned (part # parts) waiting found =
     (if has owned part then walk_partitions fuel R N stop_requested name page_size owned parts waiting found
      else (\<lambda>s. chain (walk_partition fuel R N stop_requested (copies_of (nodes s) part) name
               (default_range\<lparr>r_partition := part, r_limit := page_size, r_values := False\<rparr>) waiting found)
             (\<lambda>(read_all, waiting, found).
                if \<not> read_all then run_of (ret (waiting, found))
                else walk_partitions fuel R N stop_requested name page_size owned parts waiting found) s))"

definition walk_table :: "nat \<Rightarrow> 'db rocksdb \<Rightarrow> 'w net \<Rightarrow> ('w \<Rightarrow> bool) \<Rightarrow> string \<Rightarrow> nat \<Rightarrow> patience \<Rightarrow>
    (('db, 'w) router, patience \<times> misplaced) run" where
  "walk_table fuel R N stop_requested name page_size waiting s =
     walk_partitions fuel R N stop_requested name page_size (holdings (nodes s)) [0..<partition_count] waiting
       \<lparr>ms_records = 0, ms_orphaned = 0, ms_finished = False, ms_elsewhere = []\<rparr> s"

fun clear_from :: "nat \<Rightarrow> schedules \<Rightarrow> libs \<Rightarrow> 'db rocksdb \<Rightarrow> 'w net \<Rightarrow> ('w \<Rightarrow> bool) \<Rightarrow> string \<Rightarrow> nat \<Rightarrow>
    (string, partition_set) smap \<Rightarrow> patience \<Rightarrow> bool \<Rightarrow> nat \<Rightarrow> (('db, 'w) router, bool \<times> nat \<times> patience) run" where
  "clear_from fuel schedules L R N stop_requested name workers [] waiting finished cleared =
     run_of (ret (finished, cleared, waiting))"
| "clear_from fuel schedules L R N stop_requested name workers ((node, partitions) # elsewhere) waiting finished cleared =
     chain (walk_run fuel (schedules node name) L N stop_requested (share_wanted node name partitions False workers)
         (\<lambda>file. on_store (clear_records R name file)) waiting)
       (\<lambda>d. clear_from fuel schedules L R N stop_requested name workers elsewhere (wd_waiting d)
              (if \<not> to_whole (wd_outcome d) \<and> \<not> to_refused (wd_outcome d) then False else finished)
              (cleared + wd_count d))"

definition clear_table :: "nat \<Rightarrow> schedules \<Rightarrow> libs \<Rightarrow> 'db rocksdb \<Rightarrow> 'w net \<Rightarrow> ('w \<Rightarrow> bool) \<Rightarrow> string \<Rightarrow> nat \<Rightarrow> nat \<Rightarrow> patience \<Rightarrow>
    (('db, 'w) router, reconcile_outcome \<times> patience) run" where
  "clear_table fuel schedules L R N stop_requested name page_size workers waiting =
     chain (walk_table fuel R N stop_requested name page_size waiting) (\<lambda>(waiting, found).
     chain (clear_from fuel schedules L R N stop_requested name workers (ms_elsewhere found) waiting (ms_finished found) 0)
       (\<lambda>(finished, cleared, waiting).
          run_of (ret (no_outcome\<lparr>oc_finished := finished, oc_cleared := cleared,
            oc_deferred := ms_orphaned found + (if ms_records found > cleared then ms_records found - cleared else 0)\<rparr>,
            waiting))))"

section \<open>A pass\<close>

fun declare_tables :: "libs \<Rightarrow> 'db rocksdb \<Rightarrow> 'w net \<Rightarrow> string list list \<Rightarrow> patience \<Rightarrow>
    ('db, 'w, nat option \<times> patience) handler" where
  "declare_tables L R N [] waiting = ret (None, waiting)"
| "declare_tables L R N (in_zone # zone_list) waiting =
     andthen (on_wire (tables_of L N in_zone waiting)) (\<lambda>(named, waiting).
       case named of
         None \<Rightarrow> declare_tables L R N zone_list waiting
       | Some named \<Rightarrow> andthen (on_store (merge_schema L R named)) (\<lambda>n. ret (Some n, waiting)))"

record fetching =
  fg_fetched :: nat
  fg_unfilled :: partition_set
  fg_finished :: bool
  fg_refused :: bool
  fg_waiting :: patience

fun fetch_all :: "nat \<Rightarrow> schedules \<Rightarrow> libs \<Rightarrow> 'db rocksdb \<Rightarrow> 'w net \<Rightarrow> ('w \<Rightarrow> bool) \<Rightarrow> nat \<Rightarrow>
    (string \<times> string \<times> partition_set) list \<Rightarrow> fetching \<Rightarrow> (('db, 'w) router, fetching) run" where
  "fetch_all fuel schedules L R N stop_requested workers [] f = run_of (ret f)"
| "fetch_all fuel schedules L R N stop_requested workers ((name, node, partitions) # asks) f =
     chain (fetch_from fuel schedules L R N stop_requested node name partitions workers (fg_waiting f))
       (\<lambda>(taken, waiting).
          fetch_all fuel schedules L R N stop_requested workers asks
            (f\<lparr>fg_fetched := fg_fetched f + oc_fetched taken,
               fg_unfilled := fg_unfilled f OR (partitions AND NOT (oc_filled taken)),
               fg_finished := (oc_finished taken \<and> fg_finished f),
               fg_refused := (oc_refused taken \<or> fg_refused f), fg_waiting := waiting\<rparr>))"

fun clear_all :: "nat \<Rightarrow> schedules \<Rightarrow> libs \<Rightarrow> 'db rocksdb \<Rightarrow> 'w net \<Rightarrow> ('w \<Rightarrow> bool) \<Rightarrow> nat \<Rightarrow> nat \<Rightarrow> table list \<Rightarrow> patience \<Rightarrow>
    reconcile_outcome \<Rightarrow> (('db, 'w) router, reconcile_outcome) run" where
  "clear_all fuel schedules L R N stop_requested page_size workers [] waiting d = run_of (ret d)"
| "clear_all fuel schedules L R N stop_requested page_size workers (declaration # declarations) waiting d =
     chain (clear_table fuel schedules L R N stop_requested (t_name declaration) page_size workers waiting)
       (\<lambda>(given, waiting).
          clear_all fuel schedules L R N stop_requested page_size workers declarations waiting
            (d\<lparr>oc_cleared := oc_cleared d + oc_cleared given, oc_deferred := oc_deferred d + oc_deferred given,
               oc_finished := (oc_finished given \<and> oc_finished d)\<rparr>))"

definition fill_share :: "nat \<Rightarrow> schedules \<Rightarrow> libs \<Rightarrow> 'db rocksdb \<Rightarrow> 'w net \<Rightarrow> ('w \<Rightarrow> bool) \<Rightarrow> nat \<Rightarrow> patience \<Rightarrow>
    nat option \<Rightarrow> reconcile_outcome \<Rightarrow> (('db, 'w) router, reconcile_outcome \<times> table list) run" where
  "fill_share fuel schedules L R N stop_requested workers waiting declared d s =
     (let table_list = list_tables (store s);
          owned = holdings (nodes s);
          held_by = holders (nodes s) owned
      in chain (fetch_all fuel schedules L R N stop_requested workers
             (concat (map (\<lambda>t. map (\<lambda>(node, partitions). (t_name t, node, partitions)) held_by) table_list))
             \<lparr>fg_fetched = 0, fg_unfilled = 0, fg_finished = True, fg_refused = False, fg_waiting = waiting\<rparr>)
           (\<lambda>f. run_of (ret
              (d\<lparr>oc_fetched := fg_fetched f,
                 oc_filled := (if declared \<noteq> None then owned AND NOT (fg_unfilled f) else oc_filled d),
                 oc_finished := fg_finished f, oc_refused := fg_refused f\<rparr>, table_list))) s)"

definition reconcile :: "nat \<Rightarrow> schedules \<Rightarrow> libs \<Rightarrow> 'db rocksdb \<Rightarrow> 'w net \<Rightarrow> ('w \<Rightarrow> bool) \<Rightarrow> nat \<Rightarrow> int \<Rightarrow> nat \<Rightarrow>
    (('db, 'w) router, reconcile_outcome) run" where
  "reconcile fuel schedules L R N stop_requested page_size secs workers s =
     (let d = no_outcome\<lparr>oc_generation := generation (nodes s)\<rparr>;
          zone_list = zones (nodes s)
      in if zone_list = [] then run_of (ret (d\<lparr>oc_finished := True, oc_filled := - 1\<rparr>)) s
         else let fetching = patience_of N secs (network (nodes s))
              in chain (if stop_requested (network (nodes s)) then run_of (ret (None, fetching))
                        else run_of (declare_tables L R N zone_list fetching)) (\<lambda>(declared, fetching).
                 chain (fill_share fuel schedules L R N stop_requested workers fetching declared d)
                   (\<lambda>(d, table_list) s.
                      clear_all fuel schedules L R N stop_requested page_size workers table_list
                        (patience_of N secs (network (nodes s))) d s)) s)"

section \<open>Filling an empty store\<close>

record restored =
  re_whole :: bool
  re_records :: nat

definition copy_table :: "nat \<Rightarrow> schedules \<Rightarrow> libs \<Rightarrow> 'db rocksdb \<Rightarrow> 'w net \<Rightarrow> string \<Rightarrow> string \<Rightarrow> partition_set \<Rightarrow> nat \<Rightarrow> patience \<Rightarrow>
    (('db, 'w) router, restored \<times> patience) run" where
  "copy_table fuel schedules L R N node name partitions workers waiting =
     chain (walk_run fuel (schedules node name) L N (\<lambda>_. False) (share_wanted node name partitions True workers)
         (take_records R name) waiting)
       (\<lambda>d. run_of (ret (\<lparr>re_whole = to_whole (wd_outcome d), re_records = wd_count d\<rparr>, wd_waiting d)))"

fun copy_all :: "nat \<Rightarrow> schedules \<Rightarrow> libs \<Rightarrow> 'db rocksdb \<Rightarrow> 'w net \<Rightarrow> nat \<Rightarrow> (string \<times> string \<times> partition_set) list \<Rightarrow> patience \<Rightarrow> nat \<Rightarrow>
    (('db, 'w) router, restored \<times> patience) run" where
  "copy_all fuel schedules L R N workers [] waiting n = run_of (ret (\<lparr>re_whole = True, re_records = n\<rparr>, waiting))"
| "copy_all fuel schedules L R N workers ((name, holder, partitions) # asks) waiting n =
     chain (copy_table fuel schedules L R N holder name partitions workers waiting) (\<lambda>(copied, waiting).
       if \<not> re_whole copied then run_of (ret (\<lparr>re_whole = False, re_records = n + re_records copied\<rparr>, waiting))
       else copy_all fuel schedules L R N workers asks waiting (n + re_records copied))"

definition from_zone :: "nat \<Rightarrow> schedules \<Rightarrow> libs \<Rightarrow> 'db rocksdb \<Rightarrow> 'w net \<Rightarrow> string list \<Rightarrow> partition_set \<Rightarrow> nat \<Rightarrow> patience \<Rightarrow>
    (('db, 'w) router, restored \<times> patience) run" where
  "from_zone fuel schedules L R N zone partitions workers waiting =
     chain (run_of (on_wire (tables_of L N zone waiting))) (\<lambda>(named, waiting).
       case named of
         None \<Rightarrow> run_of (ret (\<lparr>re_whole = False, re_records = 0\<rparr>, waiting))
       | Some named \<Rightarrow>
           chain (run_of (on_store (merge_schema L R named))) (\<lambda>_.
             copy_all fuel schedules L R N workers
               (concat (map (\<lambda>name. map (\<lambda>(holder, share). (name, holder, share)) (cluster_holders_in partitions zone))
                  (schema_names named))) waiting 0))"

record rebuild_outcome =
  rb_records :: nat
  rb_whole :: bool

fun from_zones :: "nat \<Rightarrow> schedules \<Rightarrow> libs \<Rightarrow> 'db rocksdb \<Rightarrow> 'w net \<Rightarrow> string list list \<Rightarrow> partition_set \<Rightarrow> nat \<Rightarrow> patience \<Rightarrow>
    (('db, 'w) router, rebuild_outcome) run" where
  "from_zones fuel schedules L R N [] partitions workers waiting = run_of (ret \<lparr>rb_records = 0, rb_whole = False\<rparr>)"
| "from_zones fuel schedules L R N (zone # zone_list) partitions workers waiting =
     (if zone = [] then from_zones fuel schedules L R N zone_list partitions workers waiting
      else (\<lambda>s. if spent N waiting (network (nodes s)) then run_of (ret \<lparr>rb_records = 0, rb_whole = False\<rparr>) s
                else chain (from_zone fuel schedules L R N zone partitions workers waiting) (\<lambda>(taken, waiting).
                  if re_whole taken then run_of (ret \<lparr>rb_records = re_records taken, rb_whole = True\<rparr>)
                  else from_zones fuel schedules L R N zone_list partitions workers waiting) s))"

definition rebuild :: "nat \<Rightarrow> schedules \<Rightarrow> libs \<Rightarrow> 'db rocksdb \<Rightarrow> 'w net \<Rightarrow> int \<Rightarrow> nat \<Rightarrow>
    (('db, 'w) router, rebuild_outcome) run" where
  "rebuild fuel schedules L R N secs workers s =
     (if list_tables (store s) \<noteq> [] then run_of (ret \<lparr>rb_records = 0, rb_whole = True\<rparr>) s
      else let zone_list = zones (nodes s)
           in if length zone_list < 2 then run_of (ret \<lparr>rb_records = 0, rb_whole = True\<rparr>) s
              else from_zones fuel schedules L R N (tl zone_list) (holdings (nodes s)) workers
                     (patience_of N secs (network (nodes s))) s)"

end
