(* ===== verification/Server.thy ===== *)
theory Server
  imports Session Reconcile
begin

text \<open>
  \<^verbatim>\<open>src/server/server.cpp\<close>: what a node is told by its environment, how it fills its store, joins and opens its
  port, the thread that runs a pass when the membership moved, and how it stops. The threads that serve are
  not here: each runs the handlers of \<^verbatim>\<open>Session\<close>. An end of a wait, an accepted connection and an expired timer
  are each one operation on the state, and any order of them is a history of the server.
\<close>

section \<open>The environment\<close>

definition data_directory :: "(string \<Rightarrow> string option) \<Rightarrow> string" where
  "data_directory env =
     (case env ''ASYNCDB_DATA'' of
        None \<Rightarrow> ''/var/lib/asyncdb''
      | Some configured \<Rightarrow> if configured = [] then ''/var/lib/asyncdb'' else configured)"

definition default_memory_bytes :: nat where
  "default_memory_bytes = 512 * 1024 * 1024"

definition memory_size :: "libs \<Rightarrow> (string \<Rightarrow> string option) \<Rightarrow> nat" where
  "memory_size L env =
     (case Option.bind (env ''ASYNCDB_MEMORY'') (lexical_size L) of
        None \<Rightarrow> default_memory_bytes
      | Some mebibytes \<Rightarrow> if mebibytes > 0 then (mebibytes * 1024 * 1024) mod 2 ^ 64 else default_memory_bytes)"

definition threads_per_core :: int where
  "threads_per_core = 8"

definition fewest_threads :: int where
  "fewest_threads = 16"

definition most_threads :: int where
  "most_threads = 128"

text \<open>\<open>to_int\<close> is \<^verbatim>\<open>try_lexical_convert\<close> to an \<^verbatim>\<open>int\<close>, \<open>cores\<close> what \<^verbatim>\<open>hardware_concurrency\<close> answers.\<close>

definition thread_pool_size :: "(string \<Rightarrow> int option) \<Rightarrow> int \<Rightarrow> (string \<Rightarrow> string option) \<Rightarrow> int" where
  "thread_pool_size to_int cores env =
     (let clamped = min (max (cores * threads_per_core) fewest_threads) most_threads
      in case Option.bind (env ''ASYNCDB_THREADS'') to_int of
           None \<Rightarrow> clamped
         | Some threads \<Rightarrow> if threads > 0 then threads else clamped)"

definition drain_interval :: "(string \<Rightarrow> int option) \<Rightarrow> (string \<Rightarrow> string option) \<Rightarrow> int" where
  "drain_interval to_int env =
     (case Option.bind (env ''ASYNCDB_DRAIN'') to_int of
        None \<Rightarrow> 0
      | Some secs \<Rightarrow> if secs > 0 then secs else 0)"

definition reconcile_interval :: int where
  "reconcile_interval = 3"

definition reconcile_attempts :: nat where
  "reconcile_attempts = 12"

section \<open>The state of a server\<close>

text \<open>The thread that watches the membership: what it last acted on, and the passes it may still run.\<close>

record watching =
  wt_seen :: "member list"
  wt_registered :: nat
  wt_attempts :: nat

text \<open>
  A session no handler holds any longer is one that was closed. The timer of a drain is armed or it is not.
\<close>

record ('db, 'w) server =
  sv_router :: "('db, 'w) router"
  sv_sessions :: "session list"
  sv_stopping :: bool
  sv_open :: bool
  sv_listening :: bool
  sv_reconciler :: "watching option"
  sv_drain_timer :: bool

definition server_of :: "'db repo \<Rightarrow> 'w etcd_cluster \<Rightarrow> ('db, 'w) server" where
  "server_of repo cluster_nodes =
     \<lparr>sv_router = router_of repo cluster_nodes, sv_sessions = [], sv_stopping = False, sv_open = True,
      sv_listening = False, sv_reconciler = None, sv_drain_timer = False\<rparr>"

definition same_membership :: "member list \<Rightarrow> member list \<Rightarrow> bool" where
  "same_membership before after =
     (if length before \<noteq> length after then False
      else list_all (\<lambda>i. \<not> (m_node (before ! i) \<noteq> m_node (after ! i) \<or> m_zone (before ! i) \<noteq> m_zone (after ! i)))
             [0..<length before])"

section \<open>The thread that moves records\<close>

definition watching_of :: "bool \<Rightarrow> ('db, 'w) router \<Rightarrow> watching" where
  "watching_of behind s =
     \<lparr>wt_seen = members (nodes s), wt_registered = er_registrations (registration (nodes s)),
      wt_attempts = (if behind then reconcile_attempts else 0)\<rparr>"

definition default_page :: nat where
  "default_page = 100"

definition reconcile_seconds_without :: int where
  "reconcile_seconds_without = 20"

definition rebuild_seconds_without :: int where
  "rebuild_seconds_without = 600"

text \<open>A pass that threw has used its attempt, and what it did is done.\<close>

definition run_pass :: "nat \<Rightarrow> schedules \<Rightarrow> libs \<Rightarrow> 'db rocksdb \<Rightarrow> 'w net \<Rightarrow> ('w \<Rightarrow> bool) \<Rightarrow> watching \<Rightarrow> ('db, 'w) router \<Rightarrow>
    (watching \<times> ('db, 'w) router) option" where
  "run_pass fuel schedules L R N stop_requested k s =
     (let k = k\<lparr>wt_attempts := wt_attempts k - 1\<rparr>
      in case reconcile fuel schedules L R N stop_requested default_page reconcile_seconds_without default_workers s of
           None \<Rightarrow> None
         | Some (Inl _, s) \<Rightarrow> Some (k, s)
         | Some (Inr d, s) \<Rightarrow>
             Some (if settled_outcome d then k\<lparr>wt_attempts := 0\<rparr>
                   else if moved d then k\<lparr>wt_attempts := reconcile_attempts\<rparr> else k,
               s\<lparr>nodes := vouch (oc_filled d) (oc_generation d) (nodes s)\<rparr>))"

definition reconcile_turn :: "nat \<Rightarrow> schedules \<Rightarrow> libs \<Rightarrow> 'db rocksdb \<Rightarrow> 'w net \<Rightarrow> ('w \<Rightarrow> bool) \<Rightarrow> watching \<Rightarrow> ('db, 'w) router \<Rightarrow>
    (watching \<times> ('db, 'w) router) option" where
  "reconcile_turn fuel schedules L R N stop_requested k s =
     (let members_now = members (nodes s); registrations_now = er_registrations (registration (nodes s))
      in if \<not> same_membership (wt_seen k) members_now \<or> registrations_now \<noteq> wt_registered k
         then Some (\<lparr>wt_seen = members_now, wt_registered = registrations_now, wt_attempts = reconcile_attempts\<rparr>, s)
         else if wt_attempts k > 0 then run_pass fuel schedules L R N stop_requested k s
         else Some (k, s))"

definition stop_reconciling :: "('db, 'w) server \<Rightarrow> ('db, 'w) server" where
  "stop_reconciling s = s\<lparr>sv_reconciler := None\<rparr>"

section \<open>Starting\<close>

text \<open>Whether the rebuild filled the store, which one that threw did not.\<close>

definition fill_store :: "nat \<Rightarrow> schedules \<Rightarrow> libs \<Rightarrow> 'db rocksdb \<Rightarrow> 'w net \<Rightarrow> bool \<Rightarrow> ('db, 'w) router \<Rightarrow>
    (bool \<times> ('db, 'w) router) option" where
  "fill_store fuel schedules L R N clustered s =
     (if \<not> clustered then Some (True, s)
      else case rebuild fuel schedules L R N rebuild_seconds_without default_workers s of
             None \<Rightarrow> None
           | Some (Inl _, s) \<Rightarrow> Some (False, s)
           | Some (Inr d, s) \<Rightarrow> Some (rb_whole d, s))"

definition serve :: "nat \<Rightarrow> schedules \<Rightarrow> libs \<Rightarrow> 'db rocksdb \<Rightarrow> 'w net \<Rightarrow> ('db, 'w) server \<Rightarrow> ('db, 'w) server option" where
  "serve fuel schedules L R N sv =
     (let s = sv_router sv;
          returning = (list_tables (store s) \<noteq> []);
          (clustered, c) = discover L N (nodes s);
          s = s\<lparr>nodes := c\<rparr>;
          gen = generation (nodes s)
      in case fill_store fuel schedules L R N clustered s of
           None \<Rightarrow> None
         | Some (whole, s) \<Rightarrow>
             (let s = (if whole then s\<lparr>nodes := vouch (- 1) gen (nodes s)\<rparr> else s);
                  s = s\<lparr>nodes := start L N (nodes s)\<rparr>
              in Some (sv\<lparr>sv_router := s, sv_reconciler := Some (watching_of (returning \<or> \<not> whole) s),
                   sv_listening := True\<rparr>)))"

section \<open>Connections\<close>

definition hold_session :: "session \<Rightarrow> ('db, 'w) server \<Rightarrow> ('db, 'w) server" where
  "hold_session connection sv =
     sv\<lparr>sv_sessions := filter (\<lambda>c. \<not> se_closed c) (sv_sessions sv) @
          [if sv_stopping sv then session_stop connection else connection]\<rparr>"

text \<open>
  The session is held before it starts to read, and what it was told while it was held is posted to its
  strand. An accept that failed on an open acceptor is tried again.
\<close>

definition on_accept :: "bool \<Rightarrow> ('db, 'w) server \<Rightarrow> ('db, 'w) server" where
  "on_accept failed sv =
     (if failed then sv
      else let sv = hold_session session_of sv
           in sv\<lparr>sv_sessions := butlast (sv_sessions sv) @ [session_run (last (sv_sessions sv))]\<rparr>)"

section \<open>Stopping\<close>

definition close_server :: "libs \<Rightarrow> 'w net \<Rightarrow> ('db, 'w) server \<Rightarrow> ('db, 'w) server" where
  "close_server L N sv =
     (let r = sv_router sv;
          sv = stop_reconciling (sv\<lparr>sv_router := r\<lparr>nodes := leave L N (nodes r)\<rparr>\<rparr>);
          live = sv_sessions sv
      in sv\<lparr>sv_stopping := True, sv_drain_timer := False, sv_open := False, sv_listening := False,
            sv_sessions := map (\<lambda>c. if se_closed c then c else session_stop c) live\<rparr>)"

definition drain :: "libs \<Rightarrow> 'w net \<Rightarrow> int \<Rightarrow> ('db, 'w) server \<Rightarrow> ('db, 'w) server" where
  "drain L N secs sv =
     (if secs \<le> 0 then close_server L N sv
      else if is_draining (sv_router sv) \<or> \<not> sv_open sv then sv
      else sv\<lparr>sv_router := set_draining True (sv_router sv), sv_drain_timer := True\<rparr>)"

text \<open>The end of the wait: a drain that was cancelled ended in an error.\<close>

definition drain_ended :: "libs \<Rightarrow> 'w net \<Rightarrow> ('db, 'w) server \<Rightarrow> ('db, 'w) server" where
  "drain_ended L N sv = (if sv_drain_timer sv \<and> sv_open sv then close_server L N (sv\<lparr>sv_drain_timer := False\<rparr>) else sv)"

end
