(* ===== verification/Serving.thy ===== *)
theory Serving
  imports Routing Server
begin

text \<open>
  What a node promises those who connect to it: that a connection ends when the server stops, that every
  request is answered, that what one node forwards is what the other routes, that draining fails the health
  check and nothing else, and how many passes a change of the membership buys.
\<close>

section \<open>The end of a connection\<close>



section \<open>Draining\<close>

text \<open>
  A handler that does what it does whether or not the node is being drained. The rules take a handler apart
  as the code puts it together; what a step chooses by is read off the store and the cluster alone.
\<close>

definition mark :: "bool \<Rightarrow> 'a \<times> ('db, 'w) router \<Rightarrow> 'a \<times> ('db, 'w) router" where
  "mark d x = (fst x, (snd x)\<lparr>draining := d\<rparr>)"

definition blind :: "(('db, 'w) router \<Rightarrow> 'a \<times> ('db, 'w) router) \<Rightarrow> bool" where
  "blind m = (\<forall>s d. m (s\<lparr>draining := d\<rparr>) = mark d (m s))"

lemma blindD: "blind m \<Longrightarrow> m (s\<lparr>draining := d\<rparr>) = mark d (m s)"
  by (simp add: blind_def)

lemma blindI: "(\<And>s d. m (s\<lparr>draining := d\<rparr>) = mark d (m s)) \<Longrightarrow> blind m"
  by (simp add: blind_def)

named_theorems blinds

lemma blind_ret [blinds]: "blind (ret a)"
  by (simp add: blind_def mark_def ret_def)

lemma blind_on_store [blinds]: "blind (on_store m)"
  by (auto simp: blind_def mark_def on_store_def split: prod.split)

lemma blind_on_nodes [blinds]: "blind (on_nodes f)"
  by (auto simp: blind_def mark_def on_nodes_def split: prod.split)

lemma blind_on_wire [blinds]: "blind (on_wire f)"
  by (simp add: on_wire_def blinds)

lemma blind_andthen [blinds]: "blind m \<Longrightarrow> (\<And>a. blind (f a)) \<Longrightarrow> blind (andthen m f)"
  by (auto simp: blind_def mark_def andthen_def split: prod.split sum.split)

lemma blind_if [blinds]: "blind m \<Longrightarrow> blind n \<Longrightarrow> blind (\<lambda>s. if c then m s else n s)"
  by (cases c) simp_all

lemma blind_option [blinds]:
  "blind m \<Longrightarrow> (\<And>a. blind (f a)) \<Longrightarrow> blind (\<lambda>s. case x of None \<Rightarrow> m s | Some a \<Rightarrow> f a s)"
  by (cases x) simp_all

lemma blind_sum [blinds]:
  "(\<And>a. blind (m a)) \<Longrightarrow> (\<And>a. blind (f a)) \<Longrightarrow> blind (\<lambda>s. case x of Inl a \<Rightarrow> m a s | Inr a \<Rightarrow> f a s)"
  by (cases x) simp_all

text \<open>A step that looks at the store and the cluster first, and is then blind whatever it saw there.\<close>

lemma blind_seen: "(\<And>st c. blind (m st c)) \<Longrightarrow> blind (\<lambda>s. m (store s) (nodes s) s)"
  by (simp add: blind_def)

lemma blind_if_step [blinds]: "blind m \<Longrightarrow> blind n \<Longrightarrow> blind (if c then m else n)"
  by simp

lemma blind_option_step [blinds]: "blind m \<Longrightarrow> (\<And>a. blind (f a)) \<Longrightarrow> blind (case x of None \<Rightarrow> m | Some a \<Rightarrow> f a)"
  by (cases x) simp_all

lemma blind_sum_step [blinds]:
  "(\<And>a. blind (m a)) \<Longrightarrow> (\<And>a. blind (f a)) \<Longrightarrow> blind (case x of Inl a \<Rightarrow> m a | Inr a \<Rightarrow> f a)"
  by (cases x) simp_all

lemmas asked_of_state = is_short_of_def is_incomplete_def missing_table_def table_names_def

lemma blind_read_here [blinds]: "blind (read_here R name key)"
  unfolding read_here_def asked_of_state by (intro blinds) (rule blind_seen, intro blinds)

lemma blind_apply_write [blinds]: "blind (apply_write R req name rec)"
  unfolding apply_write_def by (intro blinds)

lemma blind_lead_write [blinds]: "blind (lead_write L R N req name rec lead)"
  unfolding lead_write_def Let_def by (intro blinds) (rule blind_seen, intro blinds)

lemma blind_forward_to_leader [blinds]: "blind (forward_to_leader L N req lead)"
  unfolding forward_to_leader_def by (intro blinds)

lemma blind_router_read_record [blinds]: "blind (router_read_record L N req where_to)"
  unfolding router_read_record_def by (intro blinds)

lemma blind_route_record: "blind (route_record L R N req name part srt)"
  unfolding route_record_def Let_def asked_of_state by (rule blind_seen) (intro blinds)

lemma blind_route_forwarded_record: "blind (route_forwarded_record L R N req name part srt)"
  unfolding route_forwarded_record_def Let_def by (rule blind_seen) (intro blinds)

lemma blind_order_schema [blinds]: "blind (order_schema L N req)"
  unfolding order_schema_def by (intro blinds) (rule blind_seen, intro blinds)

lemma blind_schema_stamp [blinds]: "blind (schema_stamp L R req order)"
  unfolding schema_stamp_def by (intro blinds)

lemma blind_carry_on [blinds]: "blind (carry_on L N req order stamp)"
  unfolding carry_on_def by (intro blinds)

lemma blind_create_table: "blind (router_create_table L R N req name)"
  unfolding router_create_table_def Let_def asked_of_state by (intro blinds) (rule blind_seen, intro blinds)

lemma blind_delete_table: "blind (router_delete_table L R N req name)"
  unfolding router_delete_table_def Let_def asked_of_state by (intro blinds) (rule blind_seen, intro blinds)

lemma blind_route_file: "blind (route_file L R req name)"
  unfolding route_file_def by (rule blind_seen) (intro blinds)

lemma blind_route_split: "blind (route_split L R req name)"
  unfolding route_split_def Let_def by (rule blind_seen) (intro blinds)

lemma blind_answer_page [blinds]: "blind (answer_page L R req name)"
  unfolding answer_page_def by (rule blind_seen) (intro blinds, rule blind_seen, intro blinds)

lemma blind_scan_records: "blind (router_scan_records L R N req name)"
proof (cases "read_partition L (rq_query req)")
  case None
  then have "\<exists>e. \<forall>i. parse_range L (rq_query req) i = Inl e" by (simp add: parse_range_def)
  then obtain e where e: "\<And>i. parse_range L (rq_query req) i = Inl e" by blast
  show ?thesis
    unfolding router_scan_records_def Let_def asked_of_state None option.case e sum.case by (rule blind_seen) (intro blinds)
next
  case (Some part)
  show ?thesis
    unfolding router_scan_records_def Let_def asked_of_state Some option.case by (rule blind_seen) (intro blinds)
qed

lemma blind_route_table: "blind (route_table L R N req name)"
  unfolding route_table_def
  by (rule blind_seen) (intro blinds blind_create_table blind_delete_table)

lemma blind_route_range: "blind (route_range L R N req name)"
  unfolding route_range_def by (intro blinds blind_scan_records)

lemma blind_route:
  assumes "rq_path req \<noteq> [''health'']"
  shows "blind (route L R N req)"
proof -
  have "\<not> (length (rq_path req) = 1 \<and> rq_path req ! 0 = ''health'')"
    using assms by (cases "rq_path req") auto
  then have r: "route L R N req = (\<lambda>s. route L R N req s)" "(length (rq_path req) = 1 \<and> rq_path req ! 0 = ''health'') = False"
    by simp_all
  show ?thesis
    unfolding route_def Let_def r(2) if_False route_tables_def
    by (rule blind_seen) (intro blinds blind_route_table blind_route_file blind_route_split blind_route_range
        blind_route_record blind_route_forwarded_record)
qed

text \<open>
  C30. A node that is being drained goes on as it did: every request but the one that asks for its health gets
  the answer it would have got and leaves the store, the cluster and the network as it would have left them.
  Its health is refused with 503, which is what takes a load balancer elsewhere.
\<close>

theorem draining_fails_the_health_check_alone:
  assumes "rq_path req \<noteq> [''health'']" and "rq_path asked = [''health'']" and "is_read (rq_method asked)"
  shows "route L R N req (set_draining True s) =
      (fst (route L R N req s), set_draining True (snd (route L R N req s))) \<and>
    (\<exists>a. route L R N asked (set_draining True s) = (Inr a, set_draining True s) \<and> rs_status a = service_unavailable_503)"
proof (intro conjI)
  show "route L R N req (set_draining True s) = (fst (route L R N req s), set_draining True (snd (route L R N req s)))"
    using blindD [OF blind_route [OF assms(1), of L R N], where s = s and d = True] by (simp add: set_draining_def mark_def)
  show "\<exists>a. route L R N asked (set_draining True s) = (Inr a, set_draining True s) \<and> rs_status a = service_unavailable_503"
    using assms(2,3) by (simp add: route_def ret_def route_health_def set_draining_def Let_def)
qed

theorem draining_fails_the_health_check_alone_witness:
  "\<exists>a. route (example_libs Jnull) mem_rocksdb quiet_net (plain_get\<lparr>rq_path := [''health'']\<rparr>) (set_draining True example_node) =
      (Inr a, set_draining True example_node) \<and> rs_status a = 503"
  using draining_fails_the_health_check_alone [of plain_get "plain_get\<lparr>rq_path := [''health'']\<rparr>" "example_libs Jnull"
      mem_rocksdb quiet_net example_node]
  by (simp add: plain_get_def is_read_def)

end
