(* ===== verification/Wire.thy ===== *)
theory Wire
  imports Serving
begin

text \<open>
  What travels between two nodes: a request one node forwards, written as a message by its client, is the
  request the other node routes, and the answer written back is the answer the first node reads.
\<close>

section \<open>Fields\<close>

lemma header_in_append:
  "header_in (fs @ gs) name = (if list_ex (\<lambda>(key, _). same_name key name) fs then header_in fs name else header_in gs name)"
  by (induction fs) auto

lemma no_field: "\<not> list_ex (\<lambda>(key, _). same_name key name) (filter (\<lambda>(key, _). \<not> same_name key name) fs)"
  by (induction fs) auto

lemma same_name_trans: "same_name a b \<Longrightarrow> same_name b c \<Longrightarrow> same_name a c"
  by (auto simp: same_name_def list_all2_conv_all_nth)

lemma same_name_sym: "same_name a b = same_name b a"
  by (auto simp: same_name_def list_all2_conv_all_nth)

lemma header_in_filter: "\<not> same_name name other \<Longrightarrow> header_in (filter (\<lambda>(key, _). \<not> same_name key name) fs) other = header_in fs other"
proof (induction fs)
  case (Cons f fs)
  then show ?case using same_name_trans same_name_sym by (cases f) (auto, blast)
qed simp

lemma header_in_set_field:
  "header_in (set_field name v fs) other = (if same_name name other then v else header_in fs other)"
proof (cases "same_name name other")
  case True
  have "\<not> list_ex (\<lambda>(key, _). same_name key other) (filter (\<lambda>(key, _). \<not> same_name key name) fs)"
    using True same_name_trans same_name_sym by (auto simp: list_ex_iff)
  with True show ?thesis by (simp add: set_field_def header_in_append)
next
  case False
  have "header_in (gs @ [(name, v)]) other = header_in gs other" for gs using False by (induction gs) auto
  with False header_in_filter [OF False, of fs] show ?thesis by (simp add: set_field_def)
qed

lemma find_index_append: "\<not> list_ex P s \<Longrightarrow> P c \<Longrightarrow> find_index P (s @ c # t) = Some (length s)"
  by (induction s) auto

lemma find_index_none: "\<not> list_ex P s \<Longrightarrow> find_index P s = None"
  by (induction s) auto

text \<open>A header as the forwarder writes one, and a value it writes one with.\<close>

definition header_text :: "string \<Rightarrow> bool" where
  "header_text v = (v \<noteq> [] \<and> \<not> is_padding (hd v) \<and> \<not> is_padding (last v))"

lemma dropWhile_hd: "v \<noteq> [] \<Longrightarrow> \<not> P (hd v) \<Longrightarrow> dropWhile P v = v"
  by (cases v) auto

lemma set_header_line:
  assumes "CHR '':'' \<notin> set name" and "name \<noteq> []" and "header_text v"
  shows "set_header (name @ CHR '':'' # CHR '' '' # v) fs = set_field name v fs"
proof -
  have "find_index (\<lambda>c. c = CHR '':'') (name @ CHR '':'' # CHR '' '' # v) = Some (length name)"
    using assms(1) by (intro find_index_append) (auto simp: list_ex_iff)
  moreover have "dropWhile is_padding (CHR '' '' # v) = v"
    using assms(3) by (simp add: header_text_def dropWhile_hd) (simp add: is_padding_def)
  moreover have "dropWhile is_padding (rev v) = rev v"
    using assms(3) by (intro dropWhile_hd) (auto simp: header_text_def hd_rev)
  ultimately show ?thesis using assms(2) by (simp add: set_header_def)
qed

lemma is_padding_low: "is_padding c \<Longrightarrow> byte_of c \<le> 32"
  by (auto simp: is_padding_def)

lemma header_text_digits:
  assumes "v \<noteq> []" and "list_all (\<lambda>c. 48 \<le> byte_of c \<and> byte_of c \<le> 57) v"
  shows "header_text v"
proof -
  have "\<not> is_padding c" if "c \<in> set v" for c using that assms(2) is_padding_low [of c] by (auto simp: list_all_iff)
  with assms(1) show ?thesis by (simp add: header_text_def)
qed

lemma header_text_to_string: "header_text (to_string n)"
  using to_string_digits by (intro header_text_digits) simp_all

lemma header_text_int: "header_text (int_to_string i)"
  using header_text_to_string [of "nat (- i)"] header_text_to_string [of "nat i"]
    is_padding_low [of "CHR ''-''"]
  by (auto simp: int_to_string_def header_text_def)

section \<open>A request\<close>

lemma split_on_segments:
  assumes "\<And>s. s \<in> set path \<Longrightarrow> CHR ''/'' \<notin> set (f s)"
  shows "split_on CHR ''/'' (concat (map (\<lambda>s. CHR ''/'' # f s) path)) = [] # map f path"
  using assms
proof (induction path)
  case (Cons s path)
  then show ?case by (cases path) auto
qed simp

lemma locate_append:
  assumes "locate (scheme @ authority) = Some place"
    and "\<not> list_ex (\<lambda>c. c = CHR ''/'' \<or> c = CHR ''?'') authority"
  shows "locate (scheme @ authority @ CHR ''/'' # rest) = Some (place\<lparr>lo_target := CHR ''/'' # rest\<rparr>)"
proof -
  let ?P = "\<lambda>c. c = CHR ''/'' \<or> c = CHR ''?''"
  have "find_index ?P (authority @ CHR ''/'' # rest) = Some (length authority)" "find_index ?P authority = None"
    using assms(2) find_index_append [of ?P authority "CHR ''/''" rest] find_index_none [of ?P authority] by auto
  with assms(1) show ?thesis by (auto simp: locate_def Let_def split: if_splits option.splits prod.splits)
qed

text \<open>What curl documents of a text that is escaped and escaped back, said of one text.\<close>

definition escaped_ok :: "libs \<Rightarrow> string \<Rightarrow> bool" where
  "escaped_ok L s \<longleftrightarrow>
     url_unescape L (url_escape L s) = s \<and> url_escape L s \<noteq> [] \<and>
     CHR ''/'' \<notin> set (url_escape L s) \<and> CHR ''?'' \<notin> set (url_escape L s)"

definition target_path :: "libs \<Rightarrow> string list \<Rightarrow> string" where
  "target_path L path =
     (if path = [] then ''/'' else concat (map (\<lambda>segment. CHR ''/'' # encode_url L segment) path))"

lemma target_split:
  "target L node req = node @ target_path L (rq_path req) @ (if rq_query req \<noteq> [] then CHR ''?'' # rq_query req else [])"
  by (simp add: target_def target_path_def)

lemma split_target_path:
  assumes "list_all (escaped_ok L) path"
  shows "split_path L (target_path L path) = path" and "CHR ''?'' \<notin> set (target_path L path)"
proof -
  show q: "CHR ''?'' \<notin> set (target_path L path)"
    using assms by (auto simp: target_path_def escaped_ok_def list_all_iff encode_url_def)
  have "filter (\<lambda>part. part \<noteq> []) (split_on CHR ''/'' (target_path L path)) = map (encode_url L) path"
    using assms split_on_segments [of path "encode_url L"]
    by (auto simp: target_path_def escaped_ok_def list_all_iff encode_url_def filter_map comp_def)
  moreover have "map (decode_url L) (map (encode_url L) path) = path"
    using assms by (auto simp: escaped_ok_def list_all_iff encode_url_def decode_url_def intro!: map_idI)
  ultimately show "split_path L (target_path L path) = path"
    using q by (simp add: split_path_def)
qed

lemma target_read_back:
  assumes "list_all (escaped_ok L) path"
  shows "split_path L (target_path L path @ (if query \<noteq> [] then CHR ''?'' # query else [])) = path"
    and "query_string (target_path L path @ (if query \<noteq> [] then CHR ''?'' # query else [])) = query"
  using split_target_path [OF assms] split_path_of [of "target_path L path" L query]
    query_string_of [of "target_path L path" query]
  by (auto simp: query_string_def)

lemma names_differ [simp]:
  "\<not> same_name ''Host'' forwarded_header" "\<not> same_name ''Host'' term_header" "\<not> same_name ''Host'' count_header"
  "\<not> same_name forwarded_header term_header" "\<not> same_name forwarded_header count_header"
  "\<not> same_name term_header forwarded_header" "\<not> same_name term_header count_header"
  "\<not> same_name count_header forwarded_header" "\<not> same_name count_header term_header"
  by (simp_all add: same_name_def forwarded_header_def term_header_def count_header_def tolower_def)

lemma forwarded_headers:
  fixes req :: request and authority :: string
  defines "fs \<equiv> fold set_header (headers_of req) (set_field ''Host'' authority [])"
  shows "header_in fs forwarded_header = ''true''"
    and "header_in fs term_header = (if rq_term req = 0 then [] else int_to_string (rq_term req))"
    and "header_in fs count_header = (if rq_term req = 0 then [] else to_string (unat (rq_count req)))"
proof -
  have lines: "set_header (forwarded_header @ '': true'') gs = set_field forwarded_header ''true'' gs"
    "set_header (term_header @ CHR '':'' # CHR '' '' # int_to_string i) gs = set_field term_header (int_to_string i) gs"
    "set_header (count_header @ CHR '':'' # CHR '' '' # to_string n) gs = set_field count_header (to_string n) gs" for gs i n
    using set_header_line [of forwarded_header "''true''" gs] set_header_line [of term_header "int_to_string i" gs]
      set_header_line [of count_header "to_string n" gs] header_text_int header_text_to_string
    by (simp_all add: forwarded_header_def term_header_def count_header_def header_text_def is_padding_def)
  show "header_in fs forwarded_header = ''true''"
    "header_in fs term_header = (if rq_term req = 0 then [] else int_to_string (rq_term req))"
    "header_in fs count_header = (if rq_term req = 0 then [] else to_string (unat (rq_count req)))"
    by (simp_all add: fs_def headers_of_def lines header_in_set_field)
qed

lemma string_to_verb_name: "is_routable_method meth \<Longrightarrow> string_to_verb (verb_name meth) = meth"
  by (auto simp: is_routable_method_def string_to_verb_def)

lemma request_arrives:
  assumes "locate (scheme @ authority) = Some place"
    and "\<not> list_ex (\<lambda>c. c = CHR ''/'' \<or> c = CHR ''?'') authority"
    and "list_all (escaped_ok L) (rq_path req)"
    and "numbers_ok L" and "in_int64 (rq_term req)"
    and "is_routable_method (rq_method req)" and "rq_term req = 0 \<longrightarrow> rq_count req = 0"
  obtains reached where "locate (q_url (forwarded_to L (scheme @ authority) req)) = Some reached"
    and "lo_host reached = lo_host place" and "lo_port reached = lo_port place"
    and "mg_target (message_of reached (forwarded_to L (scheme @ authority) req)) =
      target_path L (rq_path req) @ (if rq_query req \<noteq> [] then CHR ''?'' # rq_query req else [])"
    and "mg_method (message_of reached (forwarded_to L (scheme @ authority) req)) = rq_method req"
    and "routed L (message_of reached (forwarded_to L (scheme @ authority) req)) = req\<lparr>rq_forwarded := True\<rparr>"
proof -
  let ?rest = "target_path L (rq_path req) @ (if rq_query req \<noteq> [] then CHR ''?'' # rq_query req else [])"
  have "?rest = CHR ''/'' # tl ?rest" by (cases "rq_path req") (simp_all add: target_path_def)
  then have "locate (q_url (forwarded_to L (scheme @ authority) req)) = Some (place\<lparr>lo_target := ?rest\<rparr>)"
    using locate_append [OF assms(1,2), of "tl ?rest"] by (simp add: forwarded_to_def target_split)
  moreover have "routed L (message_of (place\<lparr>lo_target := ?rest\<rparr>) (forwarded_to L (scheme @ authority) req)) =
      req\<lparr>rq_forwarded := True\<rparr>"
    using target_read_back [OF assms(3), of "rq_query req"] string_to_verb_name [OF assms(6)] assms(4,5,7)
      header_text_int [of "rq_term req"]
    by (simp add: routed_def message_of_def forwarded_to_def method_of_def forwarded_headers read_term_def read_count_def
        numbers_ok_def header_text_def)
  moreover have "mg_method (message_of (place\<lparr>lo_target := ?rest\<rparr>) (forwarded_to L (scheme @ authority) req)) = rq_method req"
    using string_to_verb_name [OF assms(6)] by (simp add: message_of_def forwarded_to_def method_of_def)
  ultimately show thesis by (intro that [of "place\<lparr>lo_target := ?rest\<rparr>"]) (simp_all add: message_of_def)
qed

text \<open>And it is one a session takes to the router: its path begins with a slash and goes up nowhere.\<close>

lemma no_traversal:
  assumes "list_all (escaped_ok L) path" and "''..'' \<notin> set path"
  shows "\<not> has_traversal L (target_path L path @ (if query \<noteq> [] then CHR ''?'' # query else []))"
proof -
  have "CHR ''?'' \<notin> set (target_path L path)" "split_path L (target_path L path) = path"
    using split_target_path [OF assms(1)] by simp_all
  with assms(2) show ?thesis by (auto simp: has_traversal_def list_ex_iff)
qed

text \<open>
  C28. A request a node forwards is the request the other node routes: written by the forwarder, turned into a
  message by the client and read off the connection, it has the method, the path, the query, the body, the
  term and the count it was forwarded with, and it is marked as forwarded. What is needed is that the
  segments of its path survive percent coding, and that the order it carries is one a leader gave, or none.
\<close>

theorem a_forwarded_request_arrives_as_it_was_sent:
  assumes "locate (scheme @ authority) = Some place"
    and "\<not> list_ex (\<lambda>c. c = CHR ''/'' \<or> c = CHR ''?'') authority"
    and "list_all (escaped_ok L) (rq_path req)"
    and "numbers_ok L" and "in_int64 (rq_term req)"
    and "is_routable_method (rq_method req)" and "rq_term req = 0 \<longrightarrow> rq_count req = 0"
  shows "\<exists>reached. locate (q_url (forwarded_to L (scheme @ authority) req)) = Some reached \<and>
      lo_host reached = lo_host place \<and> lo_port reached = lo_port place \<and>
      routed L (message_of reached (forwarded_to L (scheme @ authority) req)) = req\<lparr>rq_forwarded := True\<rparr>"
  using request_arrives [OF assms] by metis

theorem a_forwarded_request_arrives_as_it_was_sent_witness:
  "\<exists>reached. locate (q_url (forwarded_to (example_libs Jnull) ''http://n2:8080'' (ordered_put 7))) = Some reached \<and>
      lo_host reached = ''n2'' \<and> lo_port reached = ''8080'' \<and>
      routed (example_libs Jnull) (message_of reached (forwarded_to (example_libs Jnull) ''http://n2:8080'' (ordered_put 7))) =
        ordered_put 7"
proof -
  let ?place = "\<lparr>lo_host = ''n2'', lo_port = ''8080'', lo_target = ''/'', lo_authority = ''n2:8080''\<rparr>"
  have "locate (scheme @ ''n2:8080'') = Some ?place"
    by (simp add: locate_def scheme_def rfind_char_def)
  moreover have "\<not> list_ex (\<lambda>c. c = CHR ''/'' \<or> c = CHR ''?'') ''n2:8080''" by simp
  moreover have "list_all (escaped_ok (example_libs Jnull)) (rq_path (ordered_put 7))"
    by (simp add: ordered_put_def escaped_ok_def example_libs_def)
  moreover have "numbers_ok (example_libs Jnull)" by (simp add: numbers_ok_def lexical_example)
  moreover have "in_int64 (rq_term (ordered_put 7))" by (simp add: ordered_put_def in_int64_def)
  moreover have "is_routable_method (rq_method (ordered_put 7))" by (simp add: ordered_put_def is_routable_method_def)
  moreover have "rq_term (ordered_put 7) = 0 \<longrightarrow> rq_count (ordered_put 7) = 0" by (simp add: ordered_put_def)
  moreover have "(ordered_put 7)\<lparr>rq_forwarded := True\<rparr> = ordered_put 7" by (simp add: ordered_put_def)
  ultimately show ?thesis
    using a_forwarded_request_arrives_as_it_was_sent [of "''n2:8080''" ?place "example_libs Jnull" "ordered_put 7"]
    by (simp add: scheme_def)
qed

section \<open>An answer\<close>

text \<open>An answer that arrived, as the client hands it on.\<close>

definition delivered :: "libs \<Rightarrow> bool \<Rightarrow> sent_answer \<Rightarrow> http_response" where
  "delivered L reused sent =
     (take_headers L \<lparr>ra_status = int (sa_status sent), ra_fields = sa_fields sent, ra_body = sa_body sent,
        ra_keep_alive = sa_keep_alive sent\<rparr> (no_answer\<lparr>a_reused := reused\<rparr>))\<lparr>a_body := sa_body sent\<rparr>"

lemma answer_names_differ [simp]:
  "\<not> same_name ''Content-Type'' records_header" "\<not> same_name ''Content-Type'' next_header"
  "\<not> same_name ''Content-Length'' records_header" "\<not> same_name ''Content-Length'' next_header"
  "\<not> same_name ''Content-Length'' ''Content-Type''" "\<not> same_name ''Content-Type'' ''Content-Length''"
  "\<not> same_name records_header ''Content-Type''" "\<not> same_name next_header ''Content-Type''"
  "\<not> same_name records_header ''Content-Length''" "\<not> same_name next_header ''Content-Length''"
  "\<not> same_name records_header next_header" "\<not> same_name next_header records_header"
  by (simp_all add: same_name_def records_header_def next_header_def tolower_def)

lemma described:
  "header_in (describe given) ''Content-Type'' = rs_content_type given"
  "header_in (describe given) records_header = (if f_records (rs_file given) > 0 then to_string (f_records (rs_file given)) else [])"
  "header_in (describe given) next_header = f_next (rs_file given)"
  by (auto simp: describe_def header_in_set_field Let_def)

lemma header_in_ours: "is_ours (name, v) \<Longrightarrow> header_in (filter is_ours fs) name = header_in fs name"
proof (induction fs)
  case (Cons f fs)
  have "is_ours (key, u)" if "same_name key name" for key u
    using that Cons.prems by (auto simp: is_ours_def same_name_def list_all2_conv_all_nth)
  with Cons show ?case by (cases f) auto
qed simp

lemma ours: "is_ours (records_header, v)" "is_ours (next_header, v)"
  by (simp_all add: is_ours_def records_header_def next_header_def header_prefix_def)

definition sizes_ok :: "libs \<Rightarrow> bool" where
  "sizes_ok L \<longleftrightarrow> lexical_size L [] = None \<and> (\<forall>n < 2 ^ 64. lexical_size L (to_string n) = Some n)"

lemma to_string_int: "to_string n = int_to_string (int n)"
  by (simp add: int_to_string_def)

lemma delivered_fields:
  assumes "sa_fields sent = set_field ''Content-Length'' n (describe given) \<or> sa_fields sent = describe given"
  shows "a_content_type (delivered L reused sent) = rs_content_type given"
    and "header_of (delivered L reused sent) records_header =
      (if f_records (rs_file given) > 0 then to_string (f_records (rs_file given)) else [])"
    and "header_of (delivered L reused sent) next_header = f_next (rs_file given)"
  using assms
  by (auto simp: delivered_def take_headers_def header_of_def no_answer_def header_in_ours [OF ours(1)]
      header_in_ours [OF ours(2)] header_in_set_field described)

lemma prepared: "prepare_payload st body fs = set_field ''Content-Length'' (to_string (length body)) fs \<or> prepare_payload st body fs = fs"
  by (simp add: prepare_payload_def)

lemma header_in_prepared:
  "\<not> same_name ''Content-Length'' other \<Longrightarrow> header_in (prepare_payload st body fs) other = header_in fs other"
  by (simp add: prepare_payload_def header_in_set_field)

lemma transfer_of_delivered:
  assumes "sa_fields sent = set_field ''Content-Length'' n (describe given) \<or> sa_fields sent = describe given"
    and "sizes_ok L" and "f_records (rs_file given) < 2 ^ 64"
  shows "transfer_of L (delivered L reused sent) = (rs_file given)\<lparr>f_sent := None\<rparr>"
  using assms(2,3) by (simp add: transfer_of_def delivered_fields [OF assms(1)] sizes_ok_def no_transfer_def)

lemma written_fields:
  "sa_fields (write_text L ka given head) = set_field ''Content-Length'' (to_string (length (response_body L given)))
     (describe given) \<or> sa_fields (write_text L ka given head) = describe given" if "\<not> head"
  using that prepared [of "rs_status given" "response_body L given" "describe given"]
  by (simp add: write_text_def Let_def)

lemma delivered_simps [simp]:
  "a_status (delivered L reused sent) = int (sa_status sent)" "a_body (delivered L reused sent) = sa_body sent"
  by (simp_all add: delivered_def take_headers_def)

lemma status_of_int: "st < 2 ^ 32 \<Longrightarrow> status_of (int st) = st"
  by (simp add: status_of_def nat_mod_distrib)

lemma written_simps [simp]:
  "sa_status (write_text L ka given head) = rs_status given"
  "sa_body (write_text L ka given head) = (if head then [] else response_body L given)"
  by (simp_all add: write_text_def Let_def)

lemma text_not_json: "\<not> contains_text json_content_type text_content_type" "\<not> contains_text json_content_type file_content_type"
  "contains_text json_content_type json_content_type"
  by (simp_all add: json_content_type_def text_content_type_def file_content_type_def)

text \<open>An answer of no file, written and read back.\<close>

lemma to_response_written:
  assumes "sizes_ok L" and "rs_status given < 2 ^ 32" and "rs_file given = no_transfer"
  shows "to_response L node (Inr (delivered L reused (make_response L None ka given False))) False =
    (let body = response_body L given
     in if body = [] then empty_response (rs_status given)
        else if \<not> contains_text json_content_type (rs_content_type given) then text_response (rs_status given) body
        else case parse_object L body of
               None \<Rightarrow> error_response Storage_error
                         (''Node \"'' @ node @ ''\" answered with something that is not a document.'')
             | Some obj \<Rightarrow> json_response (rs_status given) obj)"
proof -
  have sent: "f_sent (rs_file given) = None" "f_records (rs_file given) < 2 ^ 64" by (simp_all add: assms(3) no_transfer_def)
  note fields = written_fields [of False L ka given, simplified]
  have "transfer_of L (delivered L reused (write_text L ka given False)) = no_transfer"
    using transfer_of_delivered [OF fields assms(1) sent(2)] assms(3) by (simp add: no_transfer_def)
  with sent(1) delivered_fields(1) [OF fields, of L reused] show ?thesis
    by (auto simp: make_response_def to_response_def body_of_def status_of_int [OF assms(2)] Let_def response_defs
        error_response_def no_transfer_def split: option.split)
qed



section \<open>The client\<close>

lemma take_links_length: "length (fst (take_links K qs b)) = length qs"
  by (induction qs arbitrary: b) (auto simp: case_prod_unfold Let_def split: option.split)

lemma exchange_all_length: "length (fst (exchange_all L K t c asked w)) = length asked"
  by (induction asked arbitrary: w) (auto simp: case_prod_unfold Let_def split: option.split)


text \<open>A network on which nothing can be reached.\<close>

definition dead_sockets :: "unit sockets" where
  "dead_sockets =
     \<lparr>sk_address = (\<lambda>host. False), sk_port = (\<lambda>port. None), sk_resolve = (\<lambda>host port w. (Inl ''no such host'', w)),
      sk_dial = (\<lambda>host port until w. (Some ''refused'', w)), sk_dial_any = (\<lambda>addresses until w. (Some ''refused'', w)),
      sk_transmit = (\<lambda>link carried until w. (Inl (''reset'', False), w)), sk_readable = (\<lambda>c w. False),
      sk_reads = (\<lambda>link q w. ([], w)), sk_now = (\<lambda>w. 0)\<rparr>"


end
