(* ===== verification/Store_Export.thy ===== *)
theory Store_Export
  imports Store_Files
begin

text \<open>
  What \<open>export_records\<close> (\<^verbatim>\<open>src/repository/rocksdb_repository.cpp\<close>) puts in a file: a run of the share it was
  asked for that leaves nothing out, and where the next file goes on.
\<close>

section \<open>The share asked for\<close>

definition within :: "nat \<Rightarrow> string \<Rightarrow> bool" where
  "within part k = (partition_prefix part \<le> k \<and> k < partition_prefix (part + 1))"

definition in_bounds :: "share \<Rightarrow> string \<Rightarrow> bool" where
  "in_bounds wanted k = ((s_has_from wanted \<longrightarrow> s_from wanted < k) \<and> (s_has_to wanted \<longrightarrow> k \<le> s_to wanted))"

definition in_share :: "share \<Rightarrow> string \<Rightarrow> bool" where
  "in_share wanted k =
     ((\<exists>part < partition_count. has (s_partitions wanted) part \<and> within part k) \<and> in_bounds wanted k)"

text \<open>What a file carries of a stored record: all of it, or the version it starts with.\<close>

definition carried_value :: "share \<Rightarrow> string \<Rightarrow> string" where
  "carried_value wanted stored = (if s_values wanted then stored else take (min (length stored) version_size) stored)"

definition carried_entry :: "share \<Rightarrow> string \<times> string \<Rightarrow> string \<times> string" where
  "carried_entry wanted = (\<lambda>(k, stored). (k, carried_value wanted stored))"

text \<open>
  A file of a share: its entries are records of the share, in order, and none is missing, as far as the key
  the walk goes on from where there is more, and to the end of the share where there is not.
\<close>

definition file_of :: "family_view \<Rightarrow> share \<Rightarrow> entries \<Rightarrow> bool \<Rightarrow> string \<Rightarrow> bool" where
  "file_of m wanted kvs goes_on last_key \<longleftrightarrow>
     ascending kvs \<and>
     (\<forall>k c. (k, c) \<in> set kvs \<longleftrightarrow>
        (\<exists>v. m k = Some v \<and> c = carried_value wanted v \<and> in_share wanted k \<and> (goes_on \<longrightarrow> k \<le> last_key))) \<and>
     (goes_on \<longrightarrow> kvs \<noteq> [] \<and> last_key = fst (last kvs))"

section \<open>One partition\<close>

text \<open>How the walk of one partition ends: it ran out, it came to the end of the share, or the file is full.\<close>

definition entries_end :: "share \<Rightarrow> entries \<Rightarrow> Repository.walk \<Rightarrow> Repository.walk \<Rightarrow> bool" where
  "entries_end wanted kvs w w' \<longleftrightarrow>
     (\<exists>new rest. filter (\<lambda>(k, _). \<not> (s_has_from wanted \<and> k = s_from wanted)) kvs = new @ rest \<and>
        w_taken w' = w_taken w @ map (carried_entry wanted) new \<and>
        (\<forall>x \<in> set new. s_has_to wanted \<longrightarrow> fst x \<le> s_to wanted) \<and>
        (rest = [] \<and> \<not> w_left w' \<and> \<not> w_has_more w' \<and> \<not> w_done w' \<and> w_bytes w' < s_bytes wanted \<or>
         rest \<noteq> [] \<and> s_has_to wanted \<and> fst (hd rest) > s_to wanted \<and> w_done w' \<and> \<not> w_has_more w' \<and> w_bytes w' < s_bytes wanted \<or>
         new \<noteq> [] \<and> w_has_more w' \<and> w_last w' = fst (last new) \<and> w_bytes w' \<ge> s_bytes wanted))"

lemma export_entries_ends:
  assumes "export_entries R wanted what kvs w s = (Inr w', s')"
    and "w_bytes w < s_bytes wanted" and "\<not> w_has_more w" and "\<not> w_done w"
  shows "s' = s \<and> entries_end wanted kvs w w'"
  using assms
proof (induction kvs arbitrary: w)
  case Nil
  then show ?case by (auto simp: entries_end_def)
next
  case (Cons e kvs)
  obtain k stored where e: "e = (k, stored)" by fastforce
  consider (skip) "s_has_from wanted \<and> k = s_from wanted"
    | (past) "\<not> (s_has_from wanted \<and> k = s_from wanted)" "s_has_to wanted \<and> k > s_to wanted"
    | (take_it) "\<not> (s_has_from wanted \<and> k = s_from wanted)" "\<not> (s_has_to wanted \<and> k > s_to wanted)" by blast
  then show ?case
  proof cases
    case skip
    with Cons.prems e Cons.IH [of w] show ?thesis by (auto simp: entries_end_def)
  next
    case past
    with Cons.prems e have "s' = s" "w' = w\<lparr>w_done := True, w_left := True\<rparr>" by auto
    with past Cons.prems(2-4) e show ?thesis
      by (auto simp: entries_end_def intro!: exI [of _ "[]"])
  next
    case take_it
    let ?c = "carried_value wanted stored"
    let ?v = "w\<lparr>w_taken := w_taken w @ [(k, ?c)],
      w_bytes := w_bytes w + length k + (if s_values wanted then length stored else 0)\<rparr>"
    from Cons.prems(1) e take_it have run:
      "(if w_bytes ?v \<ge> s_bytes wanted then ret (?v\<lparr>w_last := k, w_has_more := True, w_left := True\<rparr>)
        else export_entries R wanted what kvs ?v) s = (Inr w', s')"
      by (auto simp: andthen_Inr check_def Let_def carried_value_def split: if_splits)
    show ?thesis
    proof (cases "w_bytes ?v \<ge> s_bytes wanted")
      case True
      with run have "s' = s" "w' = ?v\<lparr>w_last := k, w_has_more := True, w_left := True\<rparr>" by auto
      with True take_it e show ?thesis
        unfolding entries_end_def
        by (intro conjI exI [of _ "[(k, stored)]"] exI [of _ "filter (\<lambda>(k, _). \<not> (s_has_from wanted \<and> k = s_from wanted)) kvs"])
           (auto simp: carried_entry_def)
    next
      case False
      with run have r: "export_entries R wanted what kvs ?v s = (Inr w', s')" by simp
      have "s' = s \<and> entries_end wanted kvs ?v w'"
        using False Cons.prems(3,4) by (intro Cons.IH [OF r]) simp_all
      then obtain new rest where n: "s' = s" "filter (\<lambda>(k, _). \<not> (s_has_from wanted \<and> k = s_from wanted)) kvs = new @ rest"
        "w_taken w' = w_taken ?v @ map (carried_entry wanted) new"
        "\<forall>x \<in> set new. s_has_to wanted \<longrightarrow> fst x \<le> s_to wanted"
        "rest = [] \<and> \<not> w_left w' \<and> \<not> w_has_more w' \<and> \<not> w_done w' \<and> w_bytes w' < s_bytes wanted \<or>
         rest \<noteq> [] \<and> s_has_to wanted \<and> fst (hd rest) > s_to wanted \<and> w_done w' \<and> \<not> w_has_more w' \<and> w_bytes w' < s_bytes wanted \<or>
         new \<noteq> [] \<and> w_has_more w' \<and> w_last w' = fst (last new) \<and> w_bytes w' \<ge> s_bytes wanted"
        unfolding entries_end_def by blast
      with take_it e have "filter (\<lambda>(k, _). \<not> (s_has_from wanted \<and> k = s_from wanted)) (e # kvs) = ((k, stored) # new) @ rest"
        "w_taken w' = w_taken w @ map (carried_entry wanted) ((k, stored) # new)"
        "\<forall>x \<in> set ((k, stored) # new). s_has_to wanted \<longrightarrow> fst x \<le> s_to wanted"
        by (auto simp: carried_entry_def)
      with n(1,5) show ?thesis unfolding entries_end_def
        by (intro conjI exI [of _ "(k, stored) # new"] exI [of _ rest]) auto
    qed
  qed
qed

section \<open>All partitions\<close>

lemma prefix_mono: "p \<le> q \<Longrightarrow> q \<le> partition_count \<Longrightarrow> partition_prefix p \<le> partition_prefix q"
  using partition_prefix_less [of p q] by (cases "p = q") (auto simp: partition_count_def intro: less_imp_le)

text \<open>The walk before it gets to partition \<open>p\<close>.\<close>

definition walked_to :: "family_view \<Rightarrow> share \<Rightarrow> nat \<Rightarrow> Repository.walk \<Rightarrow> bool" where
  "walked_to m wanted p w \<longleftrightarrow>
     ascending (w_taken w) \<and>
     (\<forall>k c. (k, c) \<in> set (w_taken w) \<longrightarrow>
        k < partition_prefix p \<and> in_share wanted k \<and> (\<exists>v. m k = Some v \<and> c = carried_value wanted v)) \<and>
     (w_has_more w \<longrightarrow> w_taken w \<noteq> [] \<and> w_last w = fst (last (w_taken w))) \<and>
     (w_has_more w \<longleftrightarrow> w_bytes w \<ge> s_bytes wanted) \<and>
     (\<forall>k v. m k = Some v \<longrightarrow> in_share wanted k \<longrightarrow>
        (if w_has_more w then k \<le> w_last w else k < partition_prefix p \<or> w_done w) \<longrightarrow>
        (k, carried_value wanted v) \<in> set (w_taken w))"

lemma walked_to_start: "0 < s_bytes wanted \<Longrightarrow> walked_to m wanted 0 start_walk"
proof -
  have "\<not> k < partition_prefix 0" if "in_share wanted k" for k
  proof -
    from that obtain part where "part < partition_count" "partition_prefix part \<le> k" by (auto simp: in_share_def within_def)
    with prefix_mono [of 0 part] show ?thesis by simp
  qed
  then show "0 < s_bytes wanted \<Longrightarrow> ?thesis" by (auto simp: walked_to_def start_walk_def)
qed

text \<open>A key of the share below the end of partition \<open>p\<close> is below its start or in it, where the walk looks.\<close>

lemma in_share_below:
  assumes "in_share wanted k" and "k < partition_prefix (p + 1)" and "p < partition_count"
  shows "k < partition_prefix p \<or> within p k \<and> has (s_partitions wanted) p"
proof -
  from assms(1) obtain part where part: "part < partition_count" "has (s_partitions wanted) part" "within part k"
    by (auto simp: in_share_def)
  consider "part < p" | "part = p" | "p < part" by linarith
  then show ?thesis
  proof cases
    case 1
    with part assms(3) prefix_mono [of "part + 1" p] show ?thesis by (auto simp: within_def)
  next
    case 3
    with part prefix_mono [of "p + 1" part] assms(2) show ?thesis by (auto simp: within_def)
  qed (use part in auto)
qed

text \<open>Passing over a partition the share has nothing in.\<close>

lemma walked_to_pass:
  assumes "walked_to m wanted p w" and "\<not> w_has_more w" and "p < partition_count"
    and "\<And>k. in_share wanted k \<Longrightarrow> within p k \<Longrightarrow> has (s_partitions wanted) p \<Longrightarrow> False"
  shows "walked_to m wanted (p + 1) w"
proof -
  have "partition_prefix p \<le> partition_prefix (p + 1)" using assms(3) by (intro prefix_mono) simp_all
  with assms in_share_below [OF _ _ assms(3)] show ?thesis
    unfolding walked_to_def by (meson order_less_le_trans)
qed

lemma walked_to_later:
  assumes "walked_to m wanted p w" and "w_has_more w \<or> w_done w" and "p \<le> q" and "q \<le> partition_count"
  shows "walked_to m wanted q w"
  using assms prefix_mono [OF assms(3,4)] unfolding walked_to_def by (meson order_less_le_trans)

lemma ascending_carried: "ascending (map (carried_entry wanted) kvs) = ascending kvs"
  by (simp add: ascending_def carried_entry_def case_prod_unfold comp_def)

lemma ascending_hd: "ascending kvs \<Longrightarrow> x \<in> set kvs \<Longrightarrow> fst (hd kvs) \<le> fst x"
  by (cases kvs) (auto simp: ascending_Cons less_imp_le)

lemma ascending_last: "ascending kvs \<Longrightarrow> x \<in> set kvs \<Longrightarrow> fst x \<le> fst (last kvs)"
  by (induction kvs) (auto simp: ascending_Cons less_imp_le)

text \<open>The entries of one partition the walk may put in the file, of which it put \<open>new\<close> in.\<close>

lemma walked_to_more:
  assumes w: "walked_to m wanted p w" "\<not> w_has_more w" "p < partition_count" "has (s_partitions wanted) p"
    and xs: "ascending (new @ rest)"
      "\<And>k v. (k, v) \<in> set (new @ rest) \<longleftrightarrow> m k = Some v \<and> within p k \<and> (s_has_from wanted \<longrightarrow> s_from wanted < k)"
    and taken: "w_taken w' = w_taken w @ map (carried_entry wanted) new"
    and low: "\<And>x. x \<in> set new \<Longrightarrow> s_has_to wanted \<Longrightarrow> fst x \<le> s_to wanted"
    and how: "rest = [] \<and> \<not> w_has_more w' \<and> \<not> w_done w' \<and> w_bytes w' < s_bytes wanted \<or>
      rest \<noteq> [] \<and> s_has_to wanted \<and> fst (hd rest) > s_to wanted \<and> w_done w' \<and> \<not> w_has_more w' \<and> w_bytes w' < s_bytes wanted \<or>
      new \<noteq> [] \<and> w_has_more w' \<and> w_last w' = fst (last new) \<and> w_bytes w' \<ge> s_bytes wanted"
  shows "walked_to m wanted (p + 1) w'"
proof -
  have new: "m k = Some v \<and> within p k \<and> in_share wanted k" if "(k, v) \<in> set new" for k v
    using that xs(2) [of k v] low [OF that] w(3,4) by (auto simp: in_share_def in_bounds_def)
  have old: "k < partition_prefix p" if "(k, c) \<in> set (w_taken w)" for k c
    using that w(1) unfolding walked_to_def by blast
  have up: "partition_prefix p \<le> partition_prefix (p + 1)" using w(3) by (intro prefix_mono) simp_all
  have later: "fst (hd rest) \<le> fst x" "\<And>y. y \<in> set new \<Longrightarrow> fst y < fst x" if "x \<in> set rest" for x
    using that xs(1) ascending_hd [of rest x] by (auto simp: ascending_append)
  have "ascending (w_taken w')"
  proof -
    have "partition_prefix p \<le> fst y" if "y \<in> set (map (carried_entry wanted) new)" for y
      using that new by (auto simp: carried_entry_def within_def)
    moreover have "fst x < partition_prefix p" if "x \<in> set (w_taken w)" for x
      using that old [of "fst x" "snd x"] by simp
    ultimately have "fst x < fst y" if "x \<in> set (w_taken w)" "y \<in> set (map (carried_entry wanted) new)" for x y
      using that by (meson order_less_le_trans)
    then show ?thesis using w(1) xs(1) by (simp add: taken ascending_append ascending_carried walked_to_def)
  qed
  moreover have "k < partition_prefix (p + 1) \<and> in_share wanted k \<and> (\<exists>v. m k = Some v \<and> c = carried_value wanted v)"
    if "(k, c) \<in> set (w_taken w')" for k c
  proof (cases "(k, c) \<in> set (w_taken w)")
    case True
    with w(1) up show ?thesis unfolding walked_to_def by (meson order_less_le_trans)
  next
    case False
    with that obtain v where "(k, v) \<in> set new" "c = carried_value wanted v" by (auto simp: taken carried_entry_def)
    with new show ?thesis by (auto simp: within_def)
  qed
  moreover have "w_has_more w' \<Longrightarrow> w_taken w' \<noteq> [] \<and> w_last w' = fst (last (w_taken w'))"
    using how by (auto simp: taken carried_entry_def last_map case_prod_unfold)
  moreover have "w_has_more w' \<longleftrightarrow> w_bytes w' \<ge> s_bytes wanted" using how by auto
  moreover have "(k, carried_value wanted v) \<in> set (w_taken w')"
    if k: "m k = Some v" "in_share wanted k" "if w_has_more w' then k \<le> w_last w' else k < partition_prefix (p + 1) \<or> w_done w'"
    for k v
  proof -
    have bounds: "s_has_from wanted \<longrightarrow> s_from wanted < k" "s_has_to wanted \<longrightarrow> k \<le> s_to wanted"
      using k(2) by (simp_all add: in_share_def in_bounds_def)
    have "k < partition_prefix (p + 1)"
    proof (cases "w_has_more w'")
      case True
      with how have "new \<noteq> []" "w_last w' = fst (last new)" by auto
      with new [of "fst (last new)" "snd (last new)"] k(3) True show ?thesis
        by (auto simp: within_def intro: order_le_less_trans)
    next
      case False
      show ?thesis
      proof (cases "w_done w'")
        case True
        with how False have "rest \<noteq> []" "s_has_to wanted" "s_to wanted < fst (hd rest)" by auto
        moreover from \<open>rest \<noteq> []\<close> xs(2) [of "fst (hd rest)" "snd (hd rest)"] have "fst (hd rest) < partition_prefix (p + 1)"
          by (simp add: within_def)
        ultimately show ?thesis using bounds(2) by (meson order_le_less_trans order_less_trans)
      qed (use k(3) False in simp)
    qed
    from in_share_below [OF k(2) this w(3)] consider "k < partition_prefix p" | "within p k" by blast
    then show ?thesis
    proof cases
      case 1
      with w(1,2) k(1,2) show ?thesis by (auto simp: walked_to_def taken)
    next
      case 2
      have "(k, v) \<in> set (new @ rest)" using xs(2) k(1) 2 bounds(1) by blast
      moreover have "(k, v) \<notin> set rest"
      proof
        assume r: "(k, v) \<in> set rest"
        note l = later [OF r, simplified]
        from r how show False
        proof (elim disjE conjE)
          assume "fst (hd rest) > s_to wanted" "s_has_to wanted"
          with l(1) bounds(2) show False by (auto dest: order_less_le_trans)
        next
          assume "new \<noteq> []" "w_last w' = fst (last new)" "w_has_more w'"
          with l(2) [of "last new"] k(3) show False by auto
        qed simp
      qed
      ultimately have "(k, v) \<in> set new" by simp
      then show ?thesis by (force simp: taken carried_entry_def)
    qed
  qed
  ultimately show ?thesis unfolding walked_to_def by blast
qed

lemma walked_to_entries:
  assumes laws: "rocksdb_laws R view contents" and m: "view db t = Some m"
    and w: "walked_to m wanted p w" "\<not> w_has_more w" "p < partition_count" "has (s_partitions wanted) p"
    and it: "rdb_iterate R db t (if s_has_from wanted \<and> s_from wanted > partition_prefix p then s_from wanted
        else partition_prefix p) (partition_prefix (p + 1)) False = (kvs, st)"
    and ends: "entries_end wanted kvs w w'" and read_all: "w_left w' \<or> st = Ok_status"
  shows "walked_to m wanted (p + 1) w'"
proof -
  let ?P = "\<lambda>(k, v). \<not> (s_has_from wanted \<and> k = s_from wanted)"
  from ends obtain new rest where n: "filter ?P kvs = new @ rest" "w_taken w' = w_taken w @ map (carried_entry wanted) new"
    "\<forall>x \<in> set new. s_has_to wanted \<longrightarrow> fst x \<le> s_to wanted"
    and how: "rest = [] \<and> \<not> w_left w' \<and> \<not> w_has_more w' \<and> \<not> w_done w' \<and> w_bytes w' < s_bytes wanted \<or>
      rest \<noteq> [] \<and> s_has_to wanted \<and> fst (hd rest) > s_to wanted \<and> w_done w' \<and> \<not> w_has_more w' \<and> w_bytes w' < s_bytes wanted \<or>
      new \<noteq> [] \<and> w_has_more w' \<and> w_last w' = fst (last new) \<and> w_bytes w' \<ge> s_bytes wanted"
    unfolding entries_end_def by blast
  obtain unread where u: "ascending (kvs @ unread)"
    "\<And>k v. (k, v) \<in> set (kvs @ unread) \<longleftrightarrow> m k = Some v \<and>
      (if s_has_from wanted \<and> s_from wanted > partition_prefix p then s_from wanted else partition_prefix p) \<le> k \<and>
      k < partition_prefix (p + 1)" "st = Ok_status \<Longrightarrow> unread = []"
    using rdb_iterateE [OF laws m it] by auto
  let ?rest = "rest @ filter ?P unread"
  have all: "new @ ?rest = filter ?P (kvs @ unread)" using n(1) by simp
  show ?thesis
  proof (rule walked_to_more [OF w, of new ?rest])
    show "ascending (new @ ?rest)" unfolding all using u(1) by (rule ascending_filter)
    show "(k, v) \<in> set (new @ ?rest) \<longleftrightarrow> m k = Some v \<and> within p k \<and> (s_has_from wanted \<longrightarrow> s_from wanted < k)" for k v
      unfolding all set_filter mem_Collect_eq u(2) within_def by auto
    show "w_taken w' = w_taken w @ map (carried_entry wanted) new" by (rule n(2))
    show "fst x \<le> s_to wanted" if "x \<in> set new" "s_has_to wanted" for x using that n(3) by simp
    show "?rest = [] \<and> \<not> w_has_more w' \<and> \<not> w_done w' \<and> w_bytes w' < s_bytes wanted \<or>
      ?rest \<noteq> [] \<and> s_has_to wanted \<and> fst (hd ?rest) > s_to wanted \<and> w_done w' \<and> \<not> w_has_more w' \<and> w_bytes w' < s_bytes wanted \<or>
      new \<noteq> [] \<and> w_has_more w' \<and> w_last w' = fst (last new) \<and> w_bytes w' \<ge> s_bytes wanted"
      using how u(3) read_all by auto
  qed
qed

lemma export_partitions_walked:
  assumes laws: "rocksdb_laws R view contents" and m: "view (database s) t = Some m" and ok: "repo_ok L view s"
    and run: "export_partitions R t wanted what [p..<partition_count] w s = (Inr w', s')"
    and w: "walked_to m wanted p w" and p: "p \<le> partition_count"
  shows "s' = s \<and> walked_to m wanted partition_count w'"
  using run w p
proof (induction "partition_count - p" arbitrary: p w)
  case 0
  then show ?case by simp
next
  case (Suc n)
  then have lt: "p < partition_count" by simp
  have upt: "[p..<partition_count] = p # [p + 1..<partition_count]" using lt by (simp add: upt_conv_Cons)
  note run = Suc.prems(1) [unfolded upt export_partitions.simps]
  note ih = Suc.hyps(1) [of "p + 1"]
  show ?case
  proof (cases "w_done w \<or> w_bytes w \<ge> s_bytes wanted")
    case True
    with run have "w' = w" "s' = s" by simp_all
    with True Suc.prems(2) show ?thesis
      using walked_to_later [OF Suc.prems(2), of partition_count] lt by (auto simp: walked_to_def)
  next
    case going: False
    then have nm: "\<not> w_has_more w" using Suc.prems(2) by (auto simp: walked_to_def)
    let ?start = "partition_prefix p" and ?after = "partition_prefix (p + 1)"
    consider (skip) "\<not> has (s_partitions wanted) p \<or> s_has_from wanted \<and> s_from wanted \<ge> ?after"
      | (past) "has (s_partitions wanted) p" "\<not> (s_has_from wanted \<and> s_from wanted \<ge> ?after)" "s_has_to wanted \<and> ?start > s_to wanted"
      | (walk) "has (s_partitions wanted) p" "\<not> (s_has_from wanted \<and> s_from wanted \<ge> ?after)" "\<not> (s_has_to wanted \<and> ?start > s_to wanted)"
      by blast
    then show ?thesis
    proof cases
      case skip
      then have "walked_to m wanted (p + 1) w"
        by (intro walked_to_pass [OF Suc.prems(2) nm lt]) (auto simp: in_share_def in_bounds_def within_def)
      moreover from run going skip have "export_partitions R t wanted what [p + 1..<partition_count] w s = (Inr w', s')"
        by (auto simp: Let_def split: if_splits)
      ultimately show ?thesis using Suc.hyps(2) lt by (intro ih) simp_all
    next
      case past
      with run going have "w' = w \<and> s' = s" by (auto simp: Let_def split: if_splits)
      moreover have "walked_to m wanted partition_count w"
      proof -
        have "k < partition_prefix p" if "in_share wanted k" for k
          using that past(3) by (auto simp: in_share_def in_bounds_def intro: order_le_less_trans)
        with Suc.prems(2) nm prefix_mono [OF Suc.prems(3)] show ?thesis
          unfolding walked_to_def by (meson order_less_le_trans order_refl)
      qed
      ultimately show ?thesis by simp
    next
      case walk
      obtain kvs st where it: "rdb_iterate R (database s) t (if s_has_from wanted \<and> s_from wanted > ?start then s_from wanted
        else ?start) ?after False = (kvs, st)" by fastforce
      have f: "(w_done w \<or> w_bytes w \<ge> s_bytes wanted) = False" "(\<not> has (s_partitions wanted) p) = False"
        "(s_has_from wanted \<and> s_from wanted \<ge> ?after) = False" "(s_has_to wanted \<and> ?start > s_to wanted) = False"
        using going walk by auto
      from run have "andthen (table_handle t) (\<lambda>handle s.
          let from = (if s_has_from wanted \<and> s_from wanted > ?start then s_from wanted else ?start);
              (kvs, st) = rdb_iterate R (database s) handle from ?after False
          in andthen (export_entries R wanted what kvs w)
               (\<lambda>w. andthen (if w_left w then ret () else check R st what)
                  (\<lambda>_. export_partitions R t wanted what [p + 1..<partition_count] w)) s) s = (Inr w', s')"
        by (simp only: f if_False Let_def)
      moreover have "\<And>h u. table_handle t s = (Inr h, u) \<Longrightarrow> h = t \<and> u = s"
        using outcomeD(1) [OF outcome_table_handle [OF ok, of t "\<lambda>h u. h = t \<and> u = s" "\<lambda>_. True"]] by simp
      ultimately have "andthen (export_entries R wanted what kvs w)
               (\<lambda>w. andthen (if w_left w then ret () else check R st what)
                  (\<lambda>_. export_partitions R t wanted what [p + 1..<partition_count] w)) s = (Inr w', s')"
        using it by (fastforce simp: andthen_Inr)
      then obtain v where v: "export_entries R wanted what kvs w s = (Inr v, s)" "w_left v \<or> st = Ok_status"
        "export_partitions R t wanted what [p + 1..<partition_count] v s = (Inr w', s')"
        using export_entries_ends [of R wanted what kvs w s] going nm
        by (auto simp: andthen_Inr check_def split: if_splits)
      have "entries_end wanted kvs w v" using export_entries_ends [OF v(1)] going nm by simp
      from walked_to_entries [OF laws m Suc.prems(2) nm lt walk(1) it this v(2)]
      have "walked_to m wanted (p + 1) v" .
      with v(3) show ?thesis using Suc.hyps(2) lt by (intro ih) simp_all
    qed
  qed
qed

lemma walked_file:
  assumes "walked_to m wanted partition_count w"
  shows "file_of m wanted (w_taken w) (w_has_more w) (w_last w)"
proof -
  have below: "k < partition_prefix partition_count" if "in_share wanted k" for k
  proof -
    from that obtain part where "part < partition_count" "k < partition_prefix (part + 1)" by (auto simp: in_share_def within_def)
    with prefix_mono [of "part + 1" partition_count] show ?thesis by (auto intro: order_less_le_trans)
  qed
  have "k \<le> w_last w" if "w_has_more w" "(k, c) \<in> set (w_taken w)" for k c
    using that assms ascending_last [of "w_taken w" "(k, c)"] unfolding walked_to_def by auto
  with assms below show ?thesis
    unfolding walked_to_def file_of_def by (metis (no_types, lifting))
qed

section \<open>A file\<close>

text \<open>What an export puts in the answer of a file it made, and what it makes of a store.\<close>

definition exported :: "(string \<Rightarrow> entries) \<Rightarrow> family_view \<Rightarrow> share \<Rightarrow> extract_t \<Rightarrow> bool" where
  "exported contents m wanted x \<longleftrightarrow>
     (\<exists>kvs. (case x_file x of None \<Rightarrow> kvs = [] | Some f \<Rightarrow> f \<noteq> [] \<and> contents f = kvs) \<and> x_records x = length kvs \<and>
        file_of m wanted kvs (x_has_more x) (x_last x))"

lemma export_records_exported:
  assumes laws: "rocksdb_laws R view contents" and ok: "repo_ok L view s" and m: "view (database s) t = Some m"
    and bytes: "0 < s_bytes wanted" and run: "export_records R t wanted s = (Inr x, s')"
  shows "untouched view s s' \<and> exported contents m wanted x"
proof -
  let ?what = "''Exporting a file of \"'' @ t @ ''\"''" and ?s = "s\<lparr>transfers := transfers s + 1\<rparr>"
  have ok': "repo_ok L view ?s" using ok by (simp add: repo_ok_def)
  from run obtain w v where w: "export_partitions R t wanted ?what [0..<partition_count] start_walk ?s = (Inr w, v)"
    and fin: "(if w_taken w = []
           then ret \<lparr>x_file = None, x_records = 0, x_has_more = w_has_more w, x_last = w_last w\<rparr> v
           else let (st, file) = sst_finish R (database v) (w_taken w)
                in andthen (check R st ?what)
                     (\<lambda>_. ret \<lparr>x_file = Some file, x_records = length (w_taken w), x_has_more = w_has_more w,
                             x_last = w_last w\<rparr>) v) = (Inr x, s')"
    by (auto simp: export_records_def Let_def andthen_Inr check_def transfer_name_def split: if_splits)
  from export_partitions_walked [OF laws _ ok' w walked_to_start [OF bytes]] m
  have v: "v = ?s" and walked: "walked_to m wanted partition_count w" by auto
  have asc: "ascending (w_taken w)" using walked by (simp add: walked_to_def)
  show ?thesis
  proof (cases "w_taken w = []")
    case True
    with fin v have "x = \<lparr>x_file = None, x_records = 0, x_has_more = w_has_more w, x_last = w_last w\<rparr>" "s' = ?s" by auto
    with True walked_file [OF walked] show ?thesis by (simp add: exported_def)
  next
    case False
    obtain st f where f: "sst_finish R (database v) (w_taken w) = (st, f)" by fastforce
    with False fin v have st: "st = Ok_status" and x: "s' = ?s"
      "x = \<lparr>x_file = Some f, x_records = length (w_taken w), x_has_more = w_has_more w, x_last = w_last w\<rparr>"
      by (auto simp: andthen_Inr check_def split: if_splits)
    from sst_finishD [OF laws f [unfolded st] asc] walked_file [OF walked] x show ?thesis by (simp add: exported_def)
  qed
qed

end
