(* ===== verification/Walk_Share.thy ===== *)
theory Walk_Share
  imports Wire Store_Export Reconcile
begin

text \<open>
  What the walk of a share brings (\<^verbatim>\<open>src/transfer/\<close>): the file one node asks for is the file the other exports,
  the pieces of a walk cover the share once, a walk that ends whole took in every file of it, and a share
  that was fetched whole is here, record by record, at least as late as the other node has it.
\<close>

section \<open>The share a request asks for\<close>

fun query_text :: "(string \<times> string) list \<Rightarrow> string" where
  "query_text [] = []"
| "query_text [(name, v)] = name @ ''='' @ v"
| "query_text ((name, v) # more_of) = name @ ''='' @ v @ ''&'' @ query_text more_of"

lemma read_query_text:
  assumes "list_all (\<lambda>(name, v). CHR ''&'' \<notin> set name \<and> CHR ''='' \<notin> set name \<and> CHR ''&'' \<notin> set v) ps"
  shows "read_parameter L (query_text ps) name = (case map_of ps name of None \<Rightarrow> [] | Some v \<Rightarrow> decode_url L v)"
  using assms
proof (induction ps rule: query_text.induct)
  case 1
  then show ?case by (simp add: read_parameter_def)
next
  case (2 n v)
  then show ?case using read_parameter_last [of v n L name] by simp
next
  case (3 n v p ps)
  then show ?case using read_parameter_more [of v n L "query_text (p # ps)" name] by simp
qed

text \<open>What libcurl documents of a text that has no percent sign: there is nothing to undo.\<close>

definition plain_stays :: "libs \<Rightarrow> bool" where
  "plain_stays L = (\<forall>s. CHR ''%'' \<notin> set s \<longrightarrow> url_unescape L s = s)"

lemma hex_chars: "i < 16 \<Longrightarrow> hex_digits ! i \<in> set hex_digits"
  by (rule nth_mem) (simp add: hex_digits_def)

lemma encode_from_chars: "p = 4 * k \<Longrightarrow> set (encode_from partitions p) \<subseteq> set hex_digits"
proof (induction k arbitrary: p)
  case (Suc k)
  then show ?case
    using hex_chars [OF digit_at_lt, of partitions p] by (subst encode_from.simps) (simp add: bits_per_digit_def)
qed (simp add: encode_from.simps)

lemma encode_partitions_chars:
  "CHR ''&'' \<notin> set (encode_partitions partitions)" "CHR ''%'' \<notin> set (encode_partitions partitions)"
  using encode_from_chars [of partition_count 64 partitions]
  by (auto simp: encode_partitions_def partition_count_def hex_digits_def)

lemma to_string_chars: "CHR ''&'' \<notin> set (to_string n)" "CHR ''%'' \<notin> set (to_string n)"
  using to_string_digits [of n] by (auto simp: list_all_iff)

text \<open>The share a piece of a walk asks for: a bound that is the empty key asks for nothing less.\<close>

definition share_of_piece :: "transfer_share \<Rightarrow> nat \<Rightarrow> piece \<Rightarrow> share" where
  "share_of_piece wanted bytes p =
     \<lparr>s_partitions = ts_partitions wanted, s_from = (if pc_has_from p then pc_from p else []),
      s_has_from = (pc_has_from p \<and> pc_from p \<noteq> []), s_to = (if pc_has_to p then pc_to p else []),
      s_has_to = (pc_has_to p \<and> pc_to p \<noteq> []), s_values = ts_values wanted,
      s_bytes = min bytes max_file_bytes\<rparr>"

lemma base64_encode_Nil: "(base64_encode t = []) = (t = [])"
  by (metis base64_decode_encode base64_encode.simps(1) option.inject)

lemma share_asked_file_request:
  assumes "escapes L" and "plain_stays L" and "sizes_ok L" and "0 < bytes" and "bytes < 2 ^ 64"
  shows "share_asked L (rq_query (file_request L wanted p bytes)) = Inr (share_of_piece wanted bytes p)"
proof -
  let ?e = "\<lambda>t. encode_url L (base64_encode t)"
  let ?ps = "[(''partitions'', encode_partitions (ts_partitions wanted)),
      (''values'', if ts_values wanted then ''true'' else ''false''), (''bytes'', to_string bytes)] @
    (if pc_has_from p then [(''from'', ?e (pc_from p))] else []) @ (if pc_has_to p then [(''to'', ?e (pc_to p))] else [])"
  have q: "rq_query (file_request L wanted p bytes) = query_text ?ps"
    by (simp add: file_request_def get_request_def)
  have clean: "list_all (\<lambda>(name, v). CHR ''&'' \<notin> set name \<and> CHR ''='' \<notin> set name \<and> CHR ''&'' \<notin> set v) ?ps"
    using assms(1) encode_partitions_chars to_string_chars by auto
  have plain: "decode_url L (encode_partitions ps) = encode_partitions ps" "decode_url L (to_string n) = to_string n"
    "decode_url L ''true'' = ''true''" "decode_url L ''false'' = ''false''" for ps n
    using assms(2) encode_partitions_chars to_string_chars by (simp_all add: plain_stays_def decode_url_def)
  define qt where "qt = query_text ?ps"
  have "read_parameter L qt ''partitions'' = encode_partitions (ts_partitions wanted)"
    "read_parameter L qt ''values'' = (if ts_values wanted then ''true'' else ''false'')"
    "read_parameter L qt ''bytes'' = to_string bytes"
    "read_parameter L qt ''from'' = (if pc_has_from p then base64_encode (pc_from p) else [])"
    "read_parameter L qt ''to'' = (if pc_has_to p then base64_encode (pc_to p) else [])"
    unfolding qt_def read_query_text [OF clean] using plain assms(1) by simp_all
  moreover have "rq_query (file_request L wanted p bytes) = qt" unfolding qt_def by (rule q)
  ultimately show ?thesis
    using assms(3-5)
    by (auto simp: share_asked_def read_end_def partitions_read_back default_share_def share_of_piece_def
        base64_encode_Nil sizes_ok_def Let_def)
qed

section \<open>The answer to a request for a file\<close>

text \<open>An answer that carries a file of a share of a table whose records are \<open>m\<close>.\<close>

definition file_answer :: "(string \<Rightarrow> entries) \<Rightarrow> family_view \<Rightarrow> share \<Rightarrow> response \<Rightarrow> bool" where
  "file_answer contents m wanted a \<longleftrightarrow>
     (\<exists>x. exported contents m wanted x \<and> rs_text a = (case x_file x of None \<Rightarrow> [] | Some f \<Rightarrow> f) \<and>
        f_next (rs_file a) = (if x_has_more x then base64_encode (x_last x) else []))"

text \<open>What a node that has a request for a file answers with, once it crossed the network.\<close>

definition crossed :: "libs \<Rightarrow> string \<Rightarrow> bool \<Rightarrow> bool \<Rightarrow> response \<Rightarrow> response" where
  "crossed L node reused ka r = to_response L node (Inr (delivered L reused (make_response L None ka r False))) False"

lemma crossed_status:
  assumes "rs_status (crossed L node reused ka r) = 200" and "rs_status r < 2 ^ 32"
  shows "rs_status r = 200"
proof -
  have st: "sa_status (make_response L None ka r False) = rs_status r" by (simp add: make_response_def split: option.split)
  show ?thesis
    using assms(1) st status_of_int [OF assms(2)]
    by (auto simp: crossed_def to_response_def body_of_def Let_def response_defs error_response_def split: if_splits option.splits)
qed

lemma error_status_small [simp]: "error_status c < 4294967296"
  by (cases c) simp_all

lemma crossed_file:
  assumes "sizes_ok L" and "n < 2 ^ 64" and "sent \<noteq> Some []"
  shows "rs_text (crossed L node reused ka (file_response sent n resumes)) = (case sent of None \<Rightarrow> [] | Some f \<Rightarrow> f)"
    and "f_next (rs_file (crossed L node reused ka (file_response sent n resumes))) = resumes"
    and "rs_status (crossed L node reused ka (file_response sent n resumes)) = 200"
proof -
  let ?f = "file_response sent n resumes" and ?sent = "make_response L None ka (file_response sent n resumes) False"
  have rec: "f_records (rs_file ?f) < 2 ^ 64" "rs_content_type ?f = file_content_type" "rs_status ?f = 200"
    using assms(2) by (simp_all add: file_response_def)
  have sent: "sa_fields ?sent = set_field ''Content-Length'' (to_string (length (sa_body ?sent))) (describe ?f) \<or>
      sa_fields ?sent = describe ?f" "sa_status ?sent = 200" "sa_body ?sent = (case sent of None \<Rightarrow> [] | Some f \<Rightarrow> f)"
    using prepared [of 200 "sa_body ?sent" "describe ?f"]
    by (auto simp: make_response_def file_response_def write_text_def Let_def response_body_def prepare_payload_def split: option.split)
  have t: "transfer_of L (delivered L reused ?sent) = (rs_file ?f)\<lparr>f_sent := None\<rparr>"
    by (rule transfer_of_delivered [OF sent(1) assms(1) rec(1)])
  with sent(2,3) delivered_fields(1) [OF sent(1), of L reused] rec assms(3)
  show "rs_text (crossed L node reused ka ?f) = (case sent of None \<Rightarrow> [] | Some f \<Rightarrow> f)"
    "f_next (rs_file (crossed L node reused ka ?f)) = resumes" "rs_status (crossed L node reused ka ?f) = 200"
    by (auto simp: crossed_def to_response_def body_of_def Let_def text_not_json response_defs status_of_def split: option.split)
qed

lemma share_refused: "share_asked L q = Inl r \<Longrightarrow> 400 \<le> rs_status r \<and> rs_status r < 4294967296"
  by (auto simp: share_asked_def Let_def split: option.splits sum.splits if_splits)

lemma route_file_answers:
  assumes laws: "rocksdb_laws R view contents" and ok: "repo_ok L' view (store sr)" and m: "view (database (store sr)) t = Some m"
    and "sizes_ok L" and few: "finite (dom m)" "card (dom m) < 2 ^ 64" and asked: "share_asked L (rq_query req) = Inr wanted" "0 < s_bytes wanted"
    and run: "route_file L R req t sr = (Inr r, u)" and st: "rs_status (crossed L node reused ka r) = 200"
  shows "file_answer contents m wanted (crossed L node reused ka r)"
proof -
  have small: "rs_status r < 2 ^ 32"
    using run asked(1) by (auto simp: route_file_def method_not_allowed_def table_not_found_def andthen_Inr split: if_splits)
  from crossed_status [OF st this] run asked(1) obtain x v where
    x: "export_records R t wanted (store sr) = (Inr x, v)" and
    r: "r = file_response (x_file x) (x_records x) (if x_has_more x then base64_encode (x_last x) else [])"
    by (auto simp: route_file_def method_not_allowed_def table_not_found_def andthen_Inr on_store_def split: if_splits prod.splits)
  have ex: "exported contents m wanted x" using export_records_exported [OF laws ok m asked(2) x] by simp
  then obtain kvs where kvs: "case x_file x of None \<Rightarrow> kvs = [] | Some f \<Rightarrow> f \<noteq> [] \<and> contents f = kvs"
    "x_records x = length kvs" "file_of m wanted kvs (x_has_more x) (x_last x)" by (auto simp: exported_def)
  have "set (map fst kvs) \<subseteq> dom m" "distinct (map fst kvs)"
    using kvs(3) ascending_distinct [of kvs] by (auto simp: file_of_def)
  then have "length kvs \<le> card (dom m)" by (metis card_mono distinct_card few(1) length_map)
  with kvs few(2) have "x_records x < 2 ^ 64" "x_file x \<noteq> Some []" by auto
  from crossed_file [OF assms(4) this] ex show ?thesis unfolding file_answer_def r by blast
qed

section \<open>The pieces of a walk\<close>

definition entries_in :: "(string \<Rightarrow> entries) \<Rightarrow> string \<Rightarrow> entries" where
  "entries_in contents file = (if file = [] then [] else contents file)"

definition share_records :: "family_view \<Rightarrow> share \<Rightarrow> (string \<times> string) set" where
  "share_records m wanted = {(k, carried_value wanted v) | k v. m k = Some v \<and> in_share wanted k}"

text \<open>
  What a piece has brought, in the files \<open>fs\<close>: records of its share alone, and every one of them that the next
  request of the piece does not ask for.
\<close>

definition entries_of :: "(string \<Rightarrow> entries) \<Rightarrow> string list \<Rightarrow> (string \<times> string) set" where
  "entries_of contents fs = (\<Union>f \<in> set fs. set (entries_in contents f))"

lemma entries_of_simps [simp]:
  "entries_of contents [] = {}" "entries_of contents (fs @ gs) = entries_of contents fs \<union> entries_of contents gs"
  "entries_of contents (f # fs) = set (entries_in contents f) \<union> entries_of contents fs"
  by (auto simp: entries_of_def)

definition piece_brings :: "(string \<Rightarrow> entries) \<Rightarrow> family_view \<Rightarrow> transfer_share \<Rightarrow> nat \<Rightarrow> piece \<Rightarrow> piece \<Rightarrow> string list \<Rightarrow> bool" where
  "piece_brings contents m wanted bytes p0 p fs \<longleftrightarrow>
     list_all (ascending \<circ> entries_in contents) fs \<and>
     share_records m (share_of_piece wanted bytes p) \<subseteq> share_records m (share_of_piece wanted bytes p0) \<and>
     entries_of contents fs \<subseteq> share_records m (share_of_piece wanted bytes p0) \<and>
     (if pc_whole p
      then \<not> pc_going p \<and> share_records m (share_of_piece wanted bytes p0) \<subseteq> entries_of contents fs
      else share_records m (share_of_piece wanted bytes p0) \<subseteq> share_records m (share_of_piece wanted bytes p) \<union> entries_of contents fs)"

lemma prefix_named: "in_share wanted k \<Longrightarrow> k \<noteq> []"
  by (auto simp: in_share_def within_def partition_prefix_def)

lemma share_of_piece_fields [simp]:
  "s_partitions (share_of_piece wanted bytes p) = ts_partitions wanted" "s_values (share_of_piece wanted bytes p) = ts_values wanted"
  by (simp_all add: share_of_piece_def)

definition carried_in :: "transfer_share \<Rightarrow> string \<Rightarrow> string" where
  "carried_in wanted v = (if ts_values wanted then v else take (min (length v) version_size) v)"

lemma carried_share [simp]: "carried_value (share_of_piece wanted bytes p) = carried_in wanted"
  by (simp add: carried_value_def carried_in_def fun_eq_iff)

lemma marks_stay [simp]:
  "share_of_piece wanted bytes (p\<lparr>pc_going := b\<rparr>) = share_of_piece wanted bytes p"
  "share_of_piece wanted bytes (p\<lparr>pc_whole := b\<rparr>) = share_of_piece wanted bytes p"
  "share_of_piece wanted bytes (p\<lparr>pc_refused := b\<rparr>) = share_of_piece wanted bytes p"
  by (simp_all add: share_of_piece_def)

lemma in_share_piece:
  "in_share (share_of_piece wanted bytes p) k =
     ((\<exists>part < partition_count. has (ts_partitions wanted) part \<and> within part k) \<and>
      (pc_has_from p \<and> pc_from p \<noteq> [] \<longrightarrow> pc_from p < k) \<and> (pc_has_to p \<and> pc_to p \<noteq> [] \<longrightarrow> k \<le> pc_to p))"
  by (auto simp: in_share_def in_bounds_def share_of_piece_def)

lemma file_of_records:
  "file_of m wanted kvs goes_on last_key \<Longrightarrow>
     set kvs = {(k, c) \<in> share_records m wanted. goes_on \<longrightarrow> k \<le> last_key}"
  by (auto simp: file_of_def share_records_def)

text \<open>What a file of the share does to its piece: the piece is whole, or it goes on behind the last record of the file.\<close>

lemma carry_file:
  assumes "rs_status a = 200" and "file_answer contents m (share_of_piece wanted bytes p) a"
  obtains (whole) kvs where "entries_in contents (rs_text a) = kvs" "ascending kvs"
      "carry p a = (p\<lparr>pc_going := False, pc_whole := True\<rparr>, [rs_text a])"
      "set kvs = share_records m (share_of_piece wanted bytes p)"
  | (goes_on) kvs at where "entries_in contents (rs_text a) = kvs" "ascending kvs"
      "carry p a = (p\<lparr>pc_from := at, pc_has_from := True\<rparr>, [rs_text a])"
      "set kvs = {(k, c) \<in> share_records m (share_of_piece wanted bytes p). k \<le> at}"
      "at \<in> fst ` share_records m (share_of_piece wanted bytes p)"
      "share_records m (share_of_piece wanted bytes (p\<lparr>pc_from := at, pc_has_from := True\<rparr>)) =
         {(k, c) \<in> share_records m (share_of_piece wanted bytes p). at < k}"
proof -
  let ?S = "share_of_piece wanted bytes"
  let ?A = "share_records m (?S p)"
  from assms(2) obtain x :: extract_t and kvs where x: "rs_text a = (case x_file x of None \<Rightarrow> [] | Some f \<Rightarrow> f)"
    "f_next (rs_file a) = (if x_has_more x then base64_encode (x_last x) else [])"
    "case x_file x of None \<Rightarrow> kvs = [] | Some f \<Rightarrow> f \<noteq> [] \<and> contents f = kvs"
    and kvs: "file_of m (?S p) kvs (x_has_more x) (x_last x)"
    unfolding file_answer_def exported_def by blast
  from x(1,3) have e: "entries_in contents (rs_text a) = kvs" by (auto simp: entries_in_def split: option.splits)
  note set_kvs = file_of_records [OF kvs]
  have asc: "ascending kvs" using kvs by (simp add: file_of_def)
  show thesis
  proof (cases "x_has_more x")
    case False
    with x(2) assms(1) set_kvs show thesis by (intro whole [OF e asc]) (auto simp: carry_def)
  next
    case more: True
    with kvs have "kvs \<noteq> []" "x_last x = fst (last kvs)" by (auto simp: file_of_def)
    with set_kvs have at: "x_last x \<in> fst ` ?A" using last_in_set [of kvs] by (auto simp del: last_in_set)
    then have named: "in_share (?S p) (x_last x)" by (auto simp: share_records_def)
    have next_named: "f_next (rs_file a) \<noteq> []" "base64_decode (f_next (rs_file a)) = Some (x_last x)"
      using x(2) more prefix_named [OF named] by (simp_all add: base64_encode_Nil)
    have "\<not> (pc_has_from p \<and> x_last x = pc_from p)"
      using named prefix_named [OF named] by (auto simp: in_share_piece)
    then have c: "carry p a = (p\<lparr>pc_from := x_last x, pc_has_from := True\<rparr>, [rs_text a])"
      using assms(1) next_named by (auto simp: carry_def)
    have "in_share (?S (p\<lparr>pc_from := x_last x, pc_has_from := True\<rparr>)) k \<longleftrightarrow> in_share (?S p) k \<and> x_last x < k" for k
      using named prefix_named [OF named] by (auto simp: in_share_piece)
    then have "share_records m (?S (p\<lparr>pc_from := x_last x, pc_has_from := True\<rparr>)) = {(k, c) \<in> ?A. x_last x < k}"
      unfolding share_records_def by auto
    with set_kvs more show thesis by (intro goes_on [OF e asc c _ at]) simp_all
  qed
qed

lemma carry_brings:
  assumes brings: "piece_brings contents m wanted bytes p0 p fs" and going: "pc_going p"
    and answer: "rs_status a = 200 \<Longrightarrow> file_answer contents m (share_of_piece wanted bytes p) a"
  shows "piece_brings contents m wanted bytes p0 (fst (carry p a)) (fs @ snd (carry p a))"
proof (cases "rs_status a = 200")
  case False
  then show ?thesis using brings going
    by (auto simp: carry_def piece_brings_def split: if_splits)
next
  case True
  let ?S = "share_of_piece wanted bytes"
  let ?A = "share_records m (?S p)" and ?B = "share_records m (?S p0)"
  have w: "\<not> pc_whole p" using brings going by (auto simp: piece_brings_def split: if_splits)
  have b: "list_all (ascending \<circ> entries_in contents) fs" "?A \<subseteq> ?B" "entries_of contents fs \<subseteq> ?B"
    "?B \<subseteq> ?A \<union> entries_of contents fs"
    using brings w by (simp_all add: piece_brings_def)
  from True answer [OF True] show ?thesis
  proof (cases rule: carry_file)
    case (whole kvs)
    with b have "?B \<subseteq> entries_of contents fs \<union> set kvs" "set kvs \<subseteq> ?B" by auto
    then show ?thesis unfolding whole(3) piece_brings_def using b whole(1,2) by simp
  next
    case (goes_on kvs at)
    let ?p = "p\<lparr>pc_from := at, pc_has_from := True\<rparr>"
    have "?A = share_records m (?S ?p) \<union> set kvs" using goes_on(4,6) by (auto simp: not_less)
    with b have "share_records m (?S ?p) \<subseteq> ?B" "set kvs \<subseteq> ?B"
      "?B \<subseteq> share_records m (?S ?p) \<union> (entries_of contents fs \<union> set kvs)" by blast+
    then show ?thesis unfolding goes_on(3) piece_brings_def using b goes_on(1,2) w by simp
  qed
qed

text \<open>Every answer leaves its piece at an end or with fewer records to ask for.\<close>

lemma share_records_finite: "finite (dom m) \<Longrightarrow> finite (share_records m wanted) \<and> card (share_records m wanted) \<le> card (dom m)"
proof -
  assume few: "finite (dom m)"
  have "share_records m wanted \<subseteq> (\<lambda>k. (k, carried_value wanted (the (m k)))) ` dom m"
    by (force simp: share_records_def)
  with few show ?thesis by (meson card_image_le card_mono finite_imageI finite_subset le_trans)
qed

lemma carry_shrinks:
  assumes "finite (dom m)" and "rs_status a = 200 \<Longrightarrow> file_answer contents m (share_of_piece wanted bytes p) a"
    and "pc_going (fst (carry p a))"
  shows "card (share_records m (share_of_piece wanted bytes (fst (carry p a)))) < card (share_records m (share_of_piece wanted bytes p))"
proof (cases "rs_status a = 200")
  case True
  from True assms(2) [OF True] show ?thesis
  proof (cases rule: carry_file)
    case (goes_on kvs at)
    let ?A = "share_records m (share_of_piece wanted bytes p)"
    obtain c where c: "(at, c) \<in> ?A" using goes_on(5) by auto
    then have "{(k, c) \<in> ?A. at < k} \<noteq> ?A" by (auto simp: set_eq_iff)
    then have "{(k, c) \<in> ?A. at < k} \<subset> ?A" by (intro psubsetI) auto
    with share_records_finite [OF assms(1)] show ?thesis by (simp add: goes_on(3,6) psubset_card_mono)
  qed (use assms(3) in simp)
qed (use assms(3) in \<open>simp add: carry_def\<close>)

end
