(* ===== verification/Whole_Share.thy ===== *)
theory Whole_Share
  imports Walk_Share
begin

text \<open>
  A share fetched whole (\<^verbatim>\<open>fetch_from\<close> of \<^verbatim>\<open>src/reconcile/reconcile.cpp\<close> over \<^verbatim>\<open>src/transfer/transfer.cpp\<close>): every
  round of a walk keeps what its pieces have brought, the pieces cover the share between them, and the files are
  taken in whatever the order of the takers.
\<close>

section \<open>The rounds\<close>

definition walk_brings :: "(string \<Rightarrow> entries) \<Rightarrow> family_view \<Rightarrow> transfer_share \<Rightarrow> nat \<Rightarrow> piece list \<Rightarrow> walking \<Rightarrow> bool" where
  "walk_brings contents m wanted bytes ps k \<longleftrightarrow>
     length (wk_pieces k) = length ps \<and> length (wk_files k) = length ps \<and>
     (\<forall>i < length ps. piece_brings contents m wanted bytes (ps ! i) (wk_pieces k ! i) (wk_files k ! i))"

lemma walk_brings_waiting [simp]:
  "walk_brings contents m wanted bytes ps (k\<lparr>wk_waiting := x\<rparr>) = walk_brings contents m wanted bytes ps k"
  by (simp add: walk_brings_def)

lemma carry_to_brings:
  assumes "walk_brings contents m wanted bytes ps k" and "i < length ps" and "pc_going (wk_pieces k ! i)"
    and "rs_status a = 200 \<Longrightarrow> file_answer contents m (share_of_piece wanted bytes (wk_pieces k ! i)) a"
  shows "walk_brings contents m wanted bytes ps (carry_to i a k)"
    and "j \<noteq> i \<Longrightarrow> wk_pieces (carry_to i a k) ! j = wk_pieces k ! j"
  using assms carry_brings [of contents m wanted bytes "ps ! i" "wk_pieces k ! i" "wk_files k ! i" a]
  by (auto simp: walk_brings_def carry_to_def nth_list_update case_prod_unfold Let_def)

lemma carry_all_brings:
  assumes "walk_brings contents m wanted bytes ps k" and "distinct asked"
    and "list_all2 (\<lambda>i a. i < length ps \<and> pc_going (wk_pieces k ! i) \<and>
      (rs_status a = 200 \<longrightarrow> file_answer contents m (share_of_piece wanted bytes (wk_pieces k ! i)) a)) asked answers"
  shows "walk_brings contents m wanted bytes ps (fold (\<lambda>(i, a). carry_to i a) (zip asked answers) k)"
  using assms(3,1,2)
proof (induction asked arbitrary: answers k)
  case (Cons i asked)
  then obtain a rest where as: "answers = a # rest" by (cases answers) auto
  note step = carry_to_brings [of contents m wanted bytes ps k i a]
  have same: "wk_pieces (carry_to i a k) ! j = wk_pieces k ! j" if "j \<in> set asked" for j
    using Cons.prems step(2) [of j] that by (auto simp: as)
  have "list_all2 (\<lambda>i b. i < length ps \<and> pc_going (wk_pieces (carry_to i' a k) ! i) \<and>
      (rs_status b = 200 \<longrightarrow> file_answer contents m (share_of_piece wanted bytes (wk_pieces (carry_to i' a k) ! i)) b))
      asked rest" if "i' = i" for i'
  proof (rule list.rel_mono_strong)
    show "list_all2 (\<lambda>i b. i < length ps \<and> pc_going (wk_pieces k ! i) \<and>
      (rs_status b = 200 \<longrightarrow> file_answer contents m (share_of_piece wanted bytes (wk_pieces k ! i)) b)) asked rest"
      using Cons.prems(1) by (simp add: as)
  qed (use same that in auto)
  with Cons.IH [of "carry_to i a k" rest] Cons.prems step(1) show ?case by (simp add: as)
qed simp

text \<open>
  A node that has a table as \<open>m\<close> and answers every request for a file of it, however often it is asked: what it
  sends with a status of 200 is what \<open>route_file\<close> answers on a store of its own.
\<close>

definition share_sent :: "libs \<Rightarrow> 'db rocksdb \<Rightarrow> ('db \<Rightarrow> store_view) \<Rightarrow> string \<Rightarrow> family_view \<Rightarrow> request \<Rightarrow> http_response \<Rightarrow> bool" where
  "share_sent L R view t m req a \<longleftrightarrow>
     (\<exists>(sr :: ('db, unit) router) L' r u reused ka.
        repo_ok L' view (store sr) \<and> view (database (store sr)) t = Some m \<and>
        route_file L R (req\<lparr>rq_forwarded := True\<rparr>) t sr = (Inr r, u) \<and>
        a = delivered L reused (make_response L None ka r False))"

definition sends_shares :: "libs \<Rightarrow> 'db rocksdb \<Rightarrow> ('db \<Rightarrow> store_view) \<Rightarrow> 'w net \<Rightarrow> string \<Rightarrow> string \<Rightarrow> family_view \<Rightarrow> bool" where
  "sends_shares L R view N node t m \<longleftrightarrow>
     (\<forall>qs timeout w. list_all2 (\<lambda>q answer. \<forall>req a.
        q = forwarded_to L node req \<and> rq_method req = Verb_get \<and> rq_path req = [''table'', t, ''file''] \<and> answer = Inr a \<and>
        status_of (a_status a) = 200 \<longrightarrow> share_sent L R view t m req a) qs (fst (net_send_all N qs timeout w)))"

lemma to_response_ok: "rs_status (to_response L node answer head) = 200 \<Longrightarrow> \<exists>a. answer = Inr a \<and> status_of (a_status a) = 200"
  by (auto simp: to_response_def body_of_def Let_def error_response_def response_defs split: sum.splits if_splits option.splits)

lemma file_request_fields:
  "rq_path (file_request L wanted p bytes) = [''table'', ts_table wanted, ''file'']"
  "rq_method (file_request L wanted p bytes) = Verb_get"
  by (simp_all add: file_request_def get_request_def)

lemma ask_round_answers:
  fixes R :: "'db rocksdb" and N :: "'w net"
  assumes laws: "rocksdb_laws R view contents" and libs: "sizes_ok L" "escapes L" "plain_stays L"
    and peer: "sends_shares L R view N (ts_node wanted) (ts_table wanted) m"
    and few: "finite (dom m)" "card (dom m) < 2 ^ 64" and bytes: "0 < bytes" "bytes < 2 ^ 64"
    and asked: "\<And>i. i \<in> set asked \<Longrightarrow> i < n \<and> pc_going (wk_pieces k ! i)"
  obtains answers where "list_all2 (\<lambda>i a. i < n \<and> pc_going (wk_pieces k ! i) \<and>
      (rs_status a = 200 \<longrightarrow> file_answer contents m (share_of_piece wanted bytes (wk_pieces k ! i)) a)) asked answers"
    and "wk_pieces (fst (ask_round L N wanted bytes asked k w)) = wk_pieces (fold (\<lambda>(i, a). carry_to i a) (zip asked answers) k)"
    and "wk_files (fst (ask_round L N wanted bytes asked k w)) = wk_files (fold (\<lambda>(i, a). carry_to i a) (zip asked answers) k)"
proof -
  let ?req = "\<lambda>i. file_request L wanted (wk_pieces k ! i) bytes"
  let ?qs = "map (\<lambda>i. forwarded_to L (ts_node wanted) (?req i)) asked"
  let ?sent = "fst (net_send_all N ?qs forward_timeout w)"
  have all: "list_all2 (\<lambda>q answer. \<forall>req a.
        q = forwarded_to L (ts_node wanted) req \<and> rq_method req = Verb_get \<and> rq_path req = [''table'', ts_table wanted, ''file''] \<and> answer = Inr a \<and>
        status_of (a_status a) = 200 \<longrightarrow> share_sent L R view (ts_table wanted) m req a) ?qs ?sent"
    using peer unfolding sends_shares_def by blast
  then have len: "length ?sent = length asked" by (auto dest: list_all2_lengthD)
  have one: "file_answer contents m (share_of_piece wanted bytes (wk_pieces k ! i)) (to_response L (ts_node wanted) answer False)"
    if j: "j < length asked" "i = asked ! j" "answer = ?sent ! j" and st: "rs_status (to_response L (ts_node wanted) answer False) = 200"
    for i j answer
  proof -
    from to_response_ok [OF st] obtain a where a: "answer = Inr a" "status_of (a_status a) = 200" by blast
    with list_all2_nthD2 [OF all, of j] j len file_request_fields
    have "share_sent L R view (ts_table wanted) m (?req i) a" by auto
    then obtain sr :: "('db, unit) router" and L' r u reused ka where p: "repo_ok L' view (store sr)"
        "view (database (store sr)) (ts_table wanted) = Some m"
        "route_file L R ((?req i)\<lparr>rq_forwarded := True\<rparr>) (ts_table wanted) sr = (Inr r, u)"
        "a = delivered L reused (make_response L None ka r False)"
      unfolding share_sent_def by blast
    have asks: "share_asked L (rq_query ((?req i)\<lparr>rq_forwarded := True\<rparr>)) = Inr (share_of_piece wanted bytes (wk_pieces k ! i))"
      using share_asked_file_request [OF libs(2,3,1) bytes] by simp
    have "0 < s_bytes (share_of_piece wanted bytes (wk_pieces k ! i))"
      using bytes by (simp add: share_of_piece_def max_file_bytes_def)
    from route_file_answers [OF laws p(1,2) libs(1) few asks this p(3), of "ts_node wanted" reused ka] st p(4) a(1)
    show ?thesis by (simp add: crossed_def)
  qed
  let ?answers = "map (\<lambda>(e, answer). to_response L (en_node e) answer (is_head (en_request e)))
      (zip (map (\<lambda>i. \<lparr>en_node = ts_node wanted, en_request = ?req i\<rparr>) asked) ?sent)"
  show thesis
  proof (rule that [of ?answers])
    show "list_all2 (\<lambda>i a. i < n \<and> pc_going (wk_pieces k ! i) \<and>
      (rs_status a = 200 \<longrightarrow> file_answer contents m (share_of_piece wanted bytes (wk_pieces k ! i)) a)) asked ?answers"
      using one asked len by (auto simp: list_all2_conv_all_nth is_head_def file_request_fields)
  qed (simp_all add: ask_round_def forward_each_def case_prod_unfold Let_def comp_def)
qed

text \<open>What a round does to every piece: one that was asked for carries its answer, the others are as they were.\<close>

lemma carried_pieces:
  assumes "distinct asked" and "list_all2 (\<lambda>i a. P i a) asked answers" and "\<forall>i \<in> set asked. i < length (wk_pieces k)"
  shows "length (wk_pieces (fold (\<lambda>(i, a). carry_to i a) (zip asked answers) k)) = length (wk_pieces k) \<and>
    (\<forall>i. (i \<notin> set asked \<longrightarrow> wk_pieces (fold (\<lambda>(i, a). carry_to i a) (zip asked answers) k) ! i = wk_pieces k ! i) \<and>
      (i \<in> set asked \<longrightarrow> (\<exists>a. P i a \<and>
         wk_pieces (fold (\<lambda>(i, a). carry_to i a) (zip asked answers) k) ! i = fst (carry (wk_pieces k ! i) a))))"
  using assms(2,1,3)
proof (induction arbitrary: k rule: list_all2_induct)
  case (Cons i asked a answers)
  have here: "length (wk_pieces (carry_to i a k)) = length (wk_pieces k)" "wk_pieces (carry_to i a k) ! i = fst (carry (wk_pieces k ! i) a)"
    using Cons.prems by (simp_all add: carry_to_def case_prod_unfold Let_def)
  have "wk_pieces (carry_to i a k) ! j = wk_pieces k ! j" if "j \<noteq> i" for j
    using that by (simp add: carry_to_def case_prod_unfold Let_def)
  moreover have rest: "distinct asked" "\<forall>j \<in> set asked. j < length (wk_pieces (carry_to i a k))" "i \<notin> set asked"
    using Cons.prems here by simp_all
  moreover note Cons.IH [OF rest(1,2)]
  ultimately show ?case using here Cons.hyps(1) by (auto simp del: fold_simps) (metis | blast)+
qed simp

lemma ask_rounds_brings:
  fixes R :: "'db rocksdb" and N :: "'w net"
  assumes laws: "rocksdb_laws R view contents" and libs: "sizes_ok L" "escapes L" "plain_stays L"
    and peer: "sends_shares L R view N (ts_node wanted) (ts_table wanted) m"
    and few: "finite (dom m)" "card (dom m) < 2 ^ 64" and bytes: "0 < bytes" "bytes < 2 ^ 64"
    and "walk_brings contents m wanted bytes ps k" and "ask_rounds fuel L N stop_requested wanted bytes k w = Some (k', w')"
  shows "walk_brings contents m wanted bytes ps k'"
  using assms(10,11)
proof (induction fuel arbitrary: k w)
  case (Suc fuel)
  have going: "distinct (still_going k)" "\<And>i. i \<in> set (still_going k) \<Longrightarrow> i < length ps \<and> pc_going (wk_pieces k ! i)"
    using Suc.prems(1) by (auto simp: still_going_def walk_brings_def)
  from going(2) obtain answers where answers: "list_all2 (\<lambda>i a. i < length ps \<and> pc_going (wk_pieces k ! i) \<and>
      (rs_status a = 200 \<longrightarrow> file_answer contents m (share_of_piece wanted bytes (wk_pieces k ! i)) a)) (still_going k) answers"
    "wk_pieces (fst (ask_round L N wanted bytes (still_going k) k w)) = wk_pieces (fold (\<lambda>(i, a). carry_to i a) (zip (still_going k) answers) k)"
    "wk_files (fst (ask_round L N wanted bytes (still_going k) k w)) = wk_files (fold (\<lambda>(i, a). carry_to i a) (zip (still_going k) answers) k)"
    by (rule ask_round_answers [OF assms(1-9)])
  from carry_all_brings [OF Suc.prems(1) going(1) answers(1)] answers(2,3)
  have "walk_brings contents m wanted bytes ps (fst (ask_round L N wanted bytes (still_going k) k w))"
    by (simp add: walk_brings_def)
  with Suc show ?case by (auto simp: case_prod_unfold Let_def split: if_splits)
qed simp

section \<open>The end of a walk\<close>

text \<open>What is left of a piece goes down with every answer that does not end it, so a walk ends.\<close>

lemma ask_rounds_end:
  fixes R :: "'db rocksdb" and N :: "'w net"
  assumes laws: "rocksdb_laws R view contents" and libs: "sizes_ok L" "escapes L" "plain_stays L"
    and peer: "sends_shares L R view N (ts_node wanted) (ts_table wanted) m"
    and few: "finite (dom m)" "card (dom m) < 2 ^ 64" and bytes: "0 < bytes" "bytes < 2 ^ 64"
    and "\<forall>i < length (wk_pieces k). pc_going (wk_pieces k ! i) \<longrightarrow>
      card (share_records m (share_of_piece wanted bytes (wk_pieces k ! i))) < n"
    and "n < fuel"
  shows "ask_rounds fuel L N stop_requested wanted bytes k w \<noteq> None"
  using assms(10,11)
proof (induction n arbitrary: k w fuel)
  case 0
  then have "still_going k = []" by (simp add: still_going_def)
  with 0 show ?case by (cases fuel) auto
next
  case (Suc n)
  from Suc.prems(2) obtain fuel' where fuel: "fuel = Suc fuel'" "n < fuel'" by (cases fuel) auto
  let ?going = "still_going k"
  obtain k' w' where round: "ask_round L N wanted bytes ?going k w = (k', w')" by fastforce
  have going: "distinct ?going" "\<And>i. i \<in> set ?going \<longleftrightarrow> i < length (wk_pieces k) \<and> pc_going (wk_pieces k ! i)"
    by (auto simp: still_going_def)
  obtain answers where answers: "list_all2 (\<lambda>i a. i < length (wk_pieces k) \<and> pc_going (wk_pieces k ! i) \<and>
      (rs_status a = 200 \<longrightarrow> file_answer contents m (share_of_piece wanted bytes (wk_pieces k ! i)) a)) ?going answers"
    and k': "wk_pieces k' = wk_pieces (fold (\<lambda>(i, a). carry_to i a) (zip ?going answers) k)"
    by (rule ask_round_answers [OF assms(1-9), of ?going "length (wk_pieces k)" k w]) (use going(2) round in auto)
  have inside: "\<forall>i \<in> set ?going. i < length (wk_pieces k)" using going(2) by blast
  note pieces = carried_pieces [OF going(1) answers inside, folded k']
  have "card (share_records m (share_of_piece wanted bytes (wk_pieces k' ! i))) < n"
    if i: "i < length (wk_pieces k')" "pc_going (wk_pieces k' ! i)" for i
  proof (cases "i \<in> set ?going")
    case True
    with pieces obtain a where a: "rs_status a = 200 \<longrightarrow> file_answer contents m (share_of_piece wanted bytes (wk_pieces k ! i)) a"
        "wk_pieces k' ! i = fst (carry (wk_pieces k ! i) a)" by blast
    with carry_shrinks [OF few(1), of a contents wanted bytes "wk_pieces k ! i"] i(2)
    have "card (share_records m (share_of_piece wanted bytes (wk_pieces k' ! i))) <
        card (share_records m (share_of_piece wanted bytes (wk_pieces k ! i)))" by simp
    with Suc.prems(1) True going(2) [of i] show ?thesis by auto
  next
    case False
    with pieces i have "wk_pieces k' ! i = wk_pieces k ! i" "i < length (wk_pieces k)" by simp_all
    with False i(2) going(2) [of i] show ?thesis by simp
  qed
  with Suc.IH [OF _ fuel(2), of k' w'] show ?case by (simp add: fuel(1) round)
qed

section \<open>The pieces cover the share\<close>

lemma pieces_of_nth:
  "i < length (pieces_of points) \<Longrightarrow> pieces_of points ! i =
     \<lparr>pc_from = (if i > 0 then points ! (i - 1) else []), pc_has_from = (i > 0),
      pc_to = (if i < length points then points ! i else []), pc_has_to = (i < length points), pc_going = True,
      pc_whole = False, pc_refused = False\<rparr>"
  by (simp add: pieces_of_def new_piece_def Let_def nth_append del: upt_Suc)

lemma length_pieces_of: "length (pieces_of points) = length points + 1"
  by (simp add: pieces_of_def)

text \<open>A key is in the piece of the first point that does not come before it, whatever the points are.\<close>

lemma pieces_cover:
  assumes "in_share (share_of_piece wanted bytes new_piece) k"
  shows "\<exists>i < length (pieces_of points). in_share (share_of_piece wanted bytes (pieces_of points ! i)) k"
proof -
  let ?stops = "\<lambda>i. i = length points \<or> points ! i = [] \<or> k \<le> points ! i"
  define i where "i = (LEAST i. ?stops i)"
  have stops: "?stops i" unfolding i_def by (rule LeastI [of ?stops "length points"]) simp
  have le: "i \<le> length points" unfolding i_def by (rule Least_le) simp
  have before: "\<not> ?stops j" if "j < i" for j using not_less_Least [of j ?stops] that unfolding i_def by blast
  have "k \<noteq> []" using assms by (rule prefix_named)
  moreover have "points ! (i - 1) < k" if "i > 0" using before [of "i - 1"] that by auto
  ultimately have "in_share (share_of_piece wanted bytes (pieces_of points ! i)) k"
    using assms stops le by (auto simp: in_share_piece pieces_of_nth new_piece_def length_pieces_of)
  with le show ?thesis by (auto simp: length_pieces_of intro!: exI [of _ i])
qed

lemma walk_starts:
  "walk_brings contents m wanted bytes (pieces_of points)
     \<lparr>wk_pieces = pieces_of points, wk_files = replicate (length (pieces_of points)) [], wk_waiting = waiting\<rparr>"
  by (simp add: walk_brings_def piece_brings_def pieces_of_nth)

definition whole_share :: "family_view \<Rightarrow> transfer_share \<Rightarrow> (string \<times> string) set" where
  "whole_share m wanted = share_records m (share_of_piece wanted 0 new_piece)"

lemma share_records_piece: "share_records m (share_of_piece wanted bytes p) \<subseteq> whole_share m wanted"
  by (auto simp: whole_share_def share_records_def in_share_piece new_piece_def)

lemma piece_bringsD:
  assumes "piece_brings contents m wanted bytes p0 p fs"
  shows "list_all (ascending \<circ> entries_in contents) fs"
    and "entries_of contents fs \<subseteq> share_records m (share_of_piece wanted bytes p0)"
    and "pc_whole p \<Longrightarrow> share_records m (share_of_piece wanted bytes p0) \<subseteq> entries_of contents fs"
  using assms by (simp_all add: piece_brings_def)

lemma list_all_concat: "list_all P (concat fss) = list_all (list_all P) fss"
  by (induction fss) simp_all

lemma walk_brings_all:
  assumes "walk_brings contents m wanted bytes (pieces_of points) k"
  shows "entries_of contents (concat (wk_files k)) \<subseteq> whole_share m wanted"
    and "list_all (ascending \<circ> entries_in contents) (concat (wk_files k))"
    and "list_all pc_whole (wk_pieces k) \<Longrightarrow> whole_share m wanted \<subseteq> entries_of contents (concat (wk_files k))"
proof -
  let ?n = "length (pieces_of points)"
  have len: "length (wk_pieces k) = ?n" "length (wk_files k) = ?n"
    using assms by (simp_all add: walk_brings_def)
  have each: "piece_brings contents m wanted bytes (pieces_of points ! i) (wk_pieces k ! i) (wk_files k ! i)" if "i < ?n" for i
    using assms that by (simp add: walk_brings_def)
  have "set (wk_files k) = (!) (wk_files k) ` {..<?n}" using len by (auto simp: set_conv_nth)
  then have all: "entries_of contents (concat (wk_files k)) = (\<Union>i < ?n. entries_of contents (wk_files k ! i))"
    by (simp add: entries_of_def)
  show "entries_of contents (concat (wk_files k)) \<subseteq> whole_share m wanted"
    unfolding all using piece_bringsD(2) [OF each] share_records_piece by blast
  show "list_all (ascending \<circ> entries_in contents) (concat (wk_files k))"
    using piece_bringsD(1) [OF each] len by (simp add: list_all_concat list_all_length [of "list_all _"])
  assume whole: "list_all pc_whole (wk_pieces k)"
  show "whole_share m wanted \<subseteq> entries_of contents (concat (wk_files k))"
  proof
    fix x assume "x \<in> whole_share m wanted"
    then obtain key v where x: "x = (key, carried_in wanted v)" "m key = Some v" "in_share (share_of_piece wanted 0 new_piece) key"
      by (auto simp: whole_share_def share_records_def)
    from x(3) have "in_share (share_of_piece wanted bytes new_piece) key" by (simp add: in_share_piece new_piece_def)
    from pieces_cover [OF this, of points] obtain i where i: "i < ?n" "in_share (share_of_piece wanted bytes (pieces_of points ! i)) key"
      by blast
    have "x \<in> share_records m (share_of_piece wanted bytes (pieces_of points ! i))" using x i(2) by (auto simp: share_records_def)
    moreover have "pc_whole (wk_pieces k ! i)" using whole len i by (simp add: list_all_length)
    ultimately have "x \<in> entries_of contents (wk_files k ! i)" using piece_bringsD(3) [OF each [OF i(1)]] by blast
    with i show "x \<in> entries_of contents (concat (wk_files k))" by (auto simp: all)
  qed
qed

section \<open>Taking the files in\<close>

lemma set_interleave: "set (interleave schedule queues) = set (concat queues)"
proof (induction schedule arbitrary: queues)
  case (Cons i schedule)
  show ?case
  proof (cases "i < length queues \<and> queues ! i \<noteq> []")
    case True
    then have i: "i < length queues" and q: "queues ! i = hd (queues ! i) # tl (queues ! i)" by auto
    define q rest before after where d: "q = hd (queues ! i)" "rest = tl (queues ! i)" "before = take i queues" "after = drop (Suc i) queues"
    have "queues = before @ (q # rest) # after"
      using id_take_nth_drop [OF i] q unfolding d by simp
    moreover have "queues[i := rest] = before @ rest # after"
      using i by (simp add: d upd_conv_take_nth_drop)
    ultimately have "set (concat (queues[i := tl (queues ! i)])) \<union> {hd (queues ! i)} = set (concat queues)"
      by (simp add: d [symmetric] del: concat_append) (auto simp: d)
    with True Cons show ?thesis by auto
  qed (use Cons in auto)
qed simp

lemma take_in_brings:
  assumes step: "\<And>f s r s'. f \<in> set files \<Longrightarrow> I s \<Longrightarrow> taking f s = (r, s') \<Longrightarrow> I s' \<and> (\<forall>n. r = Inr n \<longrightarrow> brought f s')"
    and stays: "\<And>f g s r s'. f \<in> set files \<Longrightarrow> g \<in> set files \<Longrightarrow> I s \<Longrightarrow> brought g s \<Longrightarrow> taking f s = (r, s') \<Longrightarrow> brought g s'"
    and "I s" and "take_in taking todo failed n s = ((failed', n'), s')" and "set todo \<subseteq> set files"
    and "\<And>f. f \<in> set files - set todo \<Longrightarrow> \<not> failed \<Longrightarrow> brought f s"
  shows "I s' \<and> (\<not> failed' \<longrightarrow> \<not> failed \<and> (\<forall>f \<in> set files. brought f s'))"
  using assms(3-6)
proof (induction todo arbitrary: failed n s)
  case (Cons f todo)
  show ?case
  proof (cases failed)
    case True
    then show ?thesis using Cons.IH [of s True n] Cons.prems by auto
  next
    case False
    obtain r u where run: "taking f s = (r, u)" by fastforce
    have f: "f \<in> set files" using Cons.prems(3) by simp
    note here = step [OF f Cons.prems(1) run]
    show ?thesis
    proof (cases r)
      case (Inl e)
      then show ?thesis using Cons.IH [of u True n] Cons.prems here run False by auto
    next
      case (Inr a)
      have "brought g u" if "g \<in> set files - set todo" for g
        using that here Inr Cons.prems(4) [of g] False stays [OF f _ Cons.prems(1) _ run, of g] by auto
      then show ?thesis using Cons.IH [of u False "n + a"] Cons.prems here run False Inr by auto
    qed
  qed
qed auto

section \<open>What is held after\<close>

text \<open>No record of the one store is gone from the other, or is there in an earlier version.\<close>

definition rises :: "('db \<Rightarrow> store_view) \<Rightarrow> 'db repo \<Rightarrow> 'db repo \<Rightarrow> bool" where
  "rises view s s' \<longleftrightarrow>
     (\<forall>t key h. stored_at view s t key = Some h \<longrightarrow> (\<exists>h'. stored_at view s' t key = Some h' \<and> \<not> is_newer h h'))"

text \<open>The table has everything a set of entries carries, or later.\<close>

definition holds_all :: "('db \<Rightarrow> store_view) \<Rightarrow> string \<Rightarrow> (string \<times> string) set \<Rightarrow> 'db repo \<Rightarrow> bool" where
  "holds_all view t es s \<longleftrightarrow>
     (\<forall>key v. (store_key key, v) \<in> es \<longrightarrow> (\<exists>h. stored_at view s t key = Some h \<and> \<not> is_newer v h))"

text \<open>Whatever a store has, another had, or a set of entries brought to a table of it.\<close>

definition only_from :: "('db \<Rightarrow> store_view) \<Rightarrow> string \<Rightarrow> (string \<times> string) set \<Rightarrow> 'db repo \<Rightarrow> 'db repo \<Rightarrow> bool" where
  "only_from view t es s s' \<longleftrightarrow>
     (\<forall>t' key x. stored_at view s' t' key = Some x \<longrightarrow> stored_at view s t' key = Some x \<or> t' = t \<and> (store_key key, x) \<in> es)"

lemma not_newer_trans: "\<not> is_newer a b \<Longrightarrow> \<not> is_newer b c \<Longrightarrow> \<not> is_newer a c"
  using stored.newer_split by blast

lemma rises_refl: "rises view s s"
  by (auto simp: rises_def)

lemma rises_trans: "rises view s t \<Longrightarrow> rises view t u \<Longrightarrow> rises view s u"
  unfolding rises_def by (meson not_newer_trans)

lemma holds_all_rises: "holds_all view t es s \<Longrightarrow> rises view s s' \<Longrightarrow> holds_all view t es s'"
  unfolding holds_all_def rises_def by (meson not_newer_trans)

lemma only_from_trans: "only_from view t es s s' \<Longrightarrow> only_from view t es s' s'' \<Longrightarrow> only_from view t es s s''"
  unfolding only_from_def by blast

lemma imported_rises:
  assumes "imported L view t kvs s n s'" and "ascending kvs"
  shows "rises view s s'" and "holds_all view t (set kvs) s'" and "only_from view t (set kvs) s s'"
proof -
  note at = imported_stored_at [OF assms]
  show "rises view s s'"
    unfolding rises_def at using stored.newer_asym by (auto split: option.splits if_splits)
  show "holds_all view t (set kvs) s'"
    unfolding holds_all_def at using ascending_distinct [OF assms(2)] by (auto split: option.splits)
  show "only_from view t (set kvs) s s'"
    unfolding only_from_def at by (auto split: option.splits if_splits dest: map_of_SomeD)
qed

text \<open>What taking and giving up leave alone: the membership, and which tables there are.\<close>

definition same_place :: "('db, 'w) router \<Rightarrow> ('db, 'w) router \<Rightarrow> bool" where
  "same_place s s' \<longleftrightarrow>
     configuration (nodes s') = configuration (nodes s) \<and> member_list (nodes s') = member_list (nodes s) \<and>
     holding (nodes s') = holding (nodes s) \<and> handles (store s') = handles (store s) \<and> tables (store s') = tables (store s)"

lemma same_place_refl: "same_place s s"
  by (simp add: same_place_def)

lemma same_place_trans: "same_place s t \<Longrightarrow> same_place t u \<Longrightarrow> same_place s u"
  by (simp add: same_place_def)

lemma same_place_wire [simp]: "same_place s (with_wire w s)" "store (with_wire w s) = store s"
  by (simp_all add: same_place_def with_wire_def)

lemma restore_terms_members:
  "configuration (restore_terms applied c) = configuration c \<and> member_list (restore_terms applied c) = member_list c \<and>
   holding (restore_terms applied c) = holding c"
proof -
  have "configuration (fold (\<lambda>p s. snd (raise_term p (applied p) s)) ps c) = configuration c \<and>
      member_list (fold (\<lambda>p s. snd (raise_term p (applied p) s)) ps c) = member_list c \<and>
      holding (fold (\<lambda>p s. snd (raise_term p (applied p) s)) ps c) = holding c" for ps
    by (induction ps arbitrary: c) (simp_all add: raise_term_def Let_def)
  then show ?thesis by (simp add: restore_terms_def)
qed

lemma take_records_rises:
  assumes "rocksdb_laws R view contents" and "reads_answer R" and "numbers_ok L" and "guarded L view (store s)"
    and "t \<noteq> default_family" and "ascending (entries_in contents f)" and "take_records R t f s = (r, s')"
  shows "guarded L view (store s') \<and> same_place s s' \<and> rises view (store s) (store s') \<and>
    only_from view t (set (entries_in contents f)) (store s) (store s') \<and>
    (\<forall>n. r = Inr n \<longrightarrow> holds_all view t (set (entries_in contents f)) (store s'))"
proof -
  obtain r' u where run: "import_records R t f (store s) = (r', u)" by fastforce
  with assms(7) have s': "store s' = u" "r = r'"
    and place: "handles u = handles (store s) \<and> tables u = tables (store s) \<longrightarrow> same_place s s'"
    by (auto simp: take_records_def on_store_def andthen_def ret_def same_place_def restore_terms_members split: sum.splits)
  show ?thesis
  proof (cases "f = []")
    case True
    with run s' assms(4) place show ?thesis
      by (auto simp: import_records_def ret_def entries_in_def rises_refl holds_all_def only_from_def)
  next
    case False
    note out = import_records_outcome [OF assms(1-5) False]
    show ?thesis
    proof (cases r')
      case (Inl e)
      then have "unmoved L view (store s) u" using outcomeD(2) [OF out] run by blast
      with Inl s' place show ?thesis
        by (auto simp: unmoved_def rises_def only_from_def stored_at_def)
    next
      case (Inr n)
      then have i: "imported L view t (contents f) (store s) n u" using outcomeD(1) [OF out] run by blast
      with imported_rises [OF i] False assms(6) Inr s' place show ?thesis by (simp add: entries_in_def imported_def)
    qed
  qed
qed

lemma walk_bytes: "0 < max (b div Suc n) 1" "b < 2 ^ 64 \<Longrightarrow> max (b div Suc n) 1 < (2 :: nat) ^ 64"
  by (simp_all add: max_def) (meson div_le_dividend le_less_trans)

text \<open>A walk is the taking in of files of the share, and it is whole only if they are all of it and none failed.\<close>

lemma walk_share_files:
  fixes R :: "'db rocksdb" and N :: "'w net" and s :: "('db, 'w) router"
  assumes laws: "rocksdb_laws R view contents" and libs: "sizes_ok L" "escapes L" "plain_stays L"
    and peer: "sends_shares L R view N (ts_node wanted) (ts_table wanted) m" "finite (dom m)" "card (dom m) < 2 ^ 64"
    and small: "ts_bytes wanted < 2 ^ 64"
    and run: "walk_share fuel schedule L N stop_requested wanted handle_file waiting s = Some (d, s')"
  obtains todo w' failed n where "take_in handle_file todo False 0 (with_wire w' s) = ((failed, n), s')"
    and "\<And>f. f \<in> set todo \<Longrightarrow> ascending (entries_in contents f) \<and> set (entries_in contents f) \<subseteq> whole_share m wanted"
    and "to_whole (wd_outcome d) \<Longrightarrow> \<not> failed \<and> whole_share m wanted \<subseteq> entries_of contents todo"
proof (cases "stop_requested (network (nodes s))")
  case True
  with run that [of "[]" "network (nodes s)" False 0] show thesis by (auto simp: walk_share_def with_wire_def)
next
  case False
  obtain points w where points: "asked_points L N wanted (network (nodes s)) = (points, w)" by fastforce
  let ?ps = "pieces_of points"
  let ?bytes = "max (ts_bytes wanted div length ?ps) 1"
  obtain k w' failed n where rounds: "ask_rounds fuel L N stop_requested wanted ?bytes
        \<lparr>wk_pieces = ?ps, wk_files = replicate (length ?ps) [], wk_waiting = waiting\<rparr> w = Some (k, w')"
    and taking: "take_in handle_file (interleave schedule (wk_files k)) False 0 (with_wire w' s) = ((failed, n), s')"
    and d: "wd_outcome d = ended failed (wk_pieces k)"
    using run False points by (auto simp: walk_share_def Let_def split: option.splits prod.splits)
  have "walk_brings contents m wanted ?bytes ?ps k"
    using ask_rounds_brings [OF laws libs peer _ _ walk_starts rounds] walk_bytes small by (simp add: length_pieces_of)
  note brings = walk_brings_all [OF this]
  show thesis
  proof (rule that [OF taking])
    show "ascending (entries_in contents f) \<and> set (entries_in contents f) \<subseteq> whole_share m wanted"
      if "f \<in> set (interleave schedule (wk_files k))" for f
      using brings(1,2) that by (auto simp: set_interleave list_all_iff entries_of_def)
    show "\<not> failed \<and> whole_share m wanted \<subseteq> entries_of contents (interleave schedule (wk_files k))" if "to_whole (wd_outcome d)"
      using that brings(3) by (simp add: d ended_def entries_of_def set_interleave)
  qed
qed

lemma walk_share_brings:
  fixes R :: "'db rocksdb" and N :: "'w net" and s :: "('db, 'w) router"
  assumes laws: "rocksdb_laws R view contents" "reads_answer R" "numbers_ok L"
    and libs: "sizes_ok L" "escapes L" "plain_stays L"
    and peer: "sends_shares L R view N (ts_node wanted) (ts_table wanted) m" "finite (dom m)" "card (dom m) < 2 ^ 64"
    and here: "guarded L view (store s)" "ts_table wanted \<noteq> default_family" and small: "ts_bytes wanted < 2 ^ 64"
    and run: "walk_share fuel schedule L N stop_requested wanted (take_records R (ts_table wanted)) waiting s = Some (d, s')"
  shows "guarded L view (store s') \<and> same_place s s' \<and> rises view (store s) (store s') \<and>
    only_from view (ts_table wanted) (whole_share m wanted) (store s) (store s') \<and>
    (to_whole (wd_outcome d) \<longrightarrow> holds_all view (ts_table wanted) (whole_share m wanted) (store s'))"
proof -
  let ?t = "ts_table wanted" and ?es = "whole_share m wanted"
  obtain todo w' failed n where taking: "take_in (take_records R ?t) todo False 0 (with_wire w' s) = ((failed, n), s')"
    and each: "\<And>f. f \<in> set todo \<Longrightarrow> ascending (entries_in contents f) \<and> set (entries_in contents f) \<subseteq> ?es"
    and whole: "to_whole (wd_outcome d) \<Longrightarrow> \<not> failed \<and> ?es \<subseteq> entries_of contents todo"
    by (rule walk_share_files [OF laws(1) libs peer small run]) blast
  let ?I = "\<lambda>u. guarded L view (store u) \<and> same_place s u \<and> rises view (store s) (store u) \<and> only_from view ?t ?es (store s) (store u)"
  have step: "?I u' \<and> rises view (store u) (store u') \<and> (\<forall>n. r = Inr n \<longrightarrow> holds_all view ?t (set (entries_in contents f)) (store u'))"
    if "f \<in> set todo" "?I u" "take_records R ?t f u = (r, u')" for f u r u'
  proof -
    have "only_from view ?t (set (entries_in contents f)) (store u) (store u') \<Longrightarrow> only_from view ?t ?es (store u) (store u')"
      using each [OF that(1)] unfolding only_from_def by blast
    with take_records_rises [OF laws _ here(2) _ that(3)] each [OF that(1)] that(2) show ?thesis
      using rises_trans only_from_trans same_place_trans by blast
  qed
  have "?I s' \<and> (\<not> failed \<longrightarrow> \<not> False \<and> (\<forall>f \<in> set todo. holds_all view ?t (set (entries_in contents f)) (store s')))"
  proof (rule take_in_brings [where I = ?I and files = todo and brought = "\<lambda>f u. holds_all view ?t (set (entries_in contents f)) (store u)", OF _ _ _ taking])
    show "?I (with_wire w' s)" using here(1) by (simp add: rises_refl only_from_def)
    show "holds_all view ?t (set (entries_in contents g)) (store u')"
      if "f \<in> set todo" "?I u" "holds_all view ?t (set (entries_in contents g)) (store u)" "take_records R ?t f u = (r, u')" for f g u r u'
      using step [OF that(1,2,4)] that(3) holds_all_rises by blast
    show "?I u' \<and> (\<forall>n. r = Inr n \<longrightarrow> holds_all view ?t (set (entries_in contents f)) (store u'))"
      if "f \<in> set todo" "?I u" "take_records R ?t f u = (r, u')" for f u r u'
      using step [OF that] by blast
  qed simp_all
  moreover have "holds_all view ?t ?es (store s')"
    if "?es \<subseteq> entries_of contents todo" "\<forall>f \<in> set todo. holds_all view ?t (set (entries_in contents f)) (store s')"
    using that unfolding holds_all_def entries_of_def by blast
  ultimately show ?thesis using whole by blast
qed

lemma whole_share_at:
  assumes "ts_values wanted"
  shows "((store_key key, x) \<in> whole_share m wanted) = (m (store_key key) = Some x \<and> has (ts_partitions wanted) (partition_of key))"
proof -
  have "(\<exists>p < partition_count. has (ts_partitions wanted) p \<and> within p (store_key key)) = has (ts_partitions wanted) (partition_of key)"
    using store_key_in_partition [of _ key] unfolding within_def by (metis partition_of_lt)
  then show ?thesis
    using assms by (auto simp: whole_share_def share_records_def in_share_piece new_piece_def carried_in_def)
qed

section \<open>The property of fetching\<close>

lemma fetch_from_brings:
  fixes R :: "'db rocksdb" and N :: "'w net" and s :: "('db, 'w) router"
  assumes laws: "rocksdb_laws R view contents" "reads_answer R" "numbers_ok L"
    and libs: "sizes_ok L" "escapes L" "plain_stays L"
    and peer: "sends_shares L R view N node t m" "finite (dom m)" "card (dom m) < 2 ^ 64"
    and here: "guarded L view (store s)" "t \<noteq> default_family"
    and run: "fetch_from fuel schedules L R N stop_requested node t partitions workers waiting s = Some (r, s')"
  shows "guarded L view (store s') \<and> same_place s s' \<and> rises view (store s) (store s') \<and>
    (\<forall>t' key x. stored_at view (store s') t' key = Some x \<longrightarrow>
       stored_at view (store s) t' key = Some x \<or> t' = t \<and> m (store_key key) = Some x) \<and>
    (\<forall>d left key v. r = Inr (d, left) \<longrightarrow> has (oc_filled d) (partition_of key) \<longrightarrow> m (store_key key) = Some v \<longrightarrow>
       (\<exists>h. stored_at view (store s') t key = Some h \<and> \<not> is_newer v h))"
proof -
  let ?wanted = "share_wanted node t partitions True workers"
  obtain walked u where walk: "walk_share fuel (schedules node t) L N stop_requested ?wanted (take_records R t) waiting s = Some (walked, u)"
    and u: "u = s'" and d: "\<And>d left. r = Inr (d, left) \<Longrightarrow> oc_filled d = (if to_whole (wd_outcome walked) then partitions else 0)"
    using run by (auto simp: fetch_from_def chain_def walk_run_def run_of_def ret_def no_outcome_def split: option.splits)
  have w: "ts_node ?wanted = node" "ts_table ?wanted = t" "ts_bytes ?wanted < 2 ^ 64" "ts_values ?wanted" "ts_partitions ?wanted = partitions"
    by (simp_all add: share_wanted_def max_file_bytes_def)
  note brings = walk_share_brings [OF laws libs, of N ?wanted m s, unfolded w(1,2), OF peer here w(3) walk]
  note at = whole_share_at [OF w(4), unfolded w(5)]
  have "\<exists>h. stored_at view (store s') t key = Some h \<and> \<not> is_newer v h"
    if "r = Inr (d, left)" "has (oc_filled d) (partition_of key)" "m (store_key key) = Some v" for d left key v
    using brings that at [of key v m] u d [OF that(1)] by (auto simp: holds_all_def split: if_splits)
  moreover have "stored_at view (store s) t' key = Some x \<or> t' = t \<and> m (store_key key) = Some x"
    if "stored_at view (store s') t' key = Some x" for t' key x
    using brings that at u unfolding only_from_def by blast
  ultimately show ?thesis using brings u by blast
qed



text \<open>A node whose table has one record, asked for all of it by a node whose table is empty.\<close>

fun mask :: "string \<Rightarrow> string" where
  "mask [] = []"
| "mask (c # s) = (case map_of (zip ''%&=/?'' ''abcde'') c of None \<Rightarrow> c # mask s | Some d \<Rightarrow> CHR ''%'' # d # mask s)"

fun unmask :: "string \<Rightarrow> string" where
  "unmask [] = []"
| "unmask [c] = [c]"
| "unmask (c # d # s) =
     (if c = CHR ''%'' then (case map_of (zip ''abcde'' ''%&=/?'') d of None \<Rightarrow> d | Some e \<Rightarrow> e) # unmask s else c # unmask (d # s))"

definition coding_libs :: libs where
  "coding_libs = (example_libs (Jobject [(''schema'', Jarray [])]))\<lparr>url_escape := mask, url_unescape := unmask\<rparr>"

definition peer_record :: string where
  "peer_record = compose_value (stamp_of 7 1) ''v''"

definition peer_repo :: "mem_db repo" where
  "peer_repo = example_repo\<lparr>database := [(''default'', []), (''orders'', [(store_key ''k'', peer_record)])]\<rparr>"

definition asked_of_peer :: request where
  "asked_of_peer = file_request coding_libs (share_wanted ''n2'' ''orders'' (- 1) True 1) new_piece max_file_bytes"

definition peer_answer :: "string + http_response" where
  "peer_answer =
     (case route_file coding_libs mem_rocksdb (asked_of_peer\<lparr>rq_forwarded := True\<rparr>) ''orders''
        \<lparr>store = peer_repo, nodes = example_cluster, draining = False\<rparr> of
        (Inr r, _) \<Rightarrow> Inr (delivered coding_libs False (make_response coding_libs None True r False))
      | _ \<Rightarrow> Inl ''cut off'')"

definition share_net :: "unit net" where
  "share_net =
     quiet_net\<lparr>net_send_all := (\<lambda>qs t w.
       (map (\<lambda>q. if q = forwarded_to coding_libs ''n2'' asked_of_peer then peer_answer else Inl ''refused'') qs, w))\<rparr>"

lemma unmask_plain: "c \<noteq> CHR ''%'' \<Longrightarrow> unmask (c # s) = c # unmask s"
  by (cases s) simp_all

lemma unmask_mask: "unmask (mask s) = s \<and> set (mask s) \<inter> {CHR ''&'', CHR ''='', CHR ''/'', CHR ''?''} = {}"
  by (induction s) (auto simp: unmask_plain)

lemma plain_unmask: "CHR ''%'' \<notin> set s \<Longrightarrow> unmask s = s"
  by (induction s rule: unmask.induct) auto

lemma coding_libs_ok: "sizes_ok coding_libs" "escapes coding_libs" "plain_stays coding_libs" "numbers_ok coding_libs"
  using unmask_mask plain_unmask lexical_example
  by (simp_all add: sizes_ok_def escapes_def plain_stays_def numbers_ok_def coding_libs_def)
    (simp_all add: example_libs_def lex_digits_def)

lemma peer_repo_ok: "repo_ok L mem_view peer_repo"
  by (auto simp: repo_ok_def peer_repo_def example_repo_def mem_view_def disk_term_def disk_number_def default_family_def
      split: if_splits)

text \<open>A table that fits in one file is exported in one.\<close>

lemma mem_export_entries:
  assumes "w_bytes w + (\<Sum>(k, v) \<leftarrow> kvs. length k + length v) < s_bytes wanted" and "\<not> w_has_more w"
  shows "\<exists>w'. export_entries mem_rocksdb wanted what kvs w s = (Inr w', s) \<and> \<not> w_has_more w' \<and>
    w_bytes w' \<le> w_bytes w + (\<Sum>(k, v) \<leftarrow> kvs. length k + length v)"
  using assms
proof (induction kvs arbitrary: w)
  case (Cons e kvs)
  obtain k v where e: "e = (k, v)" by fastforce
  let ?c = "carried_value wanted v"
  let ?w = "w\<lparr>w_taken := w_taken w @ [(k, ?c)], w_bytes := w_bytes w + length k + (if s_values wanted then length v else 0)\<rparr>"
  show ?case
    using Cons.IH [of w] Cons.IH [of ?w] Cons.prems e
    by (auto simp: andthen_app check_def Let_def carried_value_def)
qed simp

lemma filtered_size: "(\<Sum>(k, v) \<leftarrow> filter P kvs. length k + length v) \<le> (\<Sum>(k, v) \<leftarrow> kvs. length k + length v)"
  by (induction kvs) auto

lemma mem_export_partitions:
  assumes "map_of (handles s) t = Some t" and "map_of (database s) t = Some kvs"
    and "w_bytes w + length parts * (\<Sum>(k, v) \<leftarrow> in_order kvs. length k + length v) < s_bytes wanted" and "\<not> w_has_more w"
  shows "\<exists>w'. export_partitions mem_rocksdb t wanted what parts w s = (Inr w', s) \<and> \<not> w_has_more w'"
  using assms(3,4)
proof (induction parts arbitrary: w)
  case (Cons p parts)
  let ?size = "\<lambda>kvs. (\<Sum>(k, v) \<leftarrow> kvs. length k + length v)"
  let ?kvs = "\<lambda>lo hi. filter (\<lambda>(k, v). lo \<le> k \<and> k < hi) (in_order kvs)"
  have room: "w_bytes w + length parts * ?size (in_order kvs) < s_bytes wanted" using Cons.prems(1) by simp
  note skip = Cons.IH [OF room Cons.prems(2)]
  have taken: "\<exists>w'. export_entries mem_rocksdb wanted what (?kvs lo hi) w s = (Inr w', s) \<and>
      (\<exists>w''. export_partitions mem_rocksdb t wanted what parts w' s = (Inr w'', s) \<and> \<not> w_has_more w'')" for lo hi
  proof -
    have small: "?size (?kvs lo hi) \<le> ?size (in_order kvs)" by (rule filtered_size)
    then have "w_bytes w + ?size (?kvs lo hi) < s_bytes wanted" using Cons.prems(1) by simp
    from mem_export_entries [OF this Cons.prems(2), of what s] obtain w' where w':
      "export_entries mem_rocksdb wanted what (?kvs lo hi) w s = (Inr w', s)" "\<not> w_has_more w'" "w_bytes w' \<le> w_bytes w + ?size (?kvs lo hi)"
      by blast
    with small Cons.prems(1) have "w_bytes w' + length parts * ?size (in_order kvs) < s_bytes wanted" by simp
    from Cons.IH [OF this w'(2)] w'(1) show ?thesis by blast
  qed
  have iterate: "rdb_iterate mem_rocksdb (database s) t lo hi False = (?kvs lo hi, Ok_status)" for lo hi
    using assms(2) by (simp add: mem_rocksdb_def Let_def)
  let ?from = "if s_has_from wanted \<and> s_from wanted > partition_prefix p then s_from wanted else partition_prefix p"
  obtain w1 w2 where "export_entries mem_rocksdb wanted what (?kvs ?from (partition_prefix (p + 1))) w s = (Inr w1, s)"
      "export_partitions mem_rocksdb t wanted what parts w1 s = (Inr w2, s)" "\<not> w_has_more w2"
    using taken [of ?from "partition_prefix (p + 1)"] by blast
  then show ?case
    using skip Cons.prems(2) assms(1) iterate by (simp add: table_handle_def andthen_app check_def Let_def)
qed simp

lemma mem_export:
  assumes "map_of (handles s) t = Some t" and "map_of (database s) t = Some kvs"
    and "partition_count * (\<Sum>(k, v) \<leftarrow> in_order kvs. length k + length v) < s_bytes wanted"
  shows "\<exists>x s'. export_records mem_rocksdb t wanted s = (Inr x, s') \<and> \<not> x_has_more x"
proof -
  let ?s = "s\<lparr>transfers := transfers s + 1\<rparr>" and ?what = "''Exporting a file of \"'' @ t @ ''\"''"
  obtain w where "export_partitions mem_rocksdb t wanted ?what [0..<partition_count] start_walk ?s = (Inr w, ?s)" "\<not> w_has_more w"
    using mem_export_partitions [of ?s t kvs start_walk "[0..<partition_count]" wanted ?what] assms by (auto simp: start_walk_def)
  then show ?thesis by (simp add: export_records_def Let_def andthen_app transfer_name_def check_def)
qed

lemma forwarded_same:
  assumes "forwarded_to L node req = forwarded_to L node asked" and "rq_path req = rq_path asked"
  shows "rq_query req = rq_query asked"
  using assms by (auto simp: forwarded_to_def target_def split: if_splits)

lemma route_file_same:
  assumes "rq_method req = rq_method asked" and "rq_query req = rq_query asked"
  shows "route_file L R req t s = route_file L R asked t s"
  by (simp add: route_file_def assms)

lemma peer_answers:
  "\<exists>sent n u. peer_answer =
       Inr (delivered coding_libs False (make_response coding_libs None True (file_response sent n []) False)) \<and>
     route_file coding_libs mem_rocksdb (asked_of_peer\<lparr>rq_forwarded := True\<rparr>) ''orders''
       \<lparr>store = peer_repo, nodes = example_cluster, draining = False\<rparr> = (Inr (file_response sent n []), u) \<and>
     sent \<noteq> Some [] \<and> n < 2 ^ 64"
proof -
  let ?p = "\<lparr>store = peer_repo, nodes = example_cluster, draining = False\<rparr>"
  let ?wanted = "share_of_piece (share_wanted ''n2'' ''orders'' (- 1) True 1) max_file_bytes new_piece"
  have asks: "share_asked coding_libs (rq_query asked_of_peer) = Inr ?wanted"
    unfolding asked_of_peer_def using share_asked_file_request [OF coding_libs_ok(2,3,1)] by (simp add: max_file_bytes_def)
  have db: "map_of (handles peer_repo) ''orders'' = Some ''orders''"
    "map_of (database peer_repo) ''orders'' = Some [(store_key ''k'', peer_record)]"
    by (simp_all add: peer_repo_def example_repo_def)
  have size: "partition_count * (\<Sum>(k, v) \<leftarrow> in_order [(store_key ''k'', peer_record)]. length k + length v) < s_bytes ?wanted"
    by (simp add: in_order_def store_key_def peer_record_def partition_count_def partition_prefix_size_def version_size_def
        share_of_piece_def max_file_bytes_def)
  then have pos: "0 < s_bytes ?wanted" by (rule le_less_trans [rotated]) simp
  from mem_export [OF db size] obtain x u where x: "export_records mem_rocksdb ''orders'' ?wanted peer_repo = (Inr x, u)" "\<not> x_has_more x"
    by blast
  have m: "mem_view (database peer_repo) ''orders'' = Some [store_key ''k'' \<mapsto> peer_record]" using db(2) by (simp add: mem_view_def)
  have ex: "exported mem_contents [store_key ''k'' \<mapsto> peer_record] ?wanted x"
    using export_records_exported [OF mem_rocksdb_laws peer_repo_ok m pos x(1)] by blast
  then obtain kvs where sent: "case x_file x of None \<Rightarrow> kvs = [] | Some f \<Rightarrow> f \<noteq> [] \<and> mem_contents f = kvs"
      and kvs: "x_records x = length kvs" "file_of [store_key ''k'' \<mapsto> peer_record] ?wanted kvs (x_has_more x) (x_last x)"
    unfolding exported_def by blast
  from sent have named: "x_file x \<noteq> Some []" by (auto split: option.splits)
  have "set (map fst kvs) \<subseteq> {store_key ''k''}" "distinct (map fst kvs)"
    using kvs(2) ascending_distinct [of kvs] by (auto simp: file_of_def split: if_splits)
  then have "length kvs \<le> card {store_key ''k''}" by (metis card_mono distinct_card finite.emptyI finite.insertI length_map)
  with kvs named have "x_file x \<noteq> Some []" "x_records x < 2 ^ 64" by simp_all
  moreover have "route_file coding_libs mem_rocksdb (asked_of_peer\<lparr>rq_forwarded := True\<rparr>) ''orders'' ?p =
      (Inr (file_response (x_file x) (x_records x) []), ?p\<lparr>store := u\<rparr>)"
    using asks x by (simp add: route_file_def asked_of_peer_def file_request_fields has_table_def peer_repo_def example_repo_def schema_has_def
        andthen_app on_store_def)
  ultimately show ?thesis unfolding peer_answer_def by (intro exI [of _ "x_file x"] exI [of _ "x_records x"]) auto
qed

lemma peer_sends: "sends_shares coding_libs mem_rocksdb mem_view share_net ''n2'' ''orders'' [store_key ''k'' \<mapsto> peer_record]"
proof -
  obtain r u where p: "peer_answer = Inr (delivered coding_libs False (make_response coding_libs None True r False))"
     "route_file coding_libs mem_rocksdb (asked_of_peer\<lparr>rq_forwarded := True\<rparr>) ''orders''
       \<lparr>store = peer_repo, nodes = example_cluster, draining = False\<rparr> = (Inr r, u)"
    using peer_answers by blast
  have "share_sent coding_libs mem_rocksdb mem_view ''orders'' [store_key ''k'' \<mapsto> peer_record] req a"
    if "forwarded_to coding_libs ''n2'' req = forwarded_to coding_libs ''n2'' asked_of_peer"
      "rq_method req = Verb_get" "rq_path req = [''table'', ''orders'', ''file'']" "peer_answer = Inr a" for req a
  proof -
    have "rq_query req = rq_query asked_of_peer"
      using forwarded_same [OF that(1)] that(3) by (simp add: asked_of_peer_def file_request_fields share_wanted_def)
    with that(2) have "route_file coding_libs mem_rocksdb (req\<lparr>rq_forwarded := True\<rparr>) ''orders'' s =
        route_file coding_libs mem_rocksdb (asked_of_peer\<lparr>rq_forwarded := True\<rparr>) ''orders'' s" for s :: "(mem_db, unit) router"
      by (intro route_file_same) (simp_all add: asked_of_peer_def file_request_fields)
    with p(2) have "route_file coding_libs mem_rocksdb (req\<lparr>rq_forwarded := True\<rparr>) ''orders''
        \<lparr>store = peer_repo, nodes = example_cluster, draining = False\<rparr> = (Inr r, u)" by simp
    moreover have "mem_view (database peer_repo) ''orders'' = Some [store_key ''k'' \<mapsto> peer_record]"
      by (simp add: peer_repo_def example_repo_def mem_view_def)
    moreover have "a = delivered coding_libs False (make_response coding_libs None True r False)" using p(1) that(4) by (metis sum.inject(2))
    ultimately show ?thesis
      unfolding share_sent_def using peer_repo_ok [of coding_libs] by (metis router.select_convs(1))
  qed
  then show ?thesis
    by (auto simp: sends_shares_def share_net_def list.rel_map list.rel_refl_strong intro!: list.rel_refl_strong)
qed

definition asking :: "(mem_db, unit) router" where
  "asking = \<lparr>store = example_repo, nodes = example_cluster, draining = False\<rparr>"

lemma peer_crossed:
  "\<exists>f. rs_status (to_response coding_libs node peer_answer False) = 200 \<and>
     f_next (rs_file (to_response coding_libs node peer_answer False)) = [] \<and>
     rs_text (to_response coding_libs node peer_answer False) = f"
proof -
  obtain sent n u where p: "peer_answer =
       Inr (delivered coding_libs False (make_response coding_libs None True (file_response sent n []) False))"
     "sent \<noteq> Some []" "n < 2 ^ 64"
    using peer_answers by blast
  from crossed_file [OF coding_libs_ok(1) p(3,2), of node False True "[]"] show ?thesis
    by (simp add: p(1) crossed_def)
qed

lemma fetched_whole:
  assumes net: "net_send_all N = net_send_all share_net" "net_now N = (\<lambda>_. 0)"
    and waiting: "0 < without waiting" "0 < expires waiting"
    and here: "map_of (handles (store s)) ''orders'' = Some ''orders''" "map_of (database (store s)) ''orders'' \<noteq> None"
  shows "\<exists>d s'. fetch_from 2 (\<lambda>_ _. []) coding_libs mem_rocksdb N (\<lambda>_. False) ''n2'' ''orders'' (- 1) 1 waiting s = Some (Inr d, s') \<and>
      oc_filled (fst d) = - 1"
proof -
  define wanted where "wanted = share_wanted ''n2'' ''orders'' (- 1) True 1"
  let ?answer = "to_response coding_libs ''n2'' peer_answer False"
  obtain f where a: "rs_status ?answer = 200" "f_next (rs_file ?answer) = []" "rs_text ?answer = f"
    using peer_crossed by blast
  define start where "start = \<lparr>wk_pieces = [new_piece], wk_files = [[]], wk_waiting = waiting\<rparr>"
  define k where "k = \<lparr>wk_pieces = [new_piece\<lparr>pc_going := False, pc_whole := True\<rparr>], wk_files = [[f]],
    wk_waiting = waiting\<lparr>expires := without waiting\<rparr>\<rparr>"
  have asked: "file_request coding_libs wanted new_piece max_file_bytes = asked_of_peer" by (simp add: asked_of_peer_def wanted_def)
  have head: "is_head asked_of_peer = False" by (simp add: asked_of_peer_def is_head_def file_request_fields)
  have node: "ts_node wanted = ''n2''" by (simp add: wanted_def share_wanted_def)
  have round: "ask_round coding_libs N wanted max_file_bytes [0] start () = (k, ())"
    using a unfolding start_def k_def
    by (simp add: ask_round_def forward_each_def net share_net_def asked head node carry_to_def carry_def renew_def)
  have "still_going start = [0]" "still_going k = []"
    by (simp_all add: still_going_def start_def k_def new_piece_def)
  with round have rounds: "ask_rounds 2 coding_libs N (\<lambda>_. False) wanted max_file_bytes start () = Some (k, ())"
    using waiting by (simp add: numeral_2_eq_2 spent_def net start_def k_def)
  obtain n s' where taken: "take_records mem_rocksdb ''orders'' f (with_wire () s) = (Inr n, s')"
  proof (cases "f = []")
    case False
    from mem_import [OF here False] that show ?thesis
      by (auto simp: take_records_def on_store_def with_wire_def andthen_app)
  qed (use that in \<open>auto simp: take_records_def import_records_def on_store_def andthen_app\<close>)
  have "walk_share 2 [] coding_libs N (\<lambda>_. False) wanted (take_records mem_rocksdb ''orders'') waiting s =
      Some (\<lparr>wd_outcome = \<lparr>to_whole = True, to_refused = False\<rparr>, wd_count = n, wd_waiting = wk_waiting k\<rparr>, s')"
    using rounds taken
    by (simp add: walk_share_def asked_points_def wanted_def share_wanted_def pieces_of_def start_def k_def max_file_bytes_def ended_def new_piece_def)
  then show ?thesis by (auto simp: fetch_from_def chain_def walk_run_def run_of_def no_outcome_def wanted_def)
qed



end
