(* ===== verification/Pass_Safety.thy ===== *)
theory Pass_Safety
  imports Whole_Share
begin

text \<open>
  What a pass of \<^verbatim>\<open>src/reconcile/reconcile.cpp\<close> does to the records of the node it runs on: taking raises them,
  and giving up removes only what the owner of the partition has.
\<close>

section \<open>Giving up a file\<close>

text \<open>A store that lost nothing but records a set of entries has at least as late.\<close>

definition gives_up :: "('db \<Rightarrow> store_view) \<Rightarrow> string \<Rightarrow> (string \<times> string) set \<Rightarrow> 'db repo \<Rightarrow> 'db repo \<Rightarrow> bool" where
  "gives_up view t es s s' \<longleftrightarrow>
     (\<forall>t' key h. stored_at view s t' key = Some h \<longrightarrow>
        stored_at view s' t' key = Some h \<or> t' = t \<and> (\<exists>v. (store_key key, v) \<in> es \<and> \<not> is_newer h v))"

lemma gives_up_refl: "gives_up view t es s s"
  by (simp add: gives_up_def)

lemma gives_up_trans: "gives_up view t es s u \<Longrightarrow> gives_up view t es u v \<Longrightarrow> gives_up view t es s v"
  unfolding gives_up_def by blast

lemma gives_up_mono: "gives_up view t es s s' \<Longrightarrow> es \<subseteq> fs \<Longrightarrow> gives_up view t fs s s'"
  unfolding gives_up_def by blast

definition clear_file :: "'db rocksdb \<Rightarrow> string \<Rightarrow> string \<Rightarrow> ('db, 'w, nat) handler" where
  "clear_file R name = (\<lambda>file. on_store (clear_records R name file))"

lemma clear_file_gives_up:
  assumes "rocksdb_laws R view contents" and "reads_answer R" and "guarded L view (store s)"
    and "t \<noteq> default_family" and "ascending (entries_in contents f)" and "clear_file R t f s = (r, s')"
  shows "guarded L view (store s') \<and> same_place s s' \<and> gives_up view t (set (entries_in contents f)) (store s) (store s')"
proof -
  obtain r' u where run: "clear_records R t f (store s) = (r', u)" by fastforce
  with assms(6) have s': "store s' = u"
    and place: "handles u = handles (store s) \<and> tables u = tables (store s) \<longrightarrow> same_place s s'"
    by (auto simp: clear_file_def on_store_def same_place_def)
  show ?thesis
  proof (cases "f = []")
    case True
    with run s' assms(3) place show ?thesis by (simp add: clear_records_def ret_def gives_up_refl)
  next
    case False
    note out = clear_records_outcome [OF assms(1-4) False]
    show ?thesis
    proof (cases r')
      case (Inl e)
      then have "unmoved L view (store s) u" using outcomeD(2) [OF out] run by blast
      with s' place show ?thesis by (auto simp: unmoved_def gives_up_def stored_at_def)
    next
      case (Inr n)
      then have c: "cleared L view t (contents f) (store s) n u" using outcomeD(1) [OF out] run by blast
      moreover have "gives_up view t (set (contents f)) (store s) u"
        unfolding gives_up_def cleared_stored_at [OF c] using assms(5) False
        by (auto simp: entries_in_def cleared_stored_at [OF c] split: option.splits if_splits dest: map_of_SomeD)
      ultimately show ?thesis using s' place False by (simp add: entries_in_def cleared_def)
    qed
  qed
qed

lemma take_in_moves:
  assumes "\<And>f s r s'. f \<in> set files \<Longrightarrow> I s \<Longrightarrow> taking f s = (r, s') \<Longrightarrow> I s'"
    and "I s" and "take_in taking files failed n s = ((failed', n'), s')"
  shows "I s'"
  using take_in_brings [of files I taking "\<lambda>_ _. True" s files failed n failed' n' s'] assms by blast

lemma walk_share_gives_up:
  fixes R :: "'db rocksdb" and N :: "'w net" and s :: "('db, 'w) router"
  assumes laws: "rocksdb_laws R view contents" "reads_answer R" and libs: "sizes_ok L" "escapes L" "plain_stays L"
    and peer: "sends_shares L R view N (ts_node wanted) (ts_table wanted) m" "finite (dom m)" "card (dom m) < 2 ^ 64"
    and here: "guarded L view (store s)" "ts_table wanted \<noteq> default_family" and small: "ts_bytes wanted < 2 ^ 64"
    and run: "walk_share fuel schedule L N stop_requested wanted (clear_file R (ts_table wanted)) waiting s = Some (d, s')"
  shows "guarded L view (store s') \<and> same_place s s' \<and> gives_up view (ts_table wanted) (whole_share m wanted) (store s) (store s')"
proof -
  let ?t = "ts_table wanted" and ?es = "whole_share m wanted"
  obtain todo w' failed n where taking: "take_in (clear_file R ?t) todo False 0 (with_wire w' s) = ((failed, n), s')"
    and each: "\<And>f. f \<in> set todo \<Longrightarrow> ascending (entries_in contents f) \<and> set (entries_in contents f) \<subseteq> ?es"
    by (rule walk_share_files [OF laws(1) libs peer small run]) blast
  show ?thesis
  proof (rule take_in_moves [OF _ _ taking])
    show "guarded L view (store (with_wire w' s)) \<and> same_place s (with_wire w' s) \<and> gives_up view ?t ?es (store s) (store (with_wire w' s))"
      using here(1) by (simp add: gives_up_refl)
    fix f u r u'
    assume f: "f \<in> set todo" and u: "guarded L view (store u) \<and> same_place s u \<and> gives_up view ?t ?es (store s) (store u)"
      and go: "clear_file R ?t f u = (r, u')"
    from clear_file_gives_up [OF laws _ here(2) _ go, of L] u each [OF f]
    show "guarded L view (store u') \<and> same_place s u' \<and> gives_up view ?t ?es (store s) (store u')"
      using same_place_trans gives_up_trans gives_up_mono by blast
  qed
qed

section \<open>Where a record is safe\<close>

text \<open>
  A record a node may give up: one of a partition it does not hold, that the owner of the partition has at least as
  late, in the nodes' tables \<open>ms\<close>.
\<close>

definition with_owner :: "(string \<Rightarrow> string \<Rightarrow> family_view) \<Rightarrow> 'w etcd_cluster \<Rightarrow> string \<Rightarrow> string \<Rightarrow> string \<Rightarrow> bool" where
  "with_owner ms c t key h \<longleftrightarrow>
     \<not> has (holdings c) (partition_of key) \<and>
     (\<exists>owner others v. pl_nodes (copies_of c (partition_of key)) = owner # others \<and>
        ms owner t (store_key key) = Some v \<and> \<not> is_newer h v)"

definition loses_nothing :: "(string \<Rightarrow> string \<Rightarrow> family_view) \<Rightarrow> ('db \<Rightarrow> store_view) \<Rightarrow> ('db, 'w) router \<Rightarrow> ('db, 'w) router \<Rightarrow> bool" where
  "loses_nothing ms view s s' \<longleftrightarrow>
     same_place s s' \<and>
     (\<forall>t key h. stored_at view (store s) t key = Some h \<longrightarrow>
        (\<exists>h'. stored_at view (store s') t key = Some h' \<and> \<not> is_newer h h') \<or> with_owner ms (nodes s) t key h)"

lemma same_place_copies:
  assumes "same_place s s'"
  shows "copies_of (nodes s') = copies_of (nodes s)" and "holdings (nodes s') = holdings (nodes s)"
  using assms by (simp_all add: same_place_def copies_of_def holdings_def fun_eq_iff)

lemma same_place_with_owner: "same_place s s' \<Longrightarrow> with_owner ms (nodes s') = with_owner ms (nodes s)"
  by (simp add: same_place_copies with_owner_def fun_eq_iff)

lemma loses_nothing_refl: "loses_nothing ms view s s"
  by (auto simp: loses_nothing_def same_place_refl)

lemma with_owner_later: "with_owner ms c n key h' \<Longrightarrow> \<not> is_newer h h' \<Longrightarrow> with_owner ms c n key h"
  using not_newer_trans unfolding with_owner_def by blast

lemma loses_nothing_trans:
  assumes "loses_nothing ms view s t" and "loses_nothing ms view t u"
  shows "loses_nothing ms view s u"
proof -
  have later: "with_owner ms (nodes s) n key h" if "with_owner ms (nodes s) n key h'" "\<not> is_newer h h'" for n key h h'
    using that by (rule with_owner_later)
  from assms(1) have "with_owner ms (nodes t) = with_owner ms (nodes s)" by (intro same_place_with_owner) (simp add: loses_nothing_def)
  note same = this
  have "(\<exists>h''. stored_at view (store u) n key = Some h'' \<and> \<not> is_newer h h'') \<or> with_owner ms (nodes s) n key h"
    if "stored_at view (store s) n key = Some h" for n key h
  proof (rule ccontr)
    assume no: "\<not> ?thesis"
    with assms(1) that obtain h' where h': "stored_at view (store t) n key = Some h'" "\<not> is_newer h h'"
      unfolding loses_nothing_def by blast
    with assms(2) same no later [of n key h' h] obtain h'' where "stored_at view (store u) n key = Some h''" "\<not> is_newer h' h''"
      unfolding loses_nothing_def by metis
    with no h'(2) not_newer_trans show False by blast
  qed
  moreover have "same_place s u" using assms same_place_trans unfolding loses_nothing_def by blast
  ultimately show ?thesis unfolding loses_nothing_def by blast
qed

lemma loses_nothing_rises: "same_place s s' \<Longrightarrow> rises view (store s) (store s') \<Longrightarrow> loses_nothing ms view s s'"
  unfolding loses_nothing_def rises_def by blast

text \<open>A run of a guarded store leaves it guarded and loses nothing, whether it comes to its end or throws.\<close>

definition lossless :: "libs \<Rightarrow> (string \<Rightarrow> string \<Rightarrow> family_view) \<Rightarrow> ('db \<Rightarrow> store_view) \<Rightarrow> (('db, 'w) router, 'a) run \<Rightarrow> ('db, 'w) router \<Rightarrow> bool" where
  "lossless L ms view m s \<longleftrightarrow>
     (\<forall>r s'. m s = Some (r, s') \<longrightarrow> guarded L view (store s') \<and> loses_nothing ms view s s')"

lemma lossless_chain:
  assumes "lossless L ms view m s"
    and "\<And>a s'. m s = Some (Inr a, s') \<Longrightarrow> guarded L view (store s') \<Longrightarrow> same_place s s' \<Longrightarrow> lossless L ms view (f a) s'"
  shows "lossless L ms view (chain m f) s"
  unfolding lossless_def
proof (intro allI impI)
  fix r s' assume run: "chain m f s = Some (r, s')"
  then obtain r1 s1 where m: "m s = Some (r1, s1)" by (auto simp: chain_def split: option.splits)
  with assms(1) have one: "guarded L view (store s1)" "loses_nothing ms view s s1" by (auto simp: lossless_def)
  show "guarded L view (store s') \<and> loses_nothing ms view s s'"
  proof (cases r1)
    case (Inl e)
    with run m one show ?thesis by (simp add: chain_def)
  next
    case (Inr a)
    with run m have "f a s1 = Some (r, s')" by (simp add: chain_def)
    moreover have "lossless L ms view (f a) s1"
      using assms(2) m Inr one by (simp add: loses_nothing_def)
    ultimately show ?thesis using one(2) loses_nothing_trans unfolding lossless_def by blast
  qed
qed

lemma lossless_ret [simp]: "guarded L view (store s) \<Longrightarrow> lossless L ms view (run_of (ret a)) s"
  by (simp add: lossless_def run_of_def ret_def loses_nothing_refl)

section \<open>Taking\<close>

text \<open>Every node a pass may ask has its tables as \<open>ms\<close>, and answers so.\<close>

definition nodes_send :: "libs \<Rightarrow> 'db rocksdb \<Rightarrow> ('db \<Rightarrow> store_view) \<Rightarrow> 'w net \<Rightarrow> (string \<Rightarrow> string \<Rightarrow> family_view) \<Rightarrow> bool" where
  "nodes_send L R view N ms \<longleftrightarrow>
     (\<forall>node t. sends_shares L R view N node t (ms node t) \<and> finite (dom (ms node t)) \<and> card (dom (ms node t)) < 2 ^ 64)"

lemma fetch_from_lossless:
  assumes "rocksdb_laws R view contents" and "reads_answer R" and "numbers_ok L" and "sizes_ok L" and "escapes L" and "plain_stays L"
    and "nodes_send L R view N ms" and "guarded L view (store s)" and "t \<noteq> default_family"
  shows "lossless L ms view (fetch_from fuel schedules L R N stop_requested node t partitions workers waiting) s"
  using fetch_from_brings [OF assms(1-6) _ _ _ assms(8,9), of N node "ms node t"] assms(7)
  by (auto simp: lossless_def nodes_send_def intro!: loses_nothing_rises)

lemma fetch_all_lossless:
  assumes "rocksdb_laws R view contents" and "reads_answer R" and "numbers_ok L" and "sizes_ok L" and "escapes L" and "plain_stays L"
    and "nodes_send L R view N ms" and "guarded L view (store s)" and "\<forall>(t, _) \<in> set asks. t \<noteq> default_family"
  shows "lossless L ms view (fetch_all fuel schedules L R N stop_requested workers asks f) s"
  using assms(8,9)
proof (induction asks arbitrary: f s)
  case (Cons ask asks)
  obtain t node partitions where ask: "ask = (t, node, partitions)" by (cases ask) auto
  show ?case
    unfolding ask fetch_all.simps
    by (rule lossless_chain, rule fetch_from_lossless [OF assms(1-7)])
      (use Cons ask in \<open>auto split: prod.splits\<close>)
qed simp

section \<open>Giving up a table\<close>

text \<open>What a walk of this node's own records found to be elsewhere: partitions this node does not hold, with their owner.\<close>

definition elsewhere_ok :: "'w etcd_cluster \<Rightarrow> (string, partition_set) smap \<Rightarrow> bool" where
  "elsewhere_ok c m \<longleftrightarrow>
     (\<forall>(node, partitions) \<in> set m. \<forall>p < partition_count. has partitions p \<longrightarrow>
        \<not> has (holdings c) p \<and> (\<exists>others. pl_nodes (copies_of c p) = node # others))"

lemma elsewhere_okD:
  assumes "elsewhere_ok c m" and "(node, partitions) \<in> set m" and "p < partition_count" and "has partitions p"
  shows "\<not> has (holdings c) p \<and> (\<exists>others. pl_nodes (copies_of c p) = node # others)"
  using assms unfolding elsewhere_ok_def by blast

lemma whole_share_versions:
  assumes "(store_key key, x) \<in> whole_share m wanted" and "\<not> is_newer h x"
  obtains v where "m (store_key key) = Some v" and "has (ts_partitions wanted) (partition_of key)" and "\<not> is_newer h v"
proof -
  from assms(1) obtain v where v: "m (store_key key) = Some v" "x = carried_in wanted v"
    "\<exists>p < partition_count. has (ts_partitions wanted) p \<and> within p (store_key key)"
    by (auto simp: whole_share_def share_records_def in_share_piece)
  then have "has (ts_partitions wanted) (partition_of key)"
    using store_key_in_partition [of _ key] unfolding within_def by metis
  moreover have "is_newer h x = is_newer h v"
    using v(2) by (auto simp: carried_in_def is_newer_def version_size_def min_def)
  ultimately show thesis using that v(1) assms(2) by simp
qed

lemma clear_from_lossless:
  assumes laws: "rocksdb_laws R view contents" "reads_answer R" and libs: "sizes_ok L" "escapes L" "plain_stays L"
    and peers: "nodes_send L R view N ms" and t: "t \<noteq> default_family"
    and "guarded L view (store s)" and "elsewhere_ok (nodes s) elsewhere"
  shows "lossless L ms view (clear_from fuel schedules L R N stop_requested t workers elsewhere waiting finished n) s"
  using assms(8,9)
proof (induction elsewhere arbitrary: waiting finished n s)
  case (Cons e elsewhere)
  obtain node partitions where e: "e = (node, partitions)" by (cases e) auto
  let ?wanted = "share_wanted node t partitions False workers"
  have w: "ts_node ?wanted = node" "ts_table ?wanted = t" "ts_bytes ?wanted < 2 ^ 64" "ts_partitions ?wanted = partitions"
    by (simp_all add: share_wanted_def max_file_bytes_def)
  have peer: "sends_shares L R view N node t (ms node t)" "finite (dom (ms node t))" "card (dom (ms node t)) < 2 ^ 64"
    using peers by (simp_all add: nodes_send_def)
  have owned: "has partitions p \<Longrightarrow> p < partition_count \<Longrightarrow>
      \<not> has (holdings (nodes s)) p \<and> (\<exists>others. pl_nodes (copies_of (nodes s) p) = node # others)" for p
    using Cons.prems(2) by (auto simp: elsewhere_ok_def e)
  show ?case
    unfolding e clear_from.simps clear_file_def [symmetric]
  proof (rule lossless_chain)
    show "lossless L ms view (walk_run fuel (schedules node t) L N stop_requested ?wanted (clear_file R t) waiting) s"
      unfolding lossless_def
    proof (intro allI impI)
      fix r s' assume "walk_run fuel (schedules node t) L N stop_requested ?wanted (clear_file R t) waiting s = Some (r, s')"
      then obtain d where "walk_share fuel (schedules node t) L N stop_requested ?wanted (clear_file R t) waiting s = Some (d, s')"
        by (auto simp: walk_run_def)
      from walk_share_gives_up [OF laws libs, of N ?wanted "ms node t" s, unfolded w(1,2), OF peer Cons.prems(1) t w(3) this]
      have gave: "guarded L view (store s')" "same_place s s'" "gives_up view t (whole_share (ms node t) ?wanted) (store s) (store s')"
        by simp_all
      have "with_owner ms (nodes s) t key h" if "(store_key key, x) \<in> whole_share (ms node t) ?wanted" "\<not> is_newer h x" for key h x
        using whole_share_versions [OF that] owned [of "partition_of key"] w(4) unfolding with_owner_def
        by (metis partition_of_lt)
      with gave show "guarded L view (store s') \<and> loses_nothing ms view s s'"
        unfolding loses_nothing_def gives_up_def using stored.newer_irrefl by metis
    qed
    fix d s' assume "guarded L view (store s')" "same_place s s'"
    moreover from this(2) have "elsewhere_ok (nodes s') elsewhere"
      using Cons.prems(2) by (simp add: elsewhere_ok_def e same_place_copies)
    ultimately show "lossless L ms view (clear_from fuel schedules L R N stop_requested t workers elsewhere (wd_waiting d) fin k) s'" for fin k
      using Cons.IH by blast
  qed
qed simp

lemma set_map_put: "set (map_put k v m) \<subseteq> insert (k, v) (set m)"
  by (induction m) auto

lemma misplace_ok:
  assumes "elsewhere_ok c (ms_elsewhere found)" and "p < partition_count" and "\<not> has (holdings c) p"
  shows "elsewhere_ok c (ms_elsewhere (misplace (copies_of c p) p found))"
proof (cases "pl_nodes (copies_of c p)")
  case Nil
  with assms(1) show ?thesis by (simp add: misplace_def)
next
  case (Cons owner others)
  let ?m = "ms_elsewhere found"
  let ?old = "case map_of ?m owner of None \<Rightarrow> 0 | Some ps \<Rightarrow> ps"
  have old: "\<not> has (holdings c) q \<and> (\<exists>others. pl_nodes (copies_of c q) = owner # others)"
    if "q < partition_count" "has ?old q" for q
  proof (cases "map_of ?m owner")
    case (Some ps)
    with that elsewhere_okD [OF assms(1) map_of_SomeD [OF Some]] show ?thesis by simp
  qed (use that in simp)
  have "\<not> has (holdings c) q \<and> (\<exists>others. pl_nodes (copies_of c q) = owner # others)"
    if "q < partition_count" "has (set_bit p ?old) q" for q
    using old [of q] that assms(2,3) Cons by (cases "q = p") (auto simp: bit_set_bit_256)
  then show ?thesis
    using assms(1) set_map_put [of owner "set_bit p ?old" ?m] Cons
    unfolding elsewhere_ok_def misplace_def hold_partition_def by (auto split: prod.splits)
qed

lemma walk_partition_finds:
  assumes "p < partition_count" and "\<not> has (holdings c) p"
    and "elsewhere_ok c (ms_elsewhere found)" and "r_partition r = p"
    and "walk_partition fuel R N stop_requested (copies_of c p) t r waiting found s = Some (res, s')"
  shows "s' = s \<and> (\<forall>a w found'. res = Inr (a, w, found') \<longrightarrow> elsewhere_ok c (ms_elsewhere found'))"
  using assms(3-5)
proof (induction fuel arbitrary: r waiting found)
  case (Suc fuel)
  show ?case
  proof (cases "stop_requested (network (nodes s)) \<or> spent N waiting (network (nodes s))")
    case True
    with Suc.prems show ?thesis by auto
  next
    case False
    obtain pg where scan: "on_store (scan_records R t r) s = (pg, s)"
      using scan_records_still [of R t r "store s"] by (cases "scan_records R t r (store s)") (auto simp: on_store_def)
    show ?thesis
    proof (cases pg)
      case (Inl e)
      with False scan Suc.prems(3) show ?thesis by (auto simp: chain_def run_of_def)
    next
      case (Inr page)
      let ?fresh = "unread r (p_records page)"
      let ?found = "fold (\<lambda>_. misplace (copies_of c p) p) ?fresh found"
      have ok: "elsewhere_ok c (ms_elsewhere (fold (\<lambda>_. misplace (copies_of c p) p) xs found))" for xs :: "record_t list"
        using Suc.prems(1) misplace_ok [OF _ assms(1,2)] by (induction xs arbitrary: found) simp_all
      show ?thesis
        using Suc.IH [of ?found "r\<lparr>r_from := rec_key (last (p_records page)), r_has_from := True\<rparr>"
            "renew N waiting (network (nodes s))"] ok [of ?fresh] Suc.prems(2,3) False scan Inr
        by (auto simp: chain_def run_of_def Let_def split: if_splits)
    qed
  qed
qed simp

lemma walk_partitions_finds:
  assumes "list_all (\<lambda>p. p < partition_count) parts" and "elsewhere_ok (nodes s) (ms_elsewhere found)"
    and "walk_partitions fuel R N stop_requested t page_size (holdings (nodes s)) parts waiting found s = Some (res, s')"
  shows "s' = s \<and> (\<forall>w found'. res = Inr (w, found') \<longrightarrow> elsewhere_ok (nodes s) (ms_elsewhere found'))"
  using assms
proof (induction parts arbitrary: waiting found)
  case Nil
  then show ?case by (auto simp: run_of_def ret_def)
next
  case (Cons p parts)
  show ?case
  proof (cases "has (holdings (nodes s)) p")
    case True
    with Cons.prems Cons.IH [of found waiting] show ?thesis by simp
  next
    case False
    let ?r = "default_range\<lparr>r_partition := p, r_limit := page_size, r_values := False\<rparr>"
    obtain res1 s1 where one: "walk_partition fuel R N stop_requested (copies_of (nodes s) p) t ?r waiting found s = Some (res1, s1)"
      using False Cons.prems(3) by (auto simp: chain_def split: option.splits)
    have ok: "s1 = s" "\<And>a w found'. res1 = Inr (a, w, found') \<Longrightarrow> elsewhere_ok (nodes s) (ms_elsewhere found')"
      using walk_partition_finds [OF _ False Cons.prems(2) _ one] Cons.prems(1) by auto
    show ?thesis
      using Cons.IH ok Cons.prems(1,3) False one
      by (auto simp: chain_def run_of_def ret_def split: sum.splits prod.splits if_splits)
  qed
qed

lemma clear_table_lossless:
  assumes "rocksdb_laws R view contents" and "reads_answer R" and "sizes_ok L" and "escapes L" and "plain_stays L"
    and "nodes_send L R view N ms" and "t \<noteq> default_family" and "guarded L view (store s)"
  shows "lossless L ms view (clear_table fuel schedules L R N stop_requested t page_size workers waiting) s"
proof -
  have walk: "s' = s \<and> (\<forall>w found. res = Inr (w, found) \<longrightarrow> elsewhere_ok (nodes s) (ms_elsewhere found))"
    if "walk_table fuel R N stop_requested t page_size waiting s = Some (res, s')" for res s'
    by (rule walk_partitions_finds [OF _ _ that [unfolded walk_table_def]]) (simp_all add: elsewhere_ok_def list_all_iff)
  show ?thesis
    unfolding clear_table_def
  proof (rule lossless_chain)
    show "lossless L ms view (walk_table fuel R N stop_requested t page_size waiting) s"
      using walk assms(8) by (auto simp: lossless_def loses_nothing_refl)
    fix a s' assume "walk_table fuel R N stop_requested t page_size waiting s = Some (Inr a, s')"
    with walk obtain w found where a: "a = (w, found)" "s' = s" "elsewhere_ok (nodes s) (ms_elsewhere found)" by (cases a) auto
    show "lossless L ms view (case a of (waiting, found) \<Rightarrow>
        chain (clear_from fuel schedules L R N stop_requested t workers (ms_elsewhere found) waiting (ms_finished found) 0)
          (\<lambda>(finished, cleared, waiting). run_of (ret (no_outcome\<lparr>oc_finished := finished, oc_cleared := cleared,
            oc_deferred := ms_orphaned found + (if ms_records found > cleared then ms_records found - cleared else 0)\<rparr>, waiting)))) s'"
      unfolding a prod.case
      by (rule lossless_chain, rule clear_from_lossless [OF assms(1-8) a(3)]) (auto split: prod.splits)
  qed
qed

lemma clear_all_lossless:
  assumes "rocksdb_laws R view contents" and "reads_answer R" and "sizes_ok L" and "escapes L" and "plain_stays L"
    and "nodes_send L R view N ms" and "\<forall>t \<in> set declarations. t_name t \<noteq> default_family" and "guarded L view (store s)"
  shows "lossless L ms view (clear_all fuel schedules L R N stop_requested page_size workers declarations waiting d) s"
  using assms(7,8)
proof (induction declarations arbitrary: waiting d s)
  case (Cons t declarations)
  show ?case
    unfolding clear_all.simps
    by (rule lossless_chain, rule clear_table_lossless [OF assms(1-6)]) (use Cons in \<open>auto split: prod.splits\<close>)
qed simp

section \<open>Merging what another node declares\<close>

text \<open>Of the tables there were, each is as it was or is gone.\<close>

definition tables_kept :: "('db \<Rightarrow> store_view) \<Rightarrow> 'db repo \<Rightarrow> 'db repo \<Rightarrow> bool" where
  "tables_kept view s s' \<longleftrightarrow>
     (\<forall>t m. t \<noteq> default_family \<longrightarrow> view (database s) t = Some m \<longrightarrow>
        view (database s') t = Some m \<or> view (database s') t = None)"

definition names_ok :: "schema \<Rightarrow> bool" where
  "names_ok entries \<longleftrightarrow>
     no_default entries \<and> (\<forall>(name, e) \<in> set entries. \<forall>t. e_declared e = Some t \<longrightarrow> t_name t \<noteq> default_family)"

lemma alter_family_keeps:
  assumes "rocksdb_laws R view contents" and "guarded L view s" and "c_name c \<noteq> default_family" and "alter_family R c s = (r, s')"
  shows "guarded L view s' \<and> tables s' = tables s \<and>
    (\<forall>t. t \<noteq> c_name c \<longrightarrow> view (database s') t = view (database s) t) \<and> tables_kept view s s'"
proof (cases "c_live c")
  case True
  with assms(4) have run: "open_family R (c_name c) s = (r, s')" by (simp add: alter_family_def)
  then have "guarded L view s'" using keepsD [OF open_family_guarded [OF assms(1)] assms(2), of "c_name c"] by simp
  from run assms(1) show ?thesis
  proof (cases rule: open_familyE)
    case (made db)
    then have "view (database s) (c_name c) = None"
      using assms(2) unfolding guarded_def repo_ok_def by (metis domIff)
    with made \<open>guarded L view s'\<close> show ?thesis by (auto simp: tables_kept_def)
  qed (use \<open>guarded L view s'\<close> in \<open>auto simp: tables_kept_def\<close>)
next
  case False
  with assms(4) have run: "drop_family R (c_name c) s = (r, s')" by (simp add: alter_family_def)
  then have "guarded L view s'" using keepsD [OF drop_family_guarded [OF assms(1,3)] assms(2)] by simp
  from run assms(1) show ?thesis
  proof (cases rule: drop_familyE)
    case (gone db h)
    moreover from this have "h = c_name c" using assms(2) by (simp add: guarded_def repo_ok_def)
    ultimately show ?thesis using \<open>guarded L view s'\<close> by (auto simp: tables_kept_def)
  qed (use \<open>guarded L view s'\<close> in \<open>auto simp: tables_kept_def\<close>)
qed

lemma alter_all_keeps:
  assumes "rocksdb_laws R view contents"
    and "guarded L view s" and "distinct (map c_name cs)" and "default_family \<notin> c_name ` set cs"
    and "for_each (alter_family R) cs s = (r, s')"
  shows "guarded L view s' \<and> tables s' = tables s \<and>
    (\<forall>t. t \<notin> c_name ` set cs \<longrightarrow> view (database s') t = view (database s) t) \<and> tables_kept view s s'"
  using assms(2-5)
proof (induction cs arbitrary: s)
  case (Cons c cs)
  obtain r1 u where one: "alter_family R c s = (r1, u)" by fastforce
  have u: "guarded L view u" "tables u = tables s" "\<forall>t. t \<noteq> c_name c \<longrightarrow> view (database u) t = view (database s) t" "tables_kept view s u"
    using alter_family_keeps [OF assms(1) Cons.prems(1) _ one] Cons.prems(3) by auto
  show ?case
  proof (cases r1)
    case (Inl e)
    with one u Cons.prems(4) show ?thesis by (auto simp: andthen_app)
  next
    case (Inr a)
    with one Cons.prems(4) have "for_each (alter_family R) cs u = (r, s')" by (simp add: andthen_app)
    with Cons.IH [OF u(1)] Cons.prems(2,3)
    have rest: "guarded L view s'" "tables s' = tables u" "\<forall>t. t \<notin> c_name ` set cs \<longrightarrow> view (database s') t = view (database u) t"
        "tables_kept view u s'" by auto
    have "tables_kept view s s'"
      using u(3,4) rest(3,4) Cons.prems(2) unfolding tables_kept_def by (metis distinct.simps(2) image_set list.simps(9))
    with rest u Cons.prems show ?thesis by auto
  qed
qed (auto simp: tables_kept_def ret_def)

lemma merge_entries_from: "set (snd (merge_entries named entries altered)) \<subseteq> set named \<union> set entries"
  by (induction named entries altered rule: merge_entries.induct)
    (use set_map_put in \<open>fastforce simp: Let_def split: option.splits if_splits\<close>)+

lemma merge_schema_keeps:
  assumes laws: "rocksdb_laws R view contents" and g: "guarded L view s" and "map_ok named" and "names_ok named"
    and "names_ok (tables s)" and run: "merge_schema L' R named s = (r, s')"
  shows "guarded L view s' \<and> names_ok (tables s') \<and> tables_kept view s s'"
proof -
  obtain altered merged where m: "schema_merge named (tables s) = (altered, merged)" by fastforce
  have altered: "altered = changes_of named (tables s)"
    using m merge_entries_changed [OF map_ok_distinct [OF assms(3)], of "tables s" "[]"] by (simp add: schema_merge_def)
  have names: "distinct (map c_name altered)" "default_family \<notin> c_name ` set altered"
    using changes_distinct [OF assms(3)] changes_named [of _ named "tables s"] assms(4)
    unfolding altered names_ok_def no_default_def by (blast, force)
  have ok: "names_ok merged"
    using merge_entries_from [of named "tables s" "[]"] m assms(4,5)
    unfolding schema_merge_def names_ok_def no_default_def by (force simp: image_iff)
  let ?s = "s\<lparr>tables := merged\<rparr>"
  obtain r1 u where alter: "for_each (alter_family R) altered ?s = (r1, u)" by fastforce
  have "guarded L view ?s" using g by simp
  from alter_all_keeps [OF laws this names alter]
  have u: "guarded L view u" "tables u = merged" "tables_kept view s u" by (simp_all add: tables_kept_def)
  show ?thesis
  proof (cases r1)
    case (Inl e)
    with run m alter u ok show ?thesis by (auto simp: merge_schema_def andthen_app)
  next
    case (Inr a)
    obtain r2 v where w: "write_tables L' R u = (r2, v)" by fastforce
    have "guarded L view v" using keepsD [OF write_tables_guarded [OF laws] u(1), of L'] w by simp
    moreover from w [unfolded write_tables_def] laws have "tables v = tables u \<and> (\<forall>t. t \<noteq> default_family \<longrightarrow> view (database v) t = view (database u) t)"
      by (cases rule: putE) (auto simp: apply_op.simps split: option.splits)
    moreover have "s' = v" using run m alter w Inr by (auto simp: merge_schema_def andthen_app split: sum.splits)
    ultimately show ?thesis using u ok by (simp add: tables_kept_def)
  qed
qed

text \<open>No node hands over a schema that gives the reserved name to a table.\<close>

definition schemas_ok :: "libs \<Rightarrow> 'w net \<Rightarrow> bool" where
  "schemas_ok L N \<longleftrightarrow>
     (\<forall>zone waiting w named left w'. tables_of L N zone waiting w = ((Some named, left), w') \<longrightarrow> map_ok named \<and> names_ok named)"

definition same_members :: "('db, 'w) router \<Rightarrow> ('db, 'w) router \<Rightarrow> bool" where
  "same_members s s' \<longleftrightarrow>
     configuration (nodes s') = configuration (nodes s) \<and> member_list (nodes s') = member_list (nodes s) \<and>
     holding (nodes s') = holding (nodes s)"

lemma declare_tables_keeps:
  assumes laws: "rocksdb_laws R view contents" and schemas: "schemas_ok L N"
    and "guarded L view (store s)" and "names_ok (tables (store s))"
    and "declare_tables L R N zone_list waiting s = (r, s')"
  shows "guarded L view (store s') \<and> names_ok (tables (store s')) \<and> tables_kept view (store s) (store s') \<and> same_members s s'"
  using assms(3-5)
proof (induction zone_list arbitrary: waiting s)
  case Nil
  then show ?case by (simp add: tables_kept_def same_members_def)
next
  case (Cons zone zone_list)
  obtain named left w where asked: "tables_of L N zone waiting (network (nodes s)) = ((named, left), w)" by (metis prod.collapse)
  define u where "u = s\<lparr>nodes := (nodes s)\<lparr>etcd_client := (etcd_client (nodes s))\<lparr>wire := w\<rparr>\<rparr>\<rparr>"
  have u: "on_wire (tables_of L N zone waiting) s = (Inr (named, left), u)" "store u = store s" "same_members s u"
    by (simp_all add: on_wire_def on_nodes_def asked u_def same_members_def)
  show ?case
  proof (cases named)
    case None
    then have "declare_tables L R N zone_list left u = (r, s')" using Cons.prems(3) u(1) by (simp add: andthen_app)
    from Cons.IH [OF _ _ this] Cons.prems u show ?thesis by (simp add: same_members_def)
  next
    case (Some ts)
    obtain r1 v where m: "merge_schema L R ts (store s) = (r1, v)" by fastforce
    have "map_ok ts" "names_ok ts" using schemas asked Some unfolding schemas_ok_def by blast+
    from merge_schema_keeps [OF laws Cons.prems(1) this Cons.prems(2) m]
    have "guarded L view v \<and> names_ok (tables v) \<and> tables_kept view (store s) v" .
    moreover have "s' = u\<lparr>store := v\<rparr>"
      using Cons.prems(3) u m Some by (auto simp: andthen_app on_store_def split: sum.splits)
    ultimately show ?thesis using u by (simp add: same_members_def)
  qed
qed

lemma table_names:
  assumes "names_ok entries" and "t \<in> set (schema_tables entries)"
  shows "t_name t \<noteq> default_family"
proof -
  have insert: "set (table_insert t ts) \<subseteq> insert t (set ts)" for t ts by (induction ts) auto
  have "set (fold (\<lambda>(name, e) live. case e_declared e of None \<Rightarrow> live | Some t \<Rightarrow> table_insert t live) es live) \<subseteq>
      set live \<union> {t. \<exists>(name, e) \<in> set es. e_declared e = Some t}" for es live
    by (induction es arbitrary: live) (use insert in \<open>fastforce split: option.splits\<close>)+
  with assms show ?thesis unfolding names_ok_def schema_tables_def by fastforce
qed

lemma fill_share_lossless:
  assumes "rocksdb_laws R view contents" and "reads_answer R" and "numbers_ok L" and "sizes_ok L" and "escapes L" and "plain_stays L"
    and "nodes_send L R view N ms" and "guarded L view (store s)" and "names_ok (tables (store s))"
  shows "lossless L ms view (fill_share fuel schedules L R N stop_requested workers waiting declared d) s"
proof -
  have "\<forall>t \<in> set (list_tables (store s)). t_name t \<noteq> default_family"
    using table_names [OF assms(9)] by (simp add: list_tables_def)
  then show ?thesis
    unfolding lossless_def fill_share_def Let_def
    by (fold lossless_def, intro lossless_chain, intro fetch_all_lossless [OF assms(1-8)]) auto
qed

lemma fill_and_clear_lossless:
  assumes laws: "rocksdb_laws R view contents" "reads_answer R" "numbers_ok L" and libs: "sizes_ok L" "escapes L" "plain_stays L"
    and peers: "nodes_send L R view N ms" and here: "guarded L view (store s)" "names_ok (tables (store s))"
  shows "lossless L ms view (chain (fill_share fuel schedules L R N stop_requested workers waiting declared d)
      (\<lambda>(d, ts) s. clear_all fuel schedules L R N stop_requested page_size workers ts (patience_of N secs (network (nodes s))) d s)) s"
proof (rule lossless_chain)
  have names: "\<forall>t \<in> set (list_tables (store s)). t_name t \<noteq> default_family"
    using table_names [OF here(2)] by (simp add: list_tables_def)
  show "lossless L ms view (fill_share fuel schedules L R N stop_requested workers waiting declared d) s"
    by (rule fill_share_lossless [OF laws libs peers here])
  fix a s' assume run: "fill_share fuel schedules L R N stop_requested workers waiting declared d s = Some (Inr a, s')"
    and s': "guarded L view (store s')" "same_place s s'"
  from run have "snd a = list_tables (store s)"
    by (auto simp: fill_share_def Let_def chain_def run_of_def split: option.splits sum.splits prod.splits)
  then show "lossless L ms view ((\<lambda>(d, ts) s. clear_all fuel schedules L R N stop_requested page_size workers ts
      (patience_of N secs (network (nodes s))) d s) a) s'"
    using clear_all_lossless [OF laws(1,2) libs peers _ s'(1), of "snd a"] names
    by (simp add: case_prod_unfold lossless_def)
qed

lemma guarded_families: "guarded L view s \<Longrightarrow> guarded L view s' \<Longrightarrow> handles s' = handles s \<Longrightarrow> dom (view (database s')) = dom (view (database s))"
  by (metis guarded_def repo_ok_def)

section \<open>The property of a pass\<close>

text \<open>The two halves of a pass: taking what other nodes declare, and filling and clearing the tables there are then.\<close>

lemma reconcile_halves:
  assumes laws: "rocksdb_laws R view contents" and schemas: "schemas_ok L N"
    and here: "guarded L view (store s)" "names_ok (tables (store s))"
    and run: "zones (nodes s) \<noteq> []" "reconcile fuel schedules L R N stop_requested page_size secs workers s = Some (r, s')"
  obtains (threw) e where "r = Inl e" "guarded L view (store s')" "names_ok (tables (store s'))"
      "tables_kept view (store s) (store s')"
  | (went_on) u declared waiting d0 where "guarded L view (store u)" "names_ok (tables (store u))"
      "tables_kept view (store s) (store u)" "same_members s u" "oc_filled d0 = 0"
      "chain (fill_share fuel schedules L R N stop_requested workers waiting declared d0)
         (\<lambda>(d, ts) s. clear_all fuel schedules L R N stop_requested page_size workers ts
            (patience_of N secs (network (nodes s))) d s) u = Some (r, s')"
proof -
  define d0 where "d0 = no_outcome\<lparr>oc_generation := generation (nodes s)\<rparr>"
  define fetching where "fetching = patience_of N secs (network (nodes s))"
  let ?first = "if stop_requested (network (nodes s)) then ret (None, fetching) else declare_tables L R N (zones (nodes s)) fetching"
  let ?rest = "\<lambda>(declared, waiting). chain (fill_share fuel schedules L R N stop_requested workers waiting declared d0)
      (\<lambda>(d, ts) s. clear_all fuel schedules L R N stop_requested page_size workers ts (patience_of N secs (network (nodes s))) d s)"
  have whole: "chain (run_of ?first) ?rest s = Some (r, s')"
    using run by (cases "stop_requested (network (nodes s))") (simp_all add: reconcile_def Let_def d0_def fetching_def run_of_def)
  obtain r1 u where first: "?first s = (r1, u)" by fastforce
  have u: "guarded L view (store u)" "names_ok (tables (store u))" "tables_kept view (store s) (store u)" "same_members s u"
    using first declare_tables_keeps [OF laws schemas here, of "zones (nodes s)" fetching] here
    by (auto simp: tables_kept_def same_members_def split: if_splits)
  have "oc_filled d0 = 0" by (simp add: d0_def no_outcome_def)
  with whole first u show thesis
    by (cases r1) (auto simp: chain_def run_of_def intro: threw went_on)
qed

lemma same_members_same:
  assumes "same_members s u"
  shows "holders (nodes u) = holders (nodes s)" and "holdings (nodes u) = holdings (nodes s)" and "with_owner ms (nodes u) = with_owner ms (nodes s)"
  using assms by (simp_all add: same_members_def with_owner_def copies_of_def holdings_def holders_def fun_eq_iff)

lemma a_pass_keeps:
  assumes laws: "rocksdb_laws R view contents" "reads_answer R" "numbers_ok L" and libs: "sizes_ok L" "escapes L" "plain_stays L"
    and peers: "nodes_send L R view N ms" "schemas_ok L N" and here: "guarded L view (store s)" "names_ok (tables (store s))"
    and run: "reconcile fuel schedules L R N stop_requested page_size secs workers s = Some (r, s')"
  shows "guarded L view (store s') \<and> names_ok (tables (store s')) \<and>
    (\<forall>t key h. t \<noteq> default_family \<longrightarrow> view (database (store s')) t \<noteq> None \<longrightarrow> stored_at view (store s) t key = Some h \<longrightarrow>
       (\<exists>h'. stored_at view (store s') t key = Some h' \<and> \<not> is_newer h h') \<or> with_owner ms (nodes s) t key h)"
proof (cases "zones (nodes s) = []")
  case True
  with run have "s' = s" by (simp add: reconcile_def Let_def run_of_def)
  with here show ?thesis by auto
next
  case False
  have kept: "stored_at view w t key = Some h" if "tables_kept view (store s) w" "view (database w) t \<noteq> None"
      "t \<noteq> default_family" "stored_at view (store s) t key = Some h" for w t key h
    using that by (auto simp: tables_kept_def stored_at_def record_at_def split: option.splits)
  from laws(1) peers(2) here False run show ?thesis
  proof (cases rule: reconcile_halves)
    case (threw e)
    with kept show ?thesis by fastforce
  next
    case (went_on u declared waiting d0)
    have after: "guarded L view (store s')" "loses_nothing ms view u s'"
      using fill_and_clear_lossless [OF laws libs peers(1) went_on(1,2)] went_on(6) unfolding lossless_def by blast+
    then have same: "handles (store s') = handles (store u)" "tables (store s') = tables (store u)"
      by (simp_all add: loses_nothing_def same_place_def)
    have "view (database (store u)) t \<noteq> None" if "view (database (store s')) t \<noteq> None" for t
      using guarded_families [OF went_on(1) after(1) same(1)] that by (metis domIff)
    with kept [OF went_on(3)] after same_members_same(3) [OF went_on(4)] same(2) went_on(2) show ?thesis
      unfolding loses_nothing_def by metis
  qed
qed


text \<open>A node of two whose other node does not answer: it keeps what it has.\<close>

definition stays_put :: "('s, 'a) run \<Rightarrow> 's \<Rightarrow> bool" where
  "stays_put m s = (\<exists>a. m s = Some (Inr a, s))"

lemma stays_put_chain: "stays_put m s \<Longrightarrow> (\<And>a. stays_put (f a) s) \<Longrightarrow> stays_put (chain m f) s"
  by (fastforce simp: stays_put_def chain_def)

lemma stays_put_ret [simp]: "stays_put (run_of (ret a)) s"
  by (simp add: stays_put_def run_of_def)

lemma quiet_refuses: "rs_status (fst (forward L quiet_net node req ())) \<noteq> 200"
  by (simp add: forward_def quiet_net_def to_response_def error_response_def Let_def response_defs)

lemma quiet_walk:
  "stays_put (walk_run (Suc (Suc fuel)) schedule L quiet_net (\<lambda>_. False) wanted handle_file waiting) s"
proof -
  have unit: "with_wire () s = s" by (simp add: with_wire_def)
  have points: "asked_points L quiet_net wanted () = ([], ())"
    using quiet_refuses [of L "ts_node wanted" "split_request wanted"] by (simp add: asked_points_def Let_def case_prod_unfold)
  let ?bytes = "max (ts_bytes wanted) 1"
  let ?k = "\<lparr>wk_pieces = [new_piece], wk_files = [[]], wk_waiting = waiting\<rparr>"
  obtain k where rounds: "ask_rounds (Suc (Suc fuel)) L quiet_net (\<lambda>_. False) wanted ?bytes ?k () = Some (k, ())" "concat (wk_files k) = []"
  proof -
    let ?k' = "\<lparr>wk_pieces = [new_piece\<lparr>pc_going := False, pc_refused := True\<rparr>], wk_files = [[]], wk_waiting = renew quiet_net waiting ()\<rparr>"
    have "still_going ?k = [0]" "still_going ?k' = []" by (simp_all add: still_going_def new_piece_def)
    moreover have "ask_round L quiet_net wanted ?bytes [0] ?k () = (?k', ())"
      by (simp add: ask_round_def forward_each_def quiet_net_def carry_to_def carry_def to_response_def error_response_def response_defs Let_def)
    ultimately show thesis
      using that [of ?k] that [of ?k'] by (cases "spent quiet_net waiting ()") simp_all
  qed
  have "interleave schedule (wk_files k) = []" using rounds(2) set_interleave [of schedule "wk_files k"] by (metis empty_set set_empty)
  with rounds(1) points unit show ?thesis
    by (simp add: stays_put_def walk_run_def walk_share_def pieces_of_def Let_def del: ask_rounds.simps)
qed

lemma quiet_fetches: "stays_put (fetch_all (Suc (Suc fuel)) schedules L R quiet_net (\<lambda>_. False) workers asks f) s"
proof (induction asks arbitrary: f)
  case (Cons ask asks)
  obtain t node partitions where ask: "ask = (t, node, partitions)" by (cases ask) auto
  show ?case
    unfolding ask fetch_all.simps fetch_from_def
    by (intro stays_put_chain quiet_walk stays_put_ret) (auto split: prod.splits intro: Cons)
qed simp

lemma quiet_clears:
  "stays_put (clear_from (Suc (Suc fuel)) schedules L R quiet_net (\<lambda>_. False) t workers elsewhere waiting finished n) s"
proof (induction elsewhere arbitrary: waiting finished n)
  case (Cons e elsewhere)
  obtain node partitions where e: "e = (node, partitions)" by (cases e) auto
  show ?case unfolding e clear_from.simps by (intro stays_put_chain quiet_walk Cons)
qed simp

definition kept_value :: string where
  "kept_value = compose_value (stamp_of 0 1) ''v''"

lemma kept_term: "v_term (version_of kept_value) = 0"
  by (simp add: kept_value_def version_of_compose in_int64_def)

definition keeper :: "(mem_db, unit) router" where
  "keeper =
     \<lparr>store = example_repo\<lparr>database := [(''default'', []), (''orders'', [(store_key ''k'', kept_value)])]\<rparr>,
      nodes = example_cluster\<lparr>member_list := [\<lparr>m_node = ''n1'', m_zone = ''z1''\<rparr>, \<lparr>m_node = ''n2'', m_zone = ''z2''\<rparr>]\<rparr>,
      draining = False\<rparr>"

lemma keeper_scans:
  assumes "r_limit r \<noteq> 0"
  shows "\<exists>page. on_store (scan_records mem_rocksdb ''orders'' r) keeper = (Inr page, keeper) \<and> \<not> p_has_more page"
proof -
  have one: "filter P [(store_key ''k'', kept_value)] = [] \<or> filter P [(store_key ''k'', kept_value)] = [(store_key ''k'', kept_value)]" for P
    by simp
  let ?in = "\<lambda>lo hi. filter (\<lambda>(k, v). lo \<le> k \<and> k < hi) [(store_key ''k'', kept_value)]"
  have it: "rdb_iterate mem_rocksdb (database (store keeper)) ''orders'' lo hi b = (?in lo hi, Ok_status)" for lo hi b
    by (simp add: mem_rocksdb_def keeper_def Let_def in_order_def)
  have page: "\<exists>page. scan_entries r (?in lo hi) [] 0 = (page, False) \<and> \<not> p_has_more page" for lo hi
    using assms by simp
  have h: "map_of (handles (store keeper)) ''orders'' = Some ''orders''" by (simp add: keeper_def example_repo_def)
  let ?pre = "partition_prefix (r_partition r)"
  obtain page where "scan_entries r (?in (if r_has_from r then ?pre @ r_from r else ?pre)
      (if r_has_to r then ?pre @ r_to r else partition_prefix (r_partition r + 1))) [] 0 = (page, False)" "\<not> p_has_more page"
    using page by blast
  then show ?thesis
    using h by (simp add: on_store_def scan_records_def Let_def andthen_app table_handle_def it check_def)
qed

lemma keeper_walks:
  "stays_put (walk_partitions (Suc fuel) mem_rocksdb quiet_net (\<lambda>_. False) ''orders'' 1000 owned parts waiting found) keeper"
proof (induction parts arbitrary: waiting found)
  case (Cons p parts)
  have "stays_put (walk_partition (Suc fuel) mem_rocksdb quiet_net (\<lambda>_. False) where_to ''orders''
      (default_range\<lparr>r_partition := p, r_limit := 1000, r_values := False\<rparr>) waiting found) keeper" for where_to
    using keeper_scans [of "default_range\<lparr>r_partition := p, r_limit := 1000, r_values := False\<rparr>"]
    by (auto simp: stays_put_def chain_def run_of_def Let_def)
  then have "stays_put (chain (walk_partition (Suc fuel) mem_rocksdb quiet_net (\<lambda>_. False) where_to ''orders''
        (default_range\<lparr>r_partition := p, r_limit := 1000, r_values := False\<rparr>) waiting found)
      (\<lambda>(read_all, waiting, found). if \<not> read_all then run_of (ret (waiting, found))
         else walk_partitions (Suc fuel) mem_rocksdb quiet_net (\<lambda>_. False) ''orders'' 1000 owned parts waiting found)) keeper" for where_to
    by (rule stays_put_chain) (auto split: prod.splits intro: Cons)
  with Cons show ?case by (simp add: stays_put_def)
qed simp

lemma keeper_clears:
  "stays_put (clear_table (Suc (Suc fuel)) schedules L mem_rocksdb quiet_net (\<lambda>_. False) ''orders'' 1000 1 waiting) keeper"
proof -
  have "stays_put (walk_table (Suc (Suc fuel)) mem_rocksdb quiet_net (\<lambda>_. False) ''orders'' 1000 waiting) keeper"
    using keeper_walks by (simp add: stays_put_def walk_table_def)
  then show ?thesis
    unfolding clear_table_def
    by (rule stays_put_chain) (auto split: prod.splits intro!: stays_put_chain quiet_clears)
qed

lemma keeper_declares: "stays_put (run_of (declare_tables L R quiet_net zone_list waiting)) s"
proof (induction zone_list arbitrary: waiting)
  case (Cons zone zone_list)
  have none: "tables_of L quiet_net zone waiting () = ((None, waiting), ())"
    using quiet_refuses by (induction zone) (auto simp: Let_def case_prod_unfold)
  have "on_wire (tables_of L quiet_net zone waiting) s = (Inr (None, waiting), s)"
    by (simp add: on_wire_def on_nodes_def none)
  with Cons show ?case by (simp add: stays_put_def run_of_def andthen_app)
qed simp

lemma keeper_fills:
  "\<exists>d'. fill_share (Suc (Suc fuel)) schedules L R quiet_net (\<lambda>_. False) workers waiting declared d s =
     Some (Inr (d', list_tables (store s)), s)"
proof -
  let ?asks = "concat (map (\<lambda>t. map (\<lambda>(node, partitions). (t_name t, node, partitions))
      (holders (nodes s) (holdings (nodes s)))) (list_tables (store s)))"
  obtain f where "fetch_all (Suc (Suc fuel)) schedules L R quiet_net (\<lambda>_. False) workers ?asks
      \<lparr>fg_fetched = 0, fg_unfilled = 0, fg_finished = True, fg_refused = False, fg_waiting = waiting\<rparr> s = Some (Inr f, s)"
    using quiet_fetches unfolding stays_put_def by blast
  then show ?thesis by (simp add: fill_share_def Let_def chain_def run_of_def)
qed

lemma keeper_passes:
  "stays_put (reconcile (Suc (Suc fuel)) (\<lambda>_ _. []) L mem_rocksdb quiet_net (\<lambda>_. False) 1000 30 1) keeper"
proof -
  have tables: "list_tables (store keeper) = [table_of ''orders'' []]"
    by (simp add: keeper_def example_repo_def list_tables_def schema_tables_def)
  have clears: "stays_put (clear_all (Suc (Suc fuel)) (\<lambda>_ _. []) L mem_rocksdb quiet_net (\<lambda>_. False) 1000 1 [table_of ''orders'' []] waiting d) keeper"
    for waiting d
    by (auto intro!: stays_put_chain keeper_clears [unfolded One_nat_def] split: prod.splits)
  have "stays_put (chain (fill_share (Suc (Suc fuel)) (\<lambda>_ _. []) L mem_rocksdb quiet_net (\<lambda>_. False) 1 waiting declared d)
      (\<lambda>(d, ts) s. clear_all (Suc (Suc fuel)) (\<lambda>_ _. []) L mem_rocksdb quiet_net (\<lambda>_. False) 1000 1 ts
         (patience_of quiet_net 30 (network (nodes s))) d s)) keeper" for waiting declared d
    using keeper_fills [of fuel "\<lambda>_ _. []" L mem_rocksdb 1 waiting declared d keeper] clears
    by (auto simp: stays_put_def chain_def tables)
  then have "stays_put (chain (run_of (declare_tables L mem_rocksdb quiet_net (zones (nodes keeper)) waiting))
      (\<lambda>(declared, waiting). chain (fill_share (Suc (Suc fuel)) (\<lambda>_ _. []) L mem_rocksdb quiet_net (\<lambda>_. False) 1 waiting declared d)
        (\<lambda>(d, ts) s. clear_all (Suc (Suc fuel)) (\<lambda>_ _. []) L mem_rocksdb quiet_net (\<lambda>_. False) 1000 1 ts
           (patience_of quiet_net 30 (network (nodes s))) d s))) keeper" for waiting d
    by (intro stays_put_chain keeper_declares) (auto split: prod.splits)
  then show ?thesis
    by (simp add: stays_put_def reconcile_def Let_def run_of_def)
qed

lemma keeper_facts:
  "\<exists>d. reconcile 2 (\<lambda>_ _. []) coding_libs mem_rocksdb quiet_net (\<lambda>_. False) 1000 30 1 keeper = Some (Inr d, keeper)"
  "nodes_send coding_libs mem_rocksdb mem_view quiet_net (\<lambda>_ _. Map.empty)" "schemas_ok coding_libs quiet_net"
  "guarded coding_libs mem_view (store keeper)" "names_ok (tables (store keeper))"
  "mem_view (database (store keeper)) ''orders'' \<noteq> None" "stored_at mem_view (store keeper) ''orders'' ''k'' = Some kept_value"
proof -
  show "\<exists>d. reconcile 2 (\<lambda>_ _. []) coding_libs mem_rocksdb quiet_net (\<lambda>_. False) 1000 30 1 keeper = Some (Inr d, keeper)"
    using keeper_passes [of 0 coding_libs] by (auto simp: stays_put_def numeral_2_eq_2)
  have "sends_shares coding_libs mem_rocksdb mem_view quiet_net node t Map.empty" for node t
    by (auto simp: sends_shares_def quiet_net_def list.rel_map intro!: list.rel_refl_strong)
  then show "nodes_send coding_libs mem_rocksdb mem_view quiet_net (\<lambda>_ _. Map.empty)" by (simp add: nodes_send_def)
  have "tables_of coding_libs quiet_net zone waiting () = ((None, waiting), ())" for zone waiting
    using quiet_refuses by (induction zone) (auto simp: Let_def case_prod_unfold)
  then show "schemas_ok coding_libs quiet_net" by (simp add: schemas_ok_def)
  show "guarded coding_libs mem_view (store keeper)"
    by (auto simp: guarded_def repo_ok_def fenced_def keeper_def kept_term example_repo_def mem_view_def disk_term_def disk_number_def
        default_family_def split: if_splits)
  show "names_ok (tables (store keeper))"
    by (simp add: keeper_def example_repo_def names_ok_def no_default_def default_family_def)
  show "mem_view (database (store keeper)) ''orders'' \<noteq> None" "stored_at mem_view (store keeper) ''orders'' ''k'' = Some kept_value"
    by (simp_all add: keeper_def mem_view_def stored_at_def record_at_def)
qed


end
