(* ===== verification/Filling.thy ===== *)
theory Filling
  imports Pass_Safety
begin

text \<open>
  What a pass of \<^verbatim>\<open>src/reconcile/reconcile.cpp\<close> says it filled, which is what the node vouches for: the records of the
  nodes that were to be asked are all here when it is over.
\<close>

section \<open>Filling and what comes after\<close>

text \<open>What a fetch of every share leaves unfilled says which partitions may miss something that was asked for.\<close>

lemma fetch_all_fills:
  assumes "rocksdb_laws R view contents" and "reads_answer R" and "numbers_ok L" and "sizes_ok L" and "escapes L" and "plain_stays L"
    and peers: "nodes_send L R view N ms" and "guarded L view (store s)" and "\<forall>(t, _) \<in> set asks. t \<noteq> default_family"
    and "fetch_all fuel schedules L R N stop_requested workers asks f s = Some (Inr f', s')"
  shows "(\<forall>p < partition_count. has (fg_unfilled f) p \<longrightarrow> has (fg_unfilled f') p) \<and> rises view (store s) (store s') \<and>
    (\<forall>(t, node, partitions) \<in> set asks. \<forall>key v. has partitions (partition_of key) \<longrightarrow> \<not> has (fg_unfilled f') (partition_of key) \<longrightarrow>
       ms node t (store_key key) = Some v \<longrightarrow> (\<exists>h. stored_at view (store s') t key = Some h \<and> \<not> is_newer v h))"
  using assms(8-10)
proof (induction asks arbitrary: f s)
  case (Cons ask asks)
  obtain t node partitions where ask: "ask = (t, node, partitions)" by (cases ask) auto
  have t: "t \<noteq> default_family" using Cons.prems(2) ask by auto
  obtain d left u where one: "fetch_from fuel schedules L R N stop_requested node t partitions workers (fg_waiting f) s = Some (Inr (d, left), u)"
    and rest: "fetch_all fuel schedules L R N stop_requested workers asks
      (f\<lparr>fg_fetched := fg_fetched f + oc_fetched d, fg_unfilled := fg_unfilled f OR (partitions AND NOT (oc_filled d)),
         fg_finished := (oc_finished d \<and> fg_finished f), fg_refused := (oc_refused d \<or> fg_refused f), fg_waiting := left\<rparr>) u = Some (Inr f', s')"
    using Cons.prems(3) unfolding ask fetch_all.simps by (auto simp: chain_def split: option.splits sum.splits)
  have peer: "sends_shares L R view N node t (ms node t)" "finite (dom (ms node t))" "card (dom (ms node t)) < 2 ^ 64"
    using peers by (simp_all add: nodes_send_def)
  note brought = fetch_from_brings [OF assms(1-6) peer Cons.prems(1) t one]
  have "\<forall>(t, _) \<in> set asks. t \<noteq> default_family" using Cons.prems(2) by simp
  from Cons.IH [OF _ this rest] brought
  have later: "\<forall>p < partition_count. has (fg_unfilled f OR (partitions AND NOT (oc_filled d))) p \<longrightarrow> has (fg_unfilled f') p"
      "rises view (store u) (store s')"
    and others: "\<forall>(t, node, partitions) \<in> set asks. \<forall>key v. has partitions (partition_of key) \<longrightarrow> \<not> has (fg_unfilled f') (partition_of key) \<longrightarrow>
       ms node t (store_key key) = Some v \<longrightarrow> (\<exists>h. stored_at view (store s') t key = Some h \<and> \<not> is_newer v h)"
    by simp_all
  have bits: "has (fg_unfilled f') p" if "p < partition_count" "has (fg_unfilled f) p \<or> has partitions p \<and> \<not> has (oc_filled d) p" for p
    using later(1) that by (auto simp: bit_simps partition_count_def)
  have "\<exists>h. stored_at view (store s') t key = Some h \<and> \<not> is_newer v h"
    if k: "has partitions (partition_of key)" "\<not> has (fg_unfilled f') (partition_of key)" "ms node t (store_key key) = Some v" for key v
  proof -
    have "has (oc_filled d) (partition_of key)" using bits [of "partition_of key"] k(1,2) by auto
    with brought k(3) obtain h where "stored_at view (store u) t key = Some h" "\<not> is_newer v h" by blast
    with later(2) not_newer_trans show ?thesis unfolding rises_def by blast
  qed
  with others bits later(2) brought rises_trans show ?case unfolding ask by auto
qed (auto simp: run_of_def rises_refl)

lemma clear_all_filled:
  "clear_all fuel schedules L R N stop_requested page_size workers declarations waiting d s = Some (Inr d', s') \<Longrightarrow> oc_filled d' = oc_filled d"
proof (induction declarations arbitrary: waiting d s)
  case (Cons t declarations)
  obtain given :: reconcile_outcome and left u where "clear_all fuel schedules L R N stop_requested page_size workers declarations left
      (d\<lparr>oc_cleared := oc_cleared d + oc_cleared given, oc_deferred := oc_deferred d + oc_deferred given,
         oc_finished := (oc_finished given \<and> oc_finished d)\<rparr>) u = Some (Inr d', s')"
    using Cons.prems by (auto simp: chain_def split: option.splits sum.splits)
  from Cons.IH [OF this] show ?case by simp
qed (simp add: run_of_def)

lemma fill_share_fills:
  assumes "rocksdb_laws R view contents" and "reads_answer R" and "numbers_ok L" and "sizes_ok L" and "escapes L" and "plain_stays L"
    and "nodes_send L R view N ms" and "guarded L view (store s)" and "names_ok (tables (store s))"
    and run: "fill_share fuel schedules L R N stop_requested workers waiting declared d s = Some (Inr (d', ts), s')"
    and filled: "has (oc_filled d') p" "\<not> has (oc_filled d) p" "p = partition_of key"
    and ask: "t \<in> set (list_tables (store s))" "(node, partitions) \<in> set (holders (nodes s) (holdings (nodes s)))" "has partitions p"
    and there: "ms node (t_name t) (store_key key) = Some v"
  shows "has (holdings (nodes s)) p \<and> (\<exists>h. stored_at view (store s') (t_name t) key = Some h \<and> \<not> is_newer v h)"
proof -
  let ?asks = "concat (map (\<lambda>t. map (\<lambda>(node, partitions). (t_name t, node, partitions)) (holders (nodes s) (holdings (nodes s)))) (list_tables (store s)))"
  obtain f where fetch: "fetch_all fuel schedules L R N stop_requested workers ?asks
      \<lparr>fg_fetched = 0, fg_unfilled = 0, fg_finished = True, fg_refused = False, fg_waiting = waiting\<rparr> s = Some (Inr f, s')"
    and d': "oc_filled d' = (if declared \<noteq> None then holdings (nodes s) AND NOT (fg_unfilled f) else oc_filled d)"
    using run by (auto simp: fill_share_def Let_def chain_def run_of_def split: option.splits sum.splits)
  have bits: "has (holdings (nodes s)) p" "\<not> has (fg_unfilled f) p"
    using filled d' by (auto simp: bit_simps split: if_splits)
  have "\<forall>(t, _) \<in> set ?asks. t \<noteq> default_family"
    using table_names [OF assms(9)] by (auto simp: list_tables_def)
  moreover have "(t_name t, node, partitions) \<in> set ?asks" using ask(1,2) by force
  ultimately show ?thesis
    using fetch_all_fills [OF assms(1-8) _ fetch] bits ask(3) filled(3) there by blast
qed

section \<open>The property of filling\<close>

text \<open>
  C6. What a pass calls filled is whole. A partition that a pass says it filled, which is what the node vouches for,
  is one the node holds, and of every table there is and every node that was to be asked for the partition, all
  records of it are here when the pass is over, at least as late as that node has them.
\<close>

theorem a_filled_partition_is_whole:
  assumes laws: "rocksdb_laws R view contents" "reads_answer R" "numbers_ok L" and libs: "sizes_ok L" "escapes L" "plain_stays L"
    and peers: "nodes_send L R view N ms" "schemas_ok L N" and here: "guarded L view (store s)" "names_ok (tables (store s))"
    and run: "zones (nodes s) \<noteq> []" "reconcile fuel schedules L R N stop_requested page_size secs workers s = Some (Inr d, s')"
    and filled: "has (oc_filled d) (partition_of key)"
    and ask: "(node, partitions) \<in> set (holders (nodes s) (holdings (nodes s)))" "has partitions (partition_of key)"
    and t: "t \<in> set (list_tables (store s'))" and there: "ms node (t_name t) (store_key key) = Some v"
  shows "has (holdings (nodes s)) (partition_of key) \<and>
    (\<exists>h. stored_at view (store s') (t_name t) key = Some h \<and> \<not> is_newer v h)"
  using laws(1) peers(2) here run
proof (cases rule: reconcile_halves)
  case (went_on u declared waiting d0)
  note same = same_members_same [OF went_on(4)]
  obtain d1 ts x where fill: "fill_share fuel schedules L R N stop_requested workers waiting declared d0 u = Some (Inr (d1, ts), x)"
    and clear: "clear_all fuel schedules L R N stop_requested page_size workers ts (patience_of N secs (network (nodes x))) d1 x = Some (Inr d, s')"
    using went_on(6) by (auto simp: chain_def split: option.splits sum.splits)
  have place: "same_place u s'"
    using fill_and_clear_lossless [OF laws libs peers(1) went_on(1,2)] went_on(6) unfolding lossless_def loses_nothing_def by blast
  have x: "guarded L view (store x)" "same_place u x"
    using fill_share_lossless [OF laws libs peers(1) went_on(1,2)] fill unfolding lossless_def loses_nothing_def by blast+
  have "ts = list_tables (store u)"
    using fill by (auto simp: fill_share_def Let_def chain_def run_of_def split: option.splits sum.splits)
  then have names: "\<forall>t \<in> set ts. t_name t \<noteq> default_family"
    using table_names [OF went_on(2)] by (simp add: list_tables_def)
  have "list_tables (store s') = list_tables (store u)" using place by (simp add: list_tables_def same_place_def)
  moreover have "has (oc_filled d1) (partition_of key)" using filled clear_all_filled [OF clear] by simp
  ultimately have full: "has (holdings (nodes s)) (partition_of key)"
      "\<exists>h. stored_at view (store x) (t_name t) key = Some h \<and> \<not> is_newer v h"
    using fill_share_fills [OF laws libs peers(1) went_on(1,2) fill, of "partition_of key" key t node partitions v] went_on(5) ask t there same
    by simp_all
  have "loses_nothing ms view x s'"
    using clear_all_lossless [OF laws(1,2) libs peers(1) names x(1)] clear unfolding lossless_def by blast
  moreover have "\<not> with_owner ms (nodes x) (t_name t) key h" for h
    using full(1) same(2) same_place_copies(2) [OF x(2)] by (simp add: with_owner_def)
  ultimately show ?thesis using full not_newer_trans unfolding loses_nothing_def by blast
qed simp

text \<open>
  A node that joined, with nothing of its own, beside a node that has one record and owns every partition of its zone.
\<close>

definition filling_net :: "unit net" where
  "filling_net =
     share_net\<lparr>net_send := (\<lambda>q t w.
       (Inr (no_answer\<lparr>a_status := 200, a_content_type := json_content_type, a_body := ''document''\<rparr>), w))\<rparr>"

definition joined :: "(mem_db, unit) router" where
  "joined =
     \<lparr>store = example_repo,
      nodes = example_cluster\<lparr>member_list := [member_of ''n1'' ''z1'', member_of ''n2'' ''z2''], holding := - 1\<rparr>,
      draining = False\<rparr>"

lemma joined_zones: "zones_of [member_of ''n1'' ''z1'', member_of ''n2'' ''z2''] ''n1'' ''z1'' = [[], [''n2'']]"
  by (simp add: zones_of_def zone_push_def)

lemma one_owner: "owner_of key [''n2''] = ''n2''"
  by (simp add: owner_of_def)

lemma joined_holders: "holders (nodes joined) (holdings (nodes joined)) = [(''n2'', - 1)]"
proof -
  have more: "\<exists>q'. fold (ask_owner (- 1) [''n2'']) ps [(''n2'', q)] = [(''n2'', q')]" for ps q
    by (induction ps arbitrary: q) (auto simp: ask_owner_def hold_partition_def one_owner)
  have split: "[0..<partition_count] = 0 # [Suc 0..<partition_count]" by (rule upt_conv_Cons) (simp add: partition_count_def)
  have "ask_owner (- 1) [''n2''] 0 [] = [(''n2'', set_bit 0 0)]" by (simp add: ask_owner_def hold_partition_def one_owner)
  then have "holders_in (- 1) [''n2''] = fold (ask_owner (- 1) [''n2'']) [Suc 0..<partition_count] [(''n2'', set_bit 0 0)]"
    unfolding holders_in_ask split by simp
  then obtain q where q: "holders_in (- 1) [''n2''] = [(''n2'', q)]"
    using more [of "[Suc 0..<partition_count]" "set_bit 0 0"] by auto
  have "has q p = (p < partition_count)" for p
    using held_holders_in [of "- 1" "[''n2'']" "''n2''" p] unfolding q
    by (auto simp: held_def share_in_def one_owner partition_count_def)
  then have "q = - 1" by (intro bit_eqI) (simp add: partition_count_def)
  moreover have "holders_in (- 1) [] = []"
  proof -
    have "fold (ask_owner (- 1) []) ps [] = []" for ps by (induction ps) (simp_all add: ask_owner_def)
    then show ?thesis by (simp add: holders_in_ask)
  qed
  ultimately show ?thesis
    using q by (simp add: holders_def joined_def holdings_def example_cluster_def etcd_cluster_of_def holders_of_def joined_zones join_holders_def)
qed

abbreviation slashes :: "string \<Rightarrow> string" where
  "slashes s \<equiv> filter (\<lambda>c. c = CHR ''/'') s"

lemma slashes_none: "CHR ''/'' \<notin> set s \<Longrightarrow> slashes s = []"
  by (auto simp: filter_empty_conv)

lemma up_to_slash: "CHR ''/'' \<notin> set s \<Longrightarrow> takeWhile (\<lambda>c. c \<noteq> CHR ''/'') (s @ CHR ''/'' # t) = s"
  by (induction s) auto

lemma query_plain: "CHR ''/'' \<notin> set (rq_query asked_of_peer)"
proof -
  have "CHR ''/'' \<notin> set (encode_partitions ps)" for ps
    using encode_from_chars [of partition_count 64 ps] by (auto simp: encode_partitions_def partition_count_def hex_digits_def)
  moreover have "CHR ''/'' \<notin> set (to_string n)" for n
    using to_string_digits [of n] by (auto simp: list_all_iff)
  ultimately show ?thesis
    by (simp add: asked_of_peer_def file_request_def get_request_def new_piece_def share_wanted_def)
qed

text \<open>The request that is answered is a request for that table, to that node.\<close>

lemma asked_only:
  assumes "forwarded_to coding_libs node req = forwarded_to coding_libs ''n2'' asked_of_peer"
    and "rq_path req = [''table'', t, ''file'']"
  shows "node = ''n2'' \<and> t = ''orders''"
proof -
  have plain: "CHR ''/'' \<notin> set (mask t)" using unmask_mask [of t] by auto
  let ?tail = "if rq_query req \<noteq> [] then ''?'' @ rq_query req else []"
  let ?asked = "''file?'' @ rq_query asked_of_peer"
  have path: "rq_path asked_of_peer = [''table'', ''orders'', ''file'']" and named: "rq_query asked_of_peer \<noteq> []"
    by (simp_all add: asked_of_peer_def file_request_def get_request_def share_wanted_def)
  have "target coding_libs node req = target coding_libs ''n2'' asked_of_peer"
    using assms(1) by (simp add: forwarded_to_def)
  moreover have "target coding_libs node req = node @ ''/table/'' @ mask t @ ''/file'' @ ?tail"
    using assms(2) by (simp add: target_def coding_libs_def encode_url_def)
  moreover have "target coding_libs ''n2'' asked_of_peer = ''n2/table/orders/'' @ ?asked"
    using path named by (simp add: target_def coding_libs_def encode_url_def)
  ultimately have same: "node @ ''/table/'' @ mask t @ ''/file'' @ ?tail = ''n2/table/orders/'' @ ?asked" by simp
  have "length (slashes (node @ ''/table/'' @ mask t @ ''/file'' @ ?tail)) = 3"
    unfolding same using slashes_none [OF query_plain] by simp
  then have "slashes node = []" by simp
  then have "CHR ''/'' \<notin> set node" by (auto simp: filter_empty_conv)
  with same up_to_slash [of node "''table/'' @ mask t @ ''/file'' @ ?tail"] have node: "node = ''n2''" by simp
  with same up_to_slash [OF plain, of "''file'' @ ?tail"] have "mask t = ''orders''" by simp
  then have "t = unmask ''orders''" using unmask_mask [of t] by metis
  with node show ?thesis by simp
qed

definition peer_tables :: "string \<Rightarrow> string \<Rightarrow> family_view" where
  "peer_tables node t = (if node = ''n2'' \<and> t = ''orders'' then [store_key ''k'' \<mapsto> peer_record] else Map.empty)"

lemma filling_sends: "nodes_send coding_libs mem_rocksdb mem_view filling_net peer_tables"
proof -
  have "sends_shares coding_libs mem_rocksdb mem_view filling_net node t (peer_tables node t)" for node t
  proof (cases "node = ''n2'' \<and> t = ''orders''")
    case True
    with peer_sends show ?thesis by (simp add: peer_tables_def sends_shares_def filling_net_def)
  next
    case False
    then have "\<not> (forwarded_to coding_libs node req = forwarded_to coding_libs ''n2'' asked_of_peer \<and> rq_path req = [''table'', t, ''file''])" for req
      using asked_only by blast
    then show ?thesis
      by (auto simp: sends_shares_def filling_net_def share_net_def list.rel_map intro!: list.rel_refl_strong)
  qed
  then show ?thesis by (simp add: nodes_send_def peer_tables_def)
qed

lemma filling_answers:
  "forward coding_libs filling_net node schema_request () =
     ((json_response 200 [(''schema'', Jarray [])])\<lparr>rs_file := transfer_of coding_libs
        (no_answer\<lparr>a_status := 200, a_content_type := json_content_type, a_body := ''document''\<rparr>)\<rparr>, ())"
  by (simp add: forward_def filling_net_def to_response_def body_of_def schema_request_def get_request_def is_head_def status_of_def
      json_content_type_def Let_def parse_object_def coding_libs_def example_libs_def)

lemma nothing_declared: "to_schema coding_libs (json_serialize coding_libs doc) = []"
  by (simp add: to_schema_def parse_object_def coding_libs_def example_libs_def)

lemma filling_names:
  "tables_of coding_libs filling_net (node # zone) waiting () =
     (if spent filling_net waiting () then ((None, waiting), ()) else ((Some [], renew filling_net waiting ()), ()))"
  by (simp add: filling_answers nothing_declared json_response_def)

lemma filling_schemas: "schemas_ok coding_libs filling_net"
proof -
  have "named = []" if "tables_of coding_libs filling_net zone waiting () = ((Some named, left), ())" for zone waiting named left
    using that filling_names by (cases zone) (auto split: if_splits)
  moreover have "map_ok []" "names_ok []" by (simp_all add: names_ok_def no_default_def)
  ultimately show ?thesis unfolding schemas_ok_def by (metis old.unit.exhaust)
qed

lemma on_wire_unit: "on_wire f s = (Inr (fst (f ())), s :: ('db, unit) router)"
  by (simp add: on_wire_def on_nodes_def case_prod_unfold)

lemma filling_passes:
  "\<exists>d s'. reconcile 2 (\<lambda>_ _. []) coding_libs mem_rocksdb filling_net (\<lambda>_. False) 1000 30 1 joined = Some (Inr d, s') \<and>
     oc_filled d = - 1 \<and> list_tables (store s') = list_tables (store joined)"
proof -
  let ?sch = "\<lambda>_ _. [] :: nat list" and ?waiting = "patience_of filling_net 30 ()"
  have now: "net_now filling_net = (\<lambda>_. 0)" and all: "net_send_all filling_net = net_send_all share_net"
    by (simp_all add: filling_net_def share_net_def quiet_net_def)
  have waiting: "?waiting = \<lparr>without = 30000000000, expires = 30000000000\<rparr>" by (simp add: patience_of_def now seconds_def)
  have zones: "zones (nodes joined) = [[], [''n2'']]"
    by (simp add: zones_def joined_def example_cluster_def etcd_cluster_of_def joined_zones)
  have wire: "network (nodes joined) = ()" by simp
  define u where "u = joined\<lparr>store := (store joined)\<lparr>database := mem_op (Batch_put ''default'' schema_key
      (json_serialize coding_libs (Jobject (schema_to_json (tables (store joined)))))) (database (store joined))\<rparr>\<rparr>"
  have declared: "declare_tables coding_libs mem_rocksdb filling_net (zones (nodes joined)) ?waiting joined = (Inr (Some 0, ?waiting), u)"
  proof -
    have merged: "merge_schema coding_libs mem_rocksdb [] (store joined) = (Inr 0, store u)"
      by (simp add: merge_schema_def schema_merge_def andthen_app write_tables_def put_def written_def check_def u_def default_family_def
          split: option.split)
    have "on_store (merge_schema coding_libs mem_rocksdb []) joined = (Inr 0, u)"
      by (simp add: on_store_def merged) (simp add: u_def)
    moreover have "on_wire (tables_of coding_libs filling_net [''n2''] \<lparr>without = 30000000000, expires = 30000000000\<rparr>) joined =
        (Inr (Some [], \<lparr>without = 30000000000, expires = 30000000000\<rparr>), joined)"
      unfolding on_wire_unit filling_names by (simp add: spent_def renew_def now)
    ultimately show ?thesis
      unfolding zones waiting declare_tables.simps by (simp add: andthen_app on_wire_unit)
  qed
  have u: "nodes u = nodes joined" "list_tables (store u) = [table_of ''orders'' []]" "map_of (handles (store u)) ''orders'' = Some ''orders''"
      "map_of (database (store u)) ''orders'' \<noteq> None"
    by (simp_all add: u_def joined_def example_repo_def list_tables_def schema_tables_def)
  obtain d left s' where fetch: "fetch_from 2 ?sch coding_libs mem_rocksdb filling_net (\<lambda>_. False) ''n2'' ''orders'' (- 1) 1 ?waiting u = Some (Inr (d, left), s')"
      "oc_filled d = - 1"
    using fetched_whole [OF all now _ _ u(3,4), of ?waiting] waiting by auto
  have named: "guarded coding_libs mem_view (store u)" "''orders'' \<noteq> default_family"
  proof -
    have "guarded coding_libs mem_view (store joined)" "names_ok (tables (store joined))"
      using example_repo_guarded by (simp_all add: joined_def) (simp add: example_repo_def names_ok_def no_default_def default_family_def)
    from declare_tables_keeps [OF mem_rocksdb_laws filling_schemas this declared]
    show "guarded coding_libs mem_view (store u)" by blast
  qed (simp add: default_family_def)
  have few: "finite (dom [store_key ''k'' \<mapsto> peer_record])" "card (dom [store_key ''k'' \<mapsto> peer_record]) < 2 ^ 64" by simp_all
  have "sends_shares coding_libs mem_rocksdb mem_view filling_net ''n2'' ''orders'' [store_key ''k'' \<mapsto> peer_record]"
    using peer_sends by (simp add: sends_shares_def filling_net_def)
  from fetch_from_brings [OF mem_rocksdb_laws mem_reads_answer coding_libs_ok(4,1,2,3) this few named fetch(1)]
  have place: "same_place u s'" by blast
  have filled: "\<exists>d'. fill_share 2 ?sch coding_libs mem_rocksdb filling_net (\<lambda>_. False) 1 ?waiting (Some 0) d0 u = Some (Inr (d', [table_of ''orders'' []]), s') \<and>
      oc_filled d' = - 1" for d0
    using fetch joined_holders u(1,2)
    by (simp add: fill_share_def chain_def run_of_def Let_def) (simp add: joined_def holdings_def)
  have holds: "holdings (nodes s') = - 1" using same_place_copies(2) [OF place] u(1) by (simp add: joined_def holdings_def)
  have skip: "walk_partitions 2 mem_rocksdb filling_net (\<lambda>_. False) t 1000 (- 1) parts w found = run_of (ret (w, found\<lparr>ms_finished := True\<rparr>))"
    if "list_all (\<lambda>p. p < partition_count) parts" for t parts w found
    using that by (induction parts) (auto simp: partition_count_def)
  have walk: "walk_table 2 mem_rocksdb filling_net (\<lambda>_. False) t 1000 w s' =
      Some (Inr (w, \<lparr>ms_records = 0, ms_orphaned = 0, ms_finished = True, ms_elsewhere = []\<rparr>), s')" for t w
    using skip [of "[0..<partition_count]"] by (simp add: walk_table_def holds run_of_def list_all_iff)
  have clears: "\<exists>d'. clear_all 2 ?sch coding_libs mem_rocksdb filling_net (\<lambda>_. False) 1000 1 [t] w d s' = Some (Inr d', s')" for t w d
    by (simp add: clear_table_def chain_def walk run_of_def)
  obtain d1 where one: "fill_share 2 ?sch coding_libs mem_rocksdb filling_net (\<lambda>_. False) 1 ?waiting (Some 0)
      (no_outcome\<lparr>oc_generation := generation (nodes joined)\<rparr>) u = Some (Inr (d1, [table_of ''orders'' []]), s')" "oc_filled d1 = - 1"
    using filled by blast
  obtain d2 where two: "clear_all 2 ?sch coding_libs mem_rocksdb filling_net (\<lambda>_. False) 1000 1 [table_of ''orders'' []] ?waiting d1 s' = Some (Inr d2, s')"
    using clears by blast
  have "reconcile 2 ?sch coding_libs mem_rocksdb filling_net (\<lambda>_. False) 1000 30 1 joined = Some (Inr d2, s')"
    using declared one(1) two zones unfolding reconcile_def Let_def by (simp add: chain_def run_of_def)
  moreover have "list_tables (store s') = list_tables (store joined)"
    using place u(2) by (simp add: same_place_def list_tables_def joined_def example_repo_def schema_tables_def u_def)
  ultimately show ?thesis using clear_all_filled [OF two] one(2) by auto
qed

theorem a_filled_partition_is_whole_witness:
  "\<exists>d s'. reconcile 2 (\<lambda>_ _. []) coding_libs mem_rocksdb filling_net (\<lambda>_. False) 1000 30 1 joined = Some (Inr d, s') \<and>
     (\<exists>h. stored_at mem_view (store s') ''orders'' ''k'' = Some h \<and> \<not> is_newer peer_record h)"
proof -
  obtain d s' where run: "reconcile 2 (\<lambda>_ _. []) coding_libs mem_rocksdb filling_net (\<lambda>_. False) 1000 30 1 joined = Some (Inr d, s')"
      "oc_filled d = - 1" "list_tables (store s') = list_tables (store joined)"
    using filling_passes by blast
  have zones: "zones (nodes joined) \<noteq> []"
    by (simp add: zones_def joined_def example_cluster_def etcd_cluster_of_def joined_zones)
  have here: "guarded coding_libs mem_view (store joined)" "names_ok (tables (store joined))"
    using example_repo_guarded by (simp_all add: joined_def) (simp add: example_repo_def names_ok_def no_default_def default_family_def)
  have "has (- 1 :: partition_set) (partition_of ''k'')" using partition_of_lt [of "''k''"] by (simp add: partition_count_def)
  moreover have "(''n2'', - 1) \<in> set (holders (nodes joined) (holdings (nodes joined)))" by (simp add: joined_holders)
  moreover have "table_of ''orders'' [] \<in> set (list_tables (store s'))"
    unfolding run(3) by (simp add: joined_def example_repo_def list_tables_def schema_tables_def)
  moreover have "peer_tables ''n2'' (t_name (table_of ''orders'' [])) (store_key ''k'') = Some peer_record"
    by (simp add: peer_tables_def)
  ultimately have "\<exists>h. stored_at mem_view (store s') (t_name (table_of ''orders'' [])) ''k'' = Some h \<and> \<not> is_newer peer_record h"
    using a_filled_partition_is_whole [OF mem_rocksdb_laws mem_reads_answer coding_libs_ok(4,1,2,3) filling_sends filling_schemas here zones run(1)]
      run(2) by metis
  with run(1) show ?thesis by auto
qed

end
