(* ===== verification/Handoff.thy ===== *)
theory Handoff
  imports Share_Walk
begin

text \<open>
  The threads of a walk (\<^verbatim>\<open>walk\<close> and \<^verbatim>\<open>take_in\<close> of \<^verbatim>\<open>src/transfer/transfer.cpp\<close> over \<^verbatim>\<open>src/transfer/relay.cpp\<close>): one that
  asks and puts each file in the relay of its piece, and one for every piece that takes the files out. \<open>walk_share\<close>
  has them as \<open>interleave\<close>, an order of the files; here they are threads that wait for one another.
\<close>

section \<open>The threads\<close>

text \<open>What the asker has yet to put, in the order it gets to it, the relays, which takers ended, and the files taken.\<close>

record threads =
  th_todo :: "(nat \<times> string) list"
  th_relays :: "relay list"
  th_told :: "bool list"
  th_log :: "string list"

definition threads_of :: "nat \<Rightarrow> (nat \<times> string) list \<Rightarrow> threads" where
  "threads_of n todo = \<lparr>th_todo = todo, th_relays = replicate n empty_relay, th_told = replicate n False, th_log = []\<rparr>"

text \<open>The asker puts its files and then closes the relays one after the other; a taker takes until it is told there is no more.\<close>

inductive thread_step :: "threads \<Rightarrow> threads \<Rightarrow> bool" where
  put: "th_todo h = (i, f) # todo \<Longrightarrow> i < length (th_relays h) \<Longrightarrow> relay_put f (th_relays h ! i) = Some r \<Longrightarrow>
    thread_step h (h\<lparr>th_todo := todo, th_relays := (th_relays h)[i := r]\<rparr>)"
| close: "th_todo h = [] \<Longrightarrow> i < length (th_relays h) \<Longrightarrow> \<not> closed (th_relays h ! i) \<Longrightarrow> list_all closed (take i (th_relays h)) \<Longrightarrow>
    thread_step h (h\<lparr>th_relays := (th_relays h)[i := relay_close (th_relays h ! i)]\<rparr>)"
| take_file: "i < length (th_relays h) \<Longrightarrow> \<not> th_told h ! i \<Longrightarrow> relay_take (th_relays h ! i) = Some (Some f, r) \<Longrightarrow>
    thread_step h (h\<lparr>th_relays := (th_relays h)[i := r], th_log := th_log h @ [f]\<rparr>)"
| told: "i < length (th_relays h) \<Longrightarrow> \<not> th_told h ! i \<Longrightarrow> relay_take (th_relays h ! i) = Some (None, r) \<Longrightarrow>
    thread_step h (h\<lparr>th_relays := (th_relays h)[i := r], th_told := (th_told h)[i := True]\<rparr>)"

inductive_cases thread_stepE: "thread_step h h'"

definition queue_of :: "(nat \<times> string) list \<Rightarrow> nat \<Rightarrow> string list" where
  "queue_of todo i = map snd (filter (\<lambda>(j, f). j = i) todo)"

section \<open>Their invariant\<close>

text \<open>What is left of the files of each piece: the one in its relay and those the asker has yet to put.\<close>

definition left_of :: "threads \<Rightarrow> string list list" where
  "left_of h = map (\<lambda>i. (case slot (th_relays h ! i) of None \<Rightarrow> [] | Some f \<Rightarrow> [f]) @ queue_of (th_todo h) i) [0..<length (th_relays h)]"

definition rest_of :: "threads \<Rightarrow> nat" where
  "rest_of h = 2 * length (th_todo h) + length (filter (\<lambda>r. slot r \<noteq> None) (th_relays h)) +
     length (filter (\<lambda>r. \<not> closed r) (th_relays h)) + length (filter Not (th_told h))"

definition threads_ok :: "string list list \<Rightarrow> threads \<Rightarrow> bool" where
  "threads_ok queues h \<longleftrightarrow>
     length (th_relays h) = length queues \<and> length (th_told h) = length queues \<and>
     (\<forall>(i, _) \<in> set (th_todo h). i < length queues) \<and>
     (\<forall>i < length queues. closed (th_relays h ! i) \<longrightarrow> th_todo h = []) \<and>
     (\<forall>i < length queues. th_told h ! i \<longrightarrow> closed (th_relays h ! i) \<and> slot (th_relays h ! i) = None) \<and>
     (\<exists>schedule. \<forall>more_of. interleave (schedule @ more_of) queues = th_log h @ interleave more_of (left_of h))"

lemma relay_putD: "relay_put f r = Some r' \<Longrightarrow> slot r = None \<and> r' = r\<lparr>slot := Some f\<rparr>"
  by (auto simp: relay_put_def split: if_splits)

lemma relay_take_fileD: "relay_take r = Some (Some f, r') \<Longrightarrow> slot r = Some f \<and> r' = r\<lparr>slot := None\<rparr>"
  by (auto simp: relay_take_def split: if_splits option.splits)

lemma relay_take_endD: "relay_take r = Some (None, r') \<Longrightarrow> slot r = None \<and> closed r \<and> r' = r"
  by (auto simp: relay_take_def split: if_splits option.splits)

lemma length_filter_update:
  "i < length xs \<Longrightarrow> length (filter P (xs[i := x])) + (if P (xs ! i) then 1 else 0) = length (filter P xs) + (if P x then 1 else 0)"
proof (induction xs arbitrary: i)
  case (Cons y ys)
  then show ?case by (cases i) auto
qed simp

lemma thread_step_rest:
  assumes "thread_step h h'" and "length (th_told h) = length (th_relays h)"
  shows "Suc (rest_of h') = rest_of h"
  using assms(1)
proof cases
  case (put i f todo r)
  with relay_putD [OF put(4)] length_filter_update [OF put(3), of "\<lambda>r. slot r \<noteq> None" r] length_filter_update [OF put(3), of "\<lambda>r. \<not> closed r" r]
  show ?thesis by (simp add: rest_of_def)
next
  case (close i)
  with length_filter_update [OF close(3), of "\<lambda>r. slot r \<noteq> None" "relay_close (th_relays h ! i)"]
    length_filter_update [OF close(3), of "\<lambda>r. \<not> closed r" "relay_close (th_relays h ! i)"]
  show ?thesis by (simp add: rest_of_def relay_close_def)
next
  case (take_file i f r)
  with relay_take_fileD [OF take_file(4)] length_filter_update [OF take_file(2), of "\<lambda>r. slot r \<noteq> None" r]
    length_filter_update [OF take_file(2), of "\<lambda>r. \<not> closed r" r]
  show ?thesis by (simp add: rest_of_def)
next
  case (told i r)
  with relay_take_endD [OF told(4)] assms(2) length_filter_update [of i "th_told h" Not True]
  show ?thesis by (simp add: rest_of_def)
qed

lemma left_of_nth:
  "i < length (th_relays h) \<Longrightarrow>
     left_of h ! i = (case slot (th_relays h ! i) of None \<Rightarrow> [] | Some f \<Rightarrow> [f]) @ queue_of (th_todo h) i"
  by (simp add: left_of_def)

lemma length_left_of [simp]: "length (left_of h) = length (th_relays h)"
  by (simp add: left_of_def)

lemma thread_step_ok:
  assumes "thread_step h h'" and ok: "threads_ok queues h"
  shows "threads_ok queues h'"
  using assms(1)
proof cases
  case (put i f todo r)
  have "left_of h' = left_of h"
    using relay_putD [OF put(4)] put(1-3)
    by (intro nth_equalityI) (auto simp: left_of_nth nth_list_update queue_of_def)
  with ok put relay_putD [OF put(4)] show ?thesis
    by (auto simp: threads_ok_def nth_list_update)
next
  case (close i)
  have "left_of h' = left_of h"
    by (intro nth_equalityI) (auto simp: close left_of_nth nth_list_update relay_close_def)
  with ok close show ?thesis by (auto simp: threads_ok_def nth_list_update relay_close_def)
next
  case (take_file i f r)
  note r = relay_take_fileD [OF take_file(4)]
  define rest where "rest = queue_of (th_todo h) i"
  have left: "left_of h' = (left_of h)[i := rest]" "left_of h ! i = f # rest"
    using r take_file(1,2) by (auto simp: left_of_nth nth_list_update rest_def intro!: nth_equalityI)
  obtain schedule where s: "\<And>more_of. interleave (schedule @ more_of) queues = th_log h @ interleave more_of (left_of h)"
    using ok by (auto simp: threads_ok_def)
  have "interleave (i # more_of) (left_of h) = f # interleave more_of (left_of h')" for more_of
    using take_file(2) by (simp add: left)
  then have "interleave ((schedule @ [i]) @ more_of) queues = th_log h' @ interleave more_of (left_of h')" for more_of
    using s [of "i # more_of"] by (simp add: take_file(1))
  with ok take_file r show ?thesis
    unfolding threads_ok_def by (auto simp: nth_list_update intro!: exI [of _ "schedule @ [i]"])
next
  case (told i r)
  have "left_of h' = left_of h"
    using relay_take_endD [OF told(4)] by (intro nth_equalityI) (auto simp: told left_of_nth nth_list_update)
  with ok told relay_take_endD [OF told(4)] show ?thesis
    by (auto simp: threads_ok_def nth_list_update)
qed

lemma thread_not_stuck:
  assumes ok: "threads_ok queues h" and stuck: "\<nexists>h'. thread_step h h'"
  shows "th_todo h = [] \<and> list_all closed (th_relays h) \<and> list_all (\<lambda>r. slot r = None) (th_relays h) \<and> list_all id (th_told h)"
proof (intro conjI)
  have len: "length (th_relays h) = length queues" "length (th_told h) = length queues"
    and todo: "\<forall>(i, _) \<in> set (th_todo h). i < length queues"
    and ends: "\<forall>i < length queues. th_told h ! i \<longrightarrow> closed (th_relays h ! i) \<and> slot (th_relays h ! i) = None"
    using ok unfolding threads_ok_def by blast+
  have taken: "th_told h ! i \<or> slot (th_relays h ! i) = None \<and> \<not> closed (th_relays h ! i)" if "i < length queues" for i
  proof (rule ccontr)
    assume no: "\<not> ?thesis"
    let ?r = "th_relays h ! i"
    show False
    proof (cases "slot ?r")
      case None
      with no have "relay_take ?r = Some (None, ?r)" by (simp add: relay_take_def)
      with no stuck len that thread_step.told show False by metis
    next
      case (Some f)
      then have "relay_take ?r = Some (Some f, ?r\<lparr>slot := None\<rparr>)" by (simp add: relay_take_def)
      with no stuck len that thread_step.take_file show False by metis
    qed
  qed
  have empty: "slot (th_relays h ! i) = None" if "i < length queues" for i using taken [OF that] ends that by blast
  show none: "th_todo h = []"
  proof (rule ccontr)
    assume "th_todo h \<noteq> []"
    then obtain i f rest where t: "th_todo h = (i, f) # rest" by (metis list.exhaust surj_pair)
    with todo have i: "i < length queues" by auto
    with empty have "relay_put f (th_relays h ! i) = Some ((th_relays h ! i)\<lparr>slot := Some f\<rparr>)" by (simp add: relay_put_def)
    with t i len stuck thread_step.put show False by metis
  qed
  show all: "list_all closed (th_relays h)"
  proof (rule ccontr)
    assume "\<not> list_all closed (th_relays h)"
    then have ex: "\<exists>i. i < length queues \<and> \<not> closed (th_relays h ! i)" using len by (auto simp: list_all_length)
    define i where "i = (LEAST i. i < length queues \<and> \<not> closed (th_relays h ! i))"
    have i: "i < length queues" "\<not> closed (th_relays h ! i)" using LeastI_ex [OF ex] unfolding i_def by blast+
    have "closed (th_relays h ! j)" if "j < i" for j
      using not_less_Least [of j "\<lambda>i. i < length queues \<and> \<not> closed (th_relays h ! i)"] that i(1) unfolding i_def by auto
    then have "list_all closed (take i (th_relays h))" by (simp add: list_all_length)
    with none i len stuck thread_step.close show False by metis
  qed
  show "list_all (\<lambda>r. slot r = None) (th_relays h)" using empty len by (simp add: list_all_length)
  show "list_all id (th_told h)" using taken all len by (auto simp: list_all_length)
qed

lemma threads_of_ok:
  assumes "list_all (\<lambda>(i, f). i < n) todo"
  shows "threads_ok (map (queue_of todo) [0..<n]) (threads_of n todo)"
proof -
  have "left_of (threads_of n todo) = map (queue_of todo) [0..<n]"
    by (auto simp: left_of_def threads_of_def empty_relay_def)
  then show ?thesis
    using assms by (auto simp: threads_ok_def threads_of_def empty_relay_def list_all_iff intro!: exI [of _ "[]"])
qed

lemma rest_of_threads: "rest_of (threads_of n todo) = 2 * length todo + 2 * n"
  by (simp add: rest_of_def threads_of_def empty_relay_def)

section \<open>The property of the threads\<close>

lemma thread_steps:
  assumes "(thread_step ^^ k) h h'" and "threads_ok queues h"
  shows "threads_ok queues h' \<and> k + rest_of h' = rest_of h"
  using assms(1)
proof (induction k arbitrary: h')
  case (Suc k)
  then obtain u where u: "(thread_step ^^ k) h u" "thread_step u h'" by auto
  with Suc.IH have "threads_ok queues u" "k + rest_of u = rest_of h" by auto
  with thread_step_ok [OF u(2)] thread_step_rest [OF u(2)] show ?case by (auto simp: threads_ok_def)
qed (use assms(2) in auto)

text \<open>
  C17. The threads of a walk do what the walk says, and end. However the asker and the takers get on, they take at most
  two steps for every file and two for every piece, so they do not run for ever; where none of them can take
  another step every file was taken, every relay is closed and empty and every taker was told so, so none
  waits for another for ever; and the files were taken in an order of the model's walk, each piece's in its own.
\<close>

theorem the_threads_take_every_file:
  assumes "list_all (\<lambda>(i, f). i < n) todo" and "(thread_step ^^ k) (threads_of n todo) h"
  shows "k \<le> 2 * length todo + 2 * n \<and>
    ((\<nexists>h'. thread_step h h') \<longrightarrow>
       th_todo h = [] \<and> list_all (\<lambda>r. closed r \<and> slot r = None) (th_relays h) \<and> list_all id (th_told h) \<and>
       (\<exists>schedule. th_log h = interleave schedule (map (queue_of todo) [0..<n])))"
proof -
  let ?queues = "map (queue_of todo) [0..<n]"
  note steps = thread_steps [OF assms(2) threads_of_ok [OF assms(1)]]
  have "\<exists>schedule. th_log h = interleave schedule ?queues" if stuck: "\<nexists>h'. thread_step h h'"
  proof -
    from thread_not_stuck [OF _ stuck] steps
    have "th_todo h = []" "list_all (\<lambda>r. slot r = None) (th_relays h)" by blast+
    then have none: "concat (left_of h) = []"
      by (auto simp: left_of_def queue_of_def list_all_length)
    obtain schedule where "\<And>more_of. interleave (schedule @ more_of) ?queues = th_log h @ interleave more_of (left_of h)"
      using steps by (auto simp: threads_ok_def)
    from this [of "[]"] have "interleave schedule ?queues = th_log h @ concat (left_of h)" by simp
    then show ?thesis unfolding none by (intro exI [of _ schedule]) simp
  qed
  moreover have "list_all (\<lambda>r. closed r \<and> slot r = None) (th_relays h)" "list_all id (th_told h)" "th_todo h = []"
    if "\<nexists>h'. thread_step h h'"
    using thread_not_stuck [OF _ that] steps by (auto simp: list_all_iff)
  ultimately show ?thesis using steps rest_of_threads [of n todo] by auto
qed

text \<open>One piece and one file: it is put, taken and told to be the last.\<close>

theorem the_threads_take_every_file_witness:
  "\<exists>h. (thread_step ^^ 4) (threads_of 1 [(0, ''a'')]) h \<and> (\<nexists>h'. thread_step h h') \<and>
     (\<exists>schedule. [''a''] = interleave schedule [[''a'']])"
proof -
  let ?h = "\<lambda>todo held shut told log. \<lparr>th_todo = todo, th_relays = [\<lparr>slot = held, closed = shut\<rparr>], th_told = [told], th_log = log\<rparr>"
  have put: "thread_step (?h [(0, ''a'')] None False False []) (?h [] (Some ''a'') False False [])"
    using thread_step.put [of "?h [(0, ''a'')] None False False []" 0 "''a''" "[]"] by (simp add: relay_put_def)
  have take_file: "thread_step (?h [] (Some ''a'') False False []) (?h [] None False False [''a''])"
    using thread_step.take_file [of 0 "?h [] (Some ''a'') False False []" "''a''"] by (simp add: relay_take_def)
  have close: "thread_step (?h [] None False False [''a'']) (?h [] None True False [''a''])"
    using thread_step.close [of "?h [] None False False [''a'']" 0] by (simp add: relay_close_def)
  have told: "thread_step (?h [] None True False [''a'']) (?h [] None True True [''a''])"
    using thread_step.told [of 0 "?h [] None True False [''a'']"] by (simp add: relay_take_def)
  have stuck: "\<nexists>h'. thread_step (?h [] None True True [''a'']) h'"
    by (auto elim!: thread_stepE)
  from put take_file close told have run: "(thread_step ^^ 4) (threads_of 1 [(0, ''a'')]) (?h [] None True True [''a''])"
    by (auto simp: numeral_eq_Suc threads_of_def empty_relay_def)
  from the_threads_take_every_file [OF _ this] stuck show ?thesis
    by (intro exI [of _ "?h [] None True True [''a'']"]) (use run in \<open>simp add: queue_of_def\<close>)
qed

end
