(* ===== verification/Store_Shape.thy ===== *)
theory Store_Shape
  imports Store_Life
begin

text \<open>
  The tables of a store and the families that hold their records (\<^verbatim>\<open>create_table\<close>, \<^verbatim>\<open>delete_table\<close>, \<^verbatim>\<open>merge_schema\<close>
  and \<^verbatim>\<open>read_tables\<close> of \<^verbatim>\<open>src/repository/rocksdb_repository.cpp\<close>): a store that was opened, and in which no merge
  of a schema was cut short since, has a family for each of its tables and for nothing else. A merge cut short
  leaves a table that has none.
\<close>

section \<open>A family for each table\<close>

definition matched :: "'db repo \<Rightarrow> bool" where
  "matched s \<longleftrightarrow> map_ok (tables s) \<and>
     (\<forall>name. name \<noteq> default_family \<longrightarrow> (map_of (handles s) name \<noteq> None) = schema_has (tables s) name)"

text \<open>What the operations on records leave as it is.\<close>

definition shape :: "'db repo \<Rightarrow> (string, string) smap \<times> schema" where
  "shape s = (handles s, tables s)"

lemma shape_update [simp]:
  "shape (s\<lparr>database := db\<rparr>) = shape s" "shape (s\<lparr>terms := ts\<rparr>) = shape s" "shape (s\<lparr>transfers := n\<rparr>) = shape s"
  "shape (s\<lparr>counts := c\<rparr>) = shape s" "shape (s\<lparr>counts_reserved := c\<rparr>) = shape s"
  by (simp_all add: shape_def)

lemma shape_andthen [simp]:
  "(\<And>s. shape (snd (m s)) = shape s) \<Longrightarrow> (\<And>a s. shape (snd (f a s)) = shape s) \<Longrightarrow>
     shape (snd (andthen m f s)) = shape s"
  by (auto simp: andthen_app split: prod.splits sum.splits) (metis snd_conv)+

lemma shape_for_each [simp]:
  "(\<And>x s. shape (snd (f x s)) = shape s) \<Longrightarrow> shape (snd (for_each f xs s)) = shape s"
  by (induction xs arbitrary: s) simp_all

lemma shape_check [simp]: "shape (snd (check R st what s)) = shape s"
  by (simp add: check_def)

lemma shape_written [simp]: "shape (snd (written R st what s)) = shape s"
  by (simp add: written_def)

lemma shape_put [simp]: "shape (snd (put R fam k v what s)) = shape s"
  by (simp add: put_def split_beta)

lemma shape_write_batch [simp]: "shape (snd (write_batch R ops what s)) = shape s"
  by (simp add: write_batch_def split_beta)

lemma shape_ingest [simp]: "shape (snd (ingest R handle file what s)) = shape s"
  by (simp add: ingest_def split_beta)

lemma shape_batch_put [simp]: "shape (snd (batch_put R ops op what s)) = shape s"
  by (simp add: batch_put_def)

lemma shape_table_handle [simp]: "shape (snd (table_handle t s)) = shape s"
  by (simp add: table_handle_def split: option.splits)

lemma shape_transfer_name [simp]: "shape (snd (transfer_name s)) = shape s"
  by (simp add: transfer_name_def)

lemma shape_open_given [simp]: "shape (snd (open_given R file what s)) = shape s"
  by (simp add: open_given_def)

lemma shape_keep_entries [simp]: "shape (snd (keep_entries R handle what kvs kept s)) = shape s"
proof (induction kvs arbitrary: kept s)
  case (Cons e kvs)
  then show ?case by (cases e) (simp add: split_beta Let_def)
qed simp

lemma shape_ingest_kept [simp]: "shape (snd (ingest_kept R handle what kvs st s)) = shape s"
  by (simp add: ingest_kept_def split_beta)

lemma shape_raise_batch [simp]: "shape (snd (raise_batch R carried what parts ops s)) = shape s"
  by (induction parts arbitrary: ops s) simp_all

lemma shape_raise_terms [simp]: "shape (snd (raise_terms R carried what s)) = shape s"
  by (simp add: raise_terms_def)

lemma shape_import [simp]: "shape (snd (import_records R t file s)) = shape s"
  by (simp add: import_records_def Let_def split_beta)

lemma shape_clear [simp]: "shape (snd (clear_records R t file s)) = shape s"
  by (simp add: clear_records_def Let_def split_beta)

lemma shape_raise_and_write [simp]: "shape (snd (raise_and_write R handle key value part term what s)) = shape s"
  by (simp add: raise_and_write_def Let_def)

lemma shape_write_record [simp]: "shape (snd (write_record R t rec s)) = shape s"
  by (simp add: write_record_def Let_def split_beta)

lemma shape_next_count [simp]: "shape (snd (next_count L R s)) = shape s"
  by (simp add: next_count_def reserve_counts_def Let_def split_beta)

lemma shape_write_tables [simp]: "shape (snd (write_tables L R s)) = shape s"
  by (simp add: write_tables_def)

lemma shape_check_format [simp]: "shape (snd (check_format R s)) = shape s"
  by (simp add: check_format_def split_beta Let_def)

lemma shape_load_terms [simp]: "shape (snd (load_terms L R s)) = shape s"
  by (simp add: load_terms_def load_term_def split_beta Let_def)

lemma matched_shape: "shape s' = shape s \<Longrightarrow> matched s \<Longrightarrow> matched s'"
  by (simp add: shape_def matched_def)

section \<open>What making and dropping families comes to\<close>

abbreviation families :: "'db repo \<Rightarrow> string set" where
  "families s \<equiv> dom (map_of (handles s))"

lemma written_families:
  "written R st what s = (r, s') \<Longrightarrow> handles s' = handles s \<and> tables s' = tables s"
  using shape_written [of R st what s] by (simp add: shape_def)

lemma open_family_families:
  assumes "open_family R name s = (r, s')"
  shows "tables s' = tables s \<and> families s' = (if isl r then families s else insert name (families s))"
proof (cases "map_of (handles s) name")
  case None
  obtain st db where c: "rdb_create_family R (database s) name = (st, db)" by fastforce
  obtain r1 s1 where w: "written R st (''Creating table \"'' @ name @ ''\"'') (s\<lparr>database := db\<rparr>) = (r1, s1)" by fastforce
  from written_families [OF w] show ?thesis
    using assms None c w by (cases r1) (auto simp: open_family_def andthen_app)
qed (use assms in \<open>auto simp: open_family_def\<close>)

lemma drop_family_families:
  assumes "drop_family R name s = (r, s')"
  shows "tables s' = tables s \<and> families s' = (if isl r then families s else families s - {name})"
proof (cases "map_of (handles s) name")
  case (Some h)
  obtain st db where c: "rdb_drop_family R (database s) h = (st, db)" by fastforce
  obtain r1 s1 where w: "written R st (''Dropping table \"'' @ name @ ''\"'') (s\<lparr>database := db\<rparr>) = (r1, s1)" by fastforce
  from written_families [OF w] show ?thesis
    using assms Some c w by (cases r1) (auto simp: drop_family_def andthen_app split: if_splits)
qed (use assms in \<open>auto simp: drop_family_def\<close>)

lemma open_all_families:
  "for_each (open_family R) names s = (Inr u, s') \<Longrightarrow> tables s' = tables s \<and> families s' = families s \<union> set names"
proof (induction names arbitrary: s)
  case (Cons name names)
  then obtain t where t: "open_family R name s = (Inr (), t)" "for_each (open_family R) names t = (Inr u, s')"
    by (auto simp: andthen_app split: prod.splits sum.splits)
  from open_family_families [OF t(1)] Cons.IH [OF t(2)] show ?case by auto
qed simp

lemma drop_all_families:
  "for_each (drop_family R) names s = (Inr u, s') \<Longrightarrow> tables s' = tables s \<and> families s' = families s - set names"
proof (induction names arbitrary: s)
  case (Cons name names)
  then obtain t where t: "drop_family R name s = (Inr (), t)" "for_each (drop_family R) names t = (Inr u, s')"
    by (auto simp: andthen_app split: prod.splits sum.splits)
  from drop_family_families [OF t(1)] Cons.IH [OF t(2)] show ?case by auto
qed simp

lemma alter_all_families:
  "for_each (alter_family R) altered s = (Inr u, s') \<Longrightarrow> distinct (map c_name altered) \<Longrightarrow>
     tables s' = tables s \<and>
     families s' = families s - c_name ` {c \<in> set altered. \<not> c_live c} \<union> c_name ` {c \<in> set altered. c_live c}"
proof (induction altered arbitrary: s)
  case (Cons c altered)
  then obtain t where t: "alter_family R c s = (Inr (), t)" "for_each (alter_family R) altered t = (Inr u, s')"
    by (auto simp: andthen_app split: prod.splits sum.splits)
  have "tables t = tables s \<and>
      families t = (if c_live c then insert (c_name c) (families s) else families s - {c_name c})"
    using t(1) open_family_families [of R "c_name c" s "Inr ()" t] drop_family_families [of R "c_name c" s "Inr ()" t]
    by (auto simp: alter_family_def split: if_splits)
  with Cons.IH [OF t(2)] Cons.prems(2) show ?case by (cases "c_live c") (auto simp: image_iff)
qed simp

section \<open>The operations on tables\<close>

lemma schema_has_put: "schema_has (map_put name e ts) n = (if n = name then e_declared e \<noteq> None else schema_has ts n)"
  by (simp add: schema_has_def)

lemma matched_families: "matched s \<longleftrightarrow> map_ok (tables s) \<and>
    (\<forall>name. name \<noteq> default_family \<longrightarrow> (name \<in> families s) = schema_has (tables s) name)"
  by (simp add: matched_def dom_def)

lemma create_table_matched: "matched s \<Longrightarrow> matched (snd (create_table L R t stamp s))"
proof -
  assume m: "matched s"
  obtain r u where o: "open_family R (t_name t) s = (r, u)" by fastforce
  note f = open_family_families [OF o]
  have "matched (if isl r then u else u\<lparr>tables := schema_create t stamp (tables u)\<rparr>)"
    using f m by (auto simp: matched_families schema_create_def schema_has_put)
  then show ?thesis
    using o matched_shape [OF shape_write_tables] by (cases r) (auto simp: create_table_def andthen_app)
qed

lemma delete_table_matched: "matched s \<Longrightarrow> matched (snd (delete_table L R name stamp s))"
proof -
  assume m: "matched s"
  obtain r u where o: "drop_family R name s = (r, u)" by fastforce
  note f = drop_family_families [OF o]
  have "matched (if isl r then u else u\<lparr>tables := schema_remove name stamp (tables u)\<rparr>)"
    using f m by (auto simp: matched_families schema_remove_def schema_has_put)
  then show ?thesis
    using o matched_shape [OF shape_write_tables] by (cases r) (auto simp: delete_table_def andthen_app)
qed

lemma merge_schema_matched:
  assumes "matched s" and "map_ok named" and "merge_schema L R named s = (Inr n, s')"
  shows "matched s'"
proof -
  obtain altered merged where m: "schema_merge named (tables s) = (altered, merged)" by fastforce
  let ?s = "s\<lparr>tables := merged\<rparr>"
  obtain u where u: "for_each (alter_family R) altered ?s = (Inr (), u)" and w: "write_tables L R u = (Inr (), s')"
    using assms(3) m by (auto simp: merge_schema_def andthen_app split: prod.splits sum.splits)
  have "distinct (map c_name altered)"
    using changes_distinct [OF assms(2), of "tables s"] m merge_entries_changed [OF map_ok_distinct [OF assms(2)], of "tables s" "[]"]
    by (simp add: schema_merge_def)
  note f = alter_all_families [OF u this]
  have turned: "name \<in> c_name ` {c \<in> set altered. c_live c = alive} \<longleftrightarrow>
      schema_has merged name = alive \<and> schema_has (tables s) name \<noteq> alive" for name alive
    using schema_merge_changes [OF assms(2), of name alive "tables s"] m
    by (auto simp: image_iff) (metis change.surjective old.unit.exhaust)+
  have "map_ok merged" using m merge_entries_ok assms(1) unfolding matched_def schema_merge_def by (metis snd_conv)
  then have "matched u"
    using f assms(1) turned [of _ True] turned [of _ False] by (auto simp: matched_families)
  then show ?thesis using matched_shape [OF shape_write_tables [of L R u]] w by simp
qed

section \<open>Opening\<close>

lemma to_schema_ok: "map_ok (to_schema L json)"
proof -
  have "map_ok ts \<Longrightarrow> map_ok (fold read_item items ts)" for items ts
    by (induction items arbitrary: ts)
      (auto simp: read_item_def Let_def schema_create_def schema_remove_def split: json.splits option.splits bool.splits)
  then show ?thesis by (auto simp: to_schema_def split: option.splits)
qed

lemma schema_names_has: "map_ok ts \<Longrightarrow> (name \<in> set (schema_names ts)) = schema_has ts name"
proof -
  assume "map_ok ts"
  have "(name \<in> set (schema_names ts)) = (\<exists>e. (name, e) \<in> set ts \<and> e_declared e \<noteq> None)"
    by (force simp: schema_names_def image_iff)
  then show ?thesis
    unfolding map_of_in_set [OF \<open>map_ok ts\<close>, symmetric] by (auto simp: schema_has_def split: option.splits)
qed

lemma read_tables_matched:
  assumes "read_tables L R s = (Inr (), s')" and "map_ok (tables s)"
  shows "matched s'"
proof -
  obtain st held where g: "rdb_get R (database s) default_family schema_key = (st, held)" by fastforce
  define t where "t = (if st = Ok_status then s\<lparr>tables := to_schema L held\<rparr> else s)"
  let ?named = "schema_names (tables t)"
  let ?orphaned = "filter (\<lambda>name. name \<noteq> default_family \<and> name \<notin> set ?named) (map fst (handles t))"
  obtain u where u: "for_each (drop_family R) ?orphaned t = (Inr (), u)" "for_each (open_family R) ?named u = (Inr (), s')"
    using assms(1) g by (auto simp: read_tables_def t_def [symmetric] Let_def andthen_app split: prod.splits sum.splits)
  have ok: "map_ok (tables t)" using assms(2) to_schema_ok by (simp add: t_def)
  show ?thesis
    using drop_all_families [OF u(1)] open_all_families [OF u(2)] ok
    by (auto simp: matched_families schema_names_has [symmetric] dom_map_of_conv_image_fst)
qed

lemma open_repository_matched:
  assumes "rocksdb_laws R view contents" and "open_repository L R disk random = Inr s"
  shows "matched s"
  using assms
proof (cases rule: open_repositoryE)
  case (1 db names u v)
  have "tables u = []"
    using shape_check_format [of R "opened db names random"] 1(5) by (simp add: shape_def opened_def)
  then have "matched v" using read_tables_matched [OF 1(6)] by simp
  then show ?thesis using matched_shape [OF shape_load_terms [of L R v]] 1(7) by simp
qed

section \<open>A life no merge was cut short in\<close>

text \<open>
  The steps of \<open>lives\<close>, from the last time the store was opened, over whatever the process before it left; a
  merge is one that returned.
\<close>

inductive undisturbed :: "libs \<Rightarrow> 'db rocksdb \<Rightarrow> 'db repo \<Rightarrow> bool" for L :: libs and R :: "'db rocksdb" where
  born: "rdb_list_families R disk = [] \<Longrightarrow> open_repository L R disk random = Inr s \<Longrightarrow> undisturbed L R s"
| restarted: "lives L R s \<Longrightarrow> open_repository L R (database s) random = Inr s' \<Longrightarrow> undisturbed L R s'"
| created: "undisturbed L R s \<Longrightarrow> undisturbed L R (snd (create_table L R t stamp s))"
| dropped: "undisturbed L R s \<Longrightarrow> name \<noteq> default_family \<Longrightarrow> undisturbed L R (snd (delete_table L R name stamp s))"
| merged: "undisturbed L R s \<Longrightarrow> map_ok named \<Longrightarrow> no_default named \<Longrightarrow> merge_schema L R named s = (Inr n, s') \<Longrightarrow>
    undisturbed L R s'"
| wrote: "undisturbed L R s \<Longrightarrow> t \<noteq> default_family \<Longrightarrow> in_int64 (v_term (rec_stamp rec)) \<Longrightarrow>
    undisturbed L R (snd (write_record R t rec s))"
| took: "undisturbed L R s \<Longrightarrow> t \<noteq> default_family \<Longrightarrow> undisturbed L R (snd (import_records R t file s))"
| gave_up: "undisturbed L R s \<Longrightarrow> t \<noteq> default_family \<Longrightarrow> undisturbed L R (snd (clear_records R t file s))"
| counted: "undisturbed L R s \<Longrightarrow> undisturbed L R (snd (next_count L R s))"

lemma undisturbed_lives: "undisturbed L R s \<Longrightarrow> lives L R s"
proof (induction rule: undisturbed.induct)
  case (merged s named n s')
  then show ?case using lives.merged [of L R s named] by simp
qed (auto intro: lives.intros)

lemma undisturbed_matched:
  assumes "rocksdb_laws R view contents" and "undisturbed L R s"
  shows "matched s"
  using assms(2)
proof induction
  case (merged s named n s')
  then show ?case using merge_schema_matched by blast
qed (use open_repository_matched [OF assms(1)] in
    \<open>auto intro: create_table_matched delete_table_matched matched_shape [OF shape_write_record]
      matched_shape [OF shape_import] matched_shape [OF shape_clear] matched_shape [OF shape_next_count]\<close>)

text \<open>
  C23. The store is well formed. From the time it was opened, over whatever a process before it left, and until
  a merge of a schema is cut short, through any operations and any failures of them: the schema and the handles
  are in name order, every handle is that of the family of its name, the families of the store are the default
  one and those of the tables of the schema, and an operation on records finds its family exactly where the
  schema has the table.
\<close>

theorem a_table_is_its_family:
  assumes "rocksdb_laws R view contents" and "reads_answer R" and "numbers_ok L" and "undisturbed L R s"
  shows "map_ok (tables s) \<and> map_ok (handles s) \<and> (\<forall>name h. map_of (handles s) name = Some h \<longrightarrow> h = name) \<and>
    dom (view (database s)) = {default_family} \<union> {name. has_table s name} \<and>
    (\<forall>name. name \<noteq> default_family \<longrightarrow>
       table_handle name s =
         (if has_table s name then Inr name
          else Inl (storage_err Table_not_found (''No table named \"'' @ name @ ''\".'')), s))"
proof -
  have g: "repo_ok L view s"
    using lives_guarded [OF assms(1-3) undisturbed_lives [OF assms(4)]] by (simp add: guarded_def)
  have m: "matched s" by (rule undisturbed_matched [OF assms(1,4)])
  have handle: "table_handle name s = (if has_table s name then Inr name
      else Inl (storage_err Table_not_found (''No table named \"'' @ name @ ''\".'')), s)" if "name \<noteq> default_family" for name
    using m that repo_ok_handle(1) [OF g, of name]
    by (cases "map_of (handles s) name") (auto simp: table_handle_def has_table_def matched_def ret_def throw_def)
  have ordered: "map_ok (tables s)" using m unfolding matched_def by blast
  from g have names: "map_ok (handles s)" "\<forall>name h. map_of (handles s) name = Some h \<longrightarrow> h = name"
    and same: "families s = dom (view (database s))" "default_family \<in> dom (view (database s))"
    unfolding repo_ok_def by blast+
  have "has_table s name = (name \<in> families s)" if "name \<noteq> default_family" for name
    using m that by (simp add: matched_families has_table_def)
  with same have made: "dom (view (database s)) = {default_family} \<union> {name. has_table s name}"
    by (intro set_eqI) (metis (mono_tags, lifting) UnE UnI1 UnI2 mem_Collect_eq singleton_iff)
  show ?thesis
    by (intro conjI) (rule ordered, rule names, rule names, rule made, intro allI impI, rule handle)
qed

theorem a_table_is_its_family_witness:
  "let s = snd (create_table (example_libs Jnull) mem_rocksdb (table_of ''orders'' []) (stamp_of 1 1) first_repo)
   in has_table s ''orders'' \<and> dom (mem_view (database s)) = {default_family} \<union> {name. has_table s name} \<and>
      table_handle ''orders'' s = (Inr ''orders'', s)"
proof -
  let ?s = "snd (create_table (example_libs Jnull) mem_rocksdb (table_of ''orders'' []) (stamp_of 1 1) first_repo)"
  have "undisturbed (example_libs Jnull) mem_rocksdb ?s"
    using undisturbed.created [OF undisturbed.born [OF _ first_opens]] by (simp add: mem_rocksdb_def)
  note t = a_table_is_its_family [OF mem_rocksdb_laws mem_reads_answer numbers_ok_example this]
  have "has_table ?s ''orders''"
    by (simp add: create_table_def open_family_def first_repo_def andthen_app write_tables_def put_def has_table_def
        schema_has_def schema_create_def)
  then show ?thesis using t by (simp add: default_family_def)
qed

lemma open_family_fails:
  fixes s :: "'db repo"
  assumes "fst (rdb_create_family R (database s) name) \<noteq> Ok_status" and "map_of (handles s) name = None"
  shows "isl (fst (open_family R name s))"
proof -
  have "isl (fst (written R st what u))" if "st \<noteq> Ok_status" for st what u
    using that by (simp add: written_def check_def throw_def)
  moreover have "isl (fst (andthen m f u))" if "isl (fst (m u))" for m :: "('db, unit) repo_exec" and f :: "unit \<Rightarrow> ('db, unit) repo_exec" and u
    using that by (auto simp: andthen_app split: prod.splits sum.splits)
  ultimately show ?thesis
    using assms by (simp add: open_family_def split_beta)
qed

text \<open>
  A merge cut short leaves a table without a family: the schema has taken the name before the family is made,
  so where making it fails the table is there, every operation on its records is refused for want of it, and the
  same merge again finds nothing new and makes no family either.
\<close>

lemma a_merge_cut_short_leaves_no_family:
  assumes "fst (rdb_create_family R (database s) name) \<noteq> Ok_status" and "tables s = []" and "map_of (handles s) name = None"
    and "merge_schema L R [(name, entry_of stamp (Some t))] s = (r, s')"
    and "merge_schema L R [(name, entry_of stamp (Some t))] s' = (r2, s2)"
  shows "isl r \<and> has_table s2 name \<and> map_of (handles s2) name = None"
proof -
  let ?named = "[(name, entry_of stamp (Some t))]"
  have first: "schema_merge ?named (tables s) = ([\<lparr>c_name = name, c_live = True\<rparr>], ?named)"
    using assms(2) by (simp add: schema_merge_def Let_def)
  obtain r1 u where o: "open_family R name (s\<lparr>tables := ?named\<rparr>) = (r1, u)" by fastforce
  have "isl r1"
    using o open_family_fails [of R "s\<lparr>tables := ?named\<rparr>" name] assms(1,3) by simp
  then have s': "isl r" "tables s' = ?named" "families s' = families s"
    using assms(4) first o open_family_families [OF o]
    by (auto simp: merge_schema_def alter_family_def andthen_app split: sum.splits)
  have again: "schema_merge ?named (tables s') = ([], ?named)"
    using s' by (simp add: schema_merge_def stamp_newer_def)
  have "shape s2 = shape (s'\<lparr>tables := ?named\<rparr>)"
    using assms(5) again shape_write_tables [of L R "s'\<lparr>tables := ?named\<rparr>"]
    by (cases "write_tables L R (s'\<lparr>tables := ?named\<rparr>)") (auto simp: merge_schema_def andthen_app split: sum.splits)
  then show ?thesis
    using s' assms(3) domIff [of name "map_of (handles s')"] by (simp add: shape_def has_table_def schema_has_def domIff)
qed

end
