(* ===== verification/Node_Life.thy ===== *)
theory Node_Life
  imports Pass_Safety Store_Shape
begin

text \<open>
  The life of a node: the requests \<^verbatim>\<open>src/router/router.cpp\<close> answers, the passes of \<^verbatim>\<open>src/reconcile/reconcile.cpp\<close>
  between them, what its membership goes through and the times it is started again, in any order. One lemma for
  each says what it does to the records of the store; their life follows by induction over the steps.
\<close>

section \<open>What a step does to the records\<close>

definition sound :: "libs \<Rightarrow> ('db \<Rightarrow> store_view) \<Rightarrow> 'db repo \<Rightarrow> bool" where
  "sound L view r \<longleftrightarrow> guarded L view r \<and> names_ok (tables r)"

text \<open>A step leaves every record as it is, or at least as late where its table is still there.\<close>

definition leaves_records :: "libs \<Rightarrow> ('db \<Rightarrow> store_view) \<Rightarrow> 'db repo \<Rightarrow> 'db repo \<Rightarrow> bool" where
  "leaves_records L view r u \<longleftrightarrow>
     (sound L view r \<longrightarrow> sound L view u \<and> (\<forall>t. t \<noteq> default_family \<longrightarrow> view (database u) t = view (database r) t))"

definition risen :: "libs \<Rightarrow> ('db \<Rightarrow> store_view) \<Rightarrow> 'db repo \<Rightarrow> 'db repo \<Rightarrow> bool" where
  "risen L view r u \<longleftrightarrow>
     (sound L view r \<longrightarrow> sound L view u \<and>
        (\<forall>t key h. t \<noteq> default_family \<longrightarrow> view (database u) t \<noteq> None \<longrightarrow> stored_at view r t key = Some h \<longrightarrow>
           (\<exists>h'. stored_at view u t key = Some h' \<and> \<not> is_newer h h')))"

lemma risenI:
  assumes "sound L view r \<Longrightarrow> sound L view u"
    and "\<And>t key h. sound L view r \<Longrightarrow> t \<noteq> default_family \<Longrightarrow> view (database u) t \<noteq> None \<Longrightarrow>
      stored_at view r t key = Some h \<Longrightarrow> \<exists>h'. stored_at view u t key = Some h' \<and> \<not> is_newer h h'"
  shows "risen L view r u"
  using assms unfolding risen_def by blast

lemma leaves_refl [simp]: "leaves_records L view r r"
  by (simp add: leaves_records_def)

lemma leaves_trans: "leaves_records L view r u \<Longrightarrow> leaves_records L view u v \<Longrightarrow> leaves_records L view r v"
  by (simp add: leaves_records_def)

lemma same_family_record: "view (database u) t = view (database r) t \<Longrightarrow> stored_at view u t key = stored_at view r t key"
  by (simp add: stored_at_def record_at_def)

lemma leaves_risen: "leaves_records L view r u \<Longrightarrow> risen L view u v \<Longrightarrow> risen L view r v"
  unfolding leaves_records_def risen_def by (metis same_family_record)

lemma risen_leaves: "risen L view r u \<Longrightarrow> leaves_records L view u v \<Longrightarrow> risen L view r v"
  unfolding leaves_records_def risen_def by (metis same_family_record)

lemma risen_refl [simp]: "risen L view r r"
  by (auto simp: risen_def)

lemma leaves_is_risen: "leaves_records L view r u \<Longrightarrow> risen L view r u"
  using leaves_risen risen_refl by blast

text \<open>The rules for the steps of a handler: what leaves the records alone may come before and after.\<close>

lemma risen_after:
  "leaves_records L view (store s) (store (snd (m s))) \<Longrightarrow>
     (\<And>a s'. m s = (Inr a, s') \<Longrightarrow> risen L view (store s') (store (snd (f a s')))) \<Longrightarrow>
     risen L view (store s) (store (snd (andthen m f s)))"
  by (cases "m s") (auto simp: andthen_app leaves_is_risen intro: leaves_risen split: sum.splits)

lemma risen_before:
  "risen L view (store s) (store (snd (m s))) \<Longrightarrow>
     (\<And>a s'. m s = (Inr a, s') \<Longrightarrow> leaves_records L view (store s') (store (snd (f a s')))) \<Longrightarrow>
     risen L view (store s) (store (snd (andthen m f s)))"
  by (cases "m s") (auto simp: andthen_app intro: risen_leaves split: sum.splits)

lemma leaves_after:
  "leaves_records L view (store s) (store (snd (m s))) \<Longrightarrow>
     (\<And>a s'. m s = (Inr a, s') \<Longrightarrow> leaves_records L view (store s') (store (snd (f a s')))) \<Longrightarrow>
     leaves_records L view (store s) (store (snd (andthen m f s)))"
  by (cases "m s") (auto simp: andthen_app intro: leaves_trans split: sum.splits)

lemma store_on_nodes [simp]: "store (snd (on_nodes f s)) = store s"
  by (simp add: on_nodes_app)

lemma store_on_wire [simp]: "store (snd (on_wire f s)) = store s"
  by (simp add: on_wire_app)

lemma store_on_store [simp]: "store (snd (on_store m s)) = snd (m (store s))"
  by (simp add: on_store_app)

section \<open>The operations of the store\<close>

text \<open>What writes the default family leaves the others.\<close>

definition only_default :: "('db \<Rightarrow> store_view) \<Rightarrow> 'db repo \<Rightarrow> 'db repo \<Rightarrow> bool" where
  "only_default view r u \<longleftrightarrow> (\<forall>t. t \<noteq> default_family \<longrightarrow> view (database u) t = view (database r) t)"

lemma only_default_put:
  assumes "rocksdb_laws R view contents" and "only_default view r u"
  shows "only_default view r (snd (put R default_family k v what u))"
proof -
  obtain a x where p: "put R default_family k v what u = (a, x)" by fastforce
  from p assms(1) have "only_default view r x"
    by (cases rule: putE) (use assms(2) in \<open>auto simp: only_default_def apply_op.simps split: option.splits\<close>)
  with p show ?thesis by simp
qed

lemma only_default_write_tables:
  "rocksdb_laws R view contents \<Longrightarrow> only_default view r u \<Longrightarrow> only_default view r (snd (write_tables L R u))"
  by (simp add: write_tables_def only_default_put)

lemma next_count_leaves:
  assumes "rocksdb_laws R view contents"
  shows "leaves_records L view r (snd (next_count L' R r))"
proof -
  have reserve: "keeps (only_default view r) (reserve_counts L' R)"
  proof (rule keepsI)
    fix u assume u: "only_default view r u"
    obtain st held where g: "rdb_get R (database u) default_family count_key = (st, held)" by fastforce
    show "only_default view r (snd (reserve_counts L' R u))"
      unfolding reserve_counts_def g Let_def prod.case
    proof (rule keepsD [OF keeps_andthen, of "only_default view r", OF _ _ u])
      show "keeps (only_default view r) (put R default_family k v what)" for k v what
        by (rule keepsI) (rule only_default_put [OF assms])
    qed (simp add: keeps_def only_default_def)
  qed
  have "keeps (only_default view r) (next_count L' R)"
    unfolding next_count_def
  proof (rule keeps_andthen)
    show "keeps (only_default view r) (\<lambda>s. if counts s = counts_reserved s then reserve_counts L' R s else ret () s)"
      using reserve by (auto simp: keeps_def)
  qed (simp add: keeps_def only_default_def)
  then have "only_default view r (snd (next_count L' R r))" by (rule keepsD) (simp add: only_default_def)
  moreover have "tables (snd (next_count L' R r)) = tables r"
    using shape_next_count [of L' R r] by (simp add: shape_def)
  ultimately show ?thesis
    using keepsD [OF next_count_guarded [OF assms], of L r L'] by (auto simp: leaves_records_def sound_def only_default_def)
qed

lemma write_record_risen:
  assumes "rocksdb_laws R view contents" and "numbers_ok L" and "t \<noteq> default_family" and "in_int64 (v_term (rec_stamp rec))"
  shows "risen L view r (snd (write_record R t rec r))"
proof -
  obtain a u where w: "write_record R t rec r = (a, u)" by fastforce
  have "risen L view r u"
  proof (rule risenI)
    assume "sound L view r"
    then have g: "guarded L view r" "repo_ok L view r" "fenced L (view (database r))" "names_ok (tables r)"
      by (auto simp: sound_def guarded_def)
    then show "sound L view u"
      using write_record_ok [OF assms(1,2) g(2) assms(4), of t] write_record_fenced [OF assms(1,2) g(2,3) assms(4,3)]
        shape_write_record [of R t rec r] w
      by (simp add: sound_def guarded_def shape_def)
    fix t' key h assume "stored_at view r t' key = Some h"
    with write_record_stored(1) [OF assms(1) g(2) w, of t' key] write_record_stored(2) [OF assms(1) g(2) w]
    show "\<exists>h'. stored_at view u t' key = Some h' \<and> \<not> is_newer h h'"
      by (cases a) (auto simp: stored.take_in_def)
  qed
  with w show ?thesis by simp
qed

text \<open>Making a table adds a family, dropping it takes its own away.\<close>

lemma names_ok_put:
  assumes "names_ok ts" and "name \<noteq> default_family" and "\<And>t. e_declared e = Some t \<Longrightarrow> t_name t \<noteq> default_family"
  shows "names_ok (map_put name e ts)"
proof -
  have "set (map_put name e ts) \<subseteq> insert (name, e) (set ts)" by (rule set_map_put)
  with assms show ?thesis unfolding names_ok_def no_default_def by (fastforce simp: image_iff)
qed

lemma create_table_risen:
  assumes "rocksdb_laws R view contents" and "t_name t \<noteq> default_family"
  shows "risen L view r (snd (create_table L' R t stamp r))"
proof -
  obtain a u where o: "open_family R (t_name t) r = (a, u)" by fastforce
  define v where "v = (if isl a then u else snd (write_tables L' R (u\<lparr>tables := schema_create t stamp (tables u)\<rparr>)))"
  have v: "snd (create_table L' R t stamp r) = v"
    using o by (cases a) (auto simp: create_table_def andthen_app v_def)
  have fam: "view (database u) t' = view (database r) t'" if s: "sound L view r" and that: "view (database r) t' \<noteq> None" for t'
    using o assms(1)
  proof (cases rule: open_familyE)
    case (made db)
    then have "t_name t \<notin> dom (view (database r))" using s unfolding sound_def guarded_def repo_ok_def by (metis domIff)
    with made that show ?thesis by (auto simp: domIff)
  qed simp_all
  have same: "view (database v) t' = view (database u) t'" if "t' \<noteq> default_family" for t'
    using only_default_write_tables [OF assms(1), of u "u\<lparr>tables := schema_create t stamp (tables u)\<rparr>" L'] that
    by (auto simp: v_def only_default_def)
  have "risen L view r v"
  proof (rule risenI)
    assume s: "sound L view r"
    have "guarded L view v"
      using keepsD [OF create_table_guarded [OF assms(1)], of L r L' t stamp] s v by (simp add: sound_def)
    moreover have "names_ok (tables v)"
      using s assms(2) open_family_families [OF o] shape_write_tables [of L' R "u\<lparr>tables := schema_create t stamp (tables u)\<rparr>"]
      by (auto simp: v_def sound_def shape_def schema_create_def intro!: names_ok_put)
    ultimately show "sound L view v" by (simp add: sound_def)
    fix t' key h assume "t' \<noteq> default_family" and had: "stored_at view r t' key = Some h"
    then have "view (database v) t' = view (database r) t'"
      using same fam [OF s, of t'] by (auto simp: stored_at_def record_at_def split: option.splits)
    with had show "\<exists>h'. stored_at view v t' key = Some h' \<and> \<not> is_newer h h'" by (simp add: stored_at_def record_at_def)
  qed
  with v show ?thesis by simp
qed

lemma delete_table_risen:
  assumes "rocksdb_laws R view contents" and "name \<noteq> default_family"
  shows "risen L view r (snd (delete_table L' R name stamp r))"
proof -
  obtain a u where o: "drop_family R name r = (a, u)" by fastforce
  define v where "v = (if isl a then u else snd (write_tables L' R (u\<lparr>tables := schema_remove name stamp (tables u)\<rparr>)))"
  have v: "snd (delete_table L' R name stamp r) = v"
    using o by (cases a) (auto simp: delete_table_def andthen_app v_def)
  have fam: "view (database u) t' = view (database r) t' \<or> view (database u) t' = None" if s: "sound L view r" for t'
    using o assms(1)
  proof (cases rule: drop_familyE)
    case (gone db h)
    then show ?thesis by simp
  qed simp_all
  have same: "view (database v) t' = view (database u) t'" if "t' \<noteq> default_family" for t'
    using only_default_write_tables [OF assms(1), of u "u\<lparr>tables := schema_remove name stamp (tables u)\<rparr>" L'] that
    by (auto simp: v_def only_default_def)
  have "risen L view r v"
  proof (rule risenI)
    assume s: "sound L view r"
    have "guarded L view v"
      using keepsD [OF delete_table_guarded [OF assms], of L r L' stamp] s v by (simp add: sound_def)
    moreover have "names_ok (tables v)"
      using s assms(2) drop_family_families [OF o] shape_write_tables [of L' R "u\<lparr>tables := schema_remove name stamp (tables u)\<rparr>"]
      by (auto simp: v_def sound_def shape_def schema_remove_def intro!: names_ok_put)
    ultimately show "sound L view v" by (simp add: sound_def)
    fix t' key h assume "t' \<noteq> default_family" "view (database v) t' \<noteq> None" and had: "stored_at view r t' key = Some h"
    then have "view (database v) t' = view (database r) t'"
      using same [of t'] fam [OF s, of t'] by auto
    with had show "\<exists>h'. stored_at view v t' key = Some h' \<and> \<not> is_newer h h'" by (simp add: stored_at_def record_at_def)
  qed
  with v show ?thesis by simp
qed

section \<open>The requests\<close>

text \<open>A term is of 64 bits wherever the code keeps one, so what a leader is found to lead in is, and what a request carries.\<close>

definition terms_fit :: "libs \<Rightarrow> 'w net \<Rightarrow> request \<Rightarrow> 'w etcd_cluster \<Rightarrow> bool" where
  "terms_fit L N req c \<longleftrightarrow> in_int64 (rq_term req) \<and> (\<forall>key. in_int64 (ld_term (fst (leader L N key c))))"

text \<open>The table a path names; the reserved name is none.\<close>

definition names_table :: "request \<Rightarrow> bool" where
  "names_table req \<longleftrightarrow> (length (rq_path req) \<ge> 2 \<longrightarrow> rq_path req ! 1 \<noteq> default_family)"

definition rises_on :: "libs \<Rightarrow> ('db \<Rightarrow> store_view) \<Rightarrow> ('db, 'w) router \<Rightarrow> ('db, 'w, 'a) handler \<Rightarrow> bool" where
  "rises_on L view s m \<longleftrightarrow> risen L view (store s) (store (snd (m s)))"

lemma on_nodesD: "on_nodes f s = (Inr a, u) \<Longrightarrow> a = fst (f (nodes s)) \<and> store u = store s"
  by (auto simp: on_nodes_app)

lemma apply_write_risen:
  assumes "rocksdb_laws R view contents" and "numbers_ok L" and "name \<noteq> default_family" and "in_int64 (rq_term req)"
  shows "risen L view (store s) (store (snd (apply_write R req name rec s)))"
proof -
  have "risen L view (store u) (store (snd (andthen
      (on_store (write_record R name (rec\<lparr>rec_stamp := stamp_of (rq_term req) (rq_count req)\<rparr>))) (\<lambda>_. ret answer) u)))"
    for u :: "('a, 'b) router" and answer :: response
    by (rule risen_before) (simp_all add: write_record_risen [OF assms(1-3)] assms(4))
  then show ?thesis
    unfolding apply_write_def by (auto intro!: risen_after)
qed

lemma lead_write_risen:
  assumes "rocksdb_laws R view contents" and "numbers_ok L" and "name \<noteq> default_family" and "in_int64 (ld_term lead)"
  shows "risen L view (store s) (store (snd (lead_write L' R N req name rec lead s)))"
  unfolding lead_write_def
proof (rule risen_after)
  show "leaves_records L view (store s) (store (snd (on_store (next_count L' R) s)))"
    by (simp add: next_count_leaves [OF assms(1)])
  fix cnt u
  show "risen L view (store u) (store (snd ((\<lambda>s. let rec = rec\<lparr>rec_stamp := stamp_of (ld_term lead) cnt\<rparr>;
           where_to = replicas (nodes s) (rec_key rec)
       in andthen (if pl_local where_to then on_store (write_record R name rec) else ret ()) (\<lambda>_.
          andthen (on_wire (forward_all L' N (pl_nodes where_to) (carried req (ld_term lead) cnt))) (\<lambda>answers.
            ret (case refusal answers of Some refused \<Rightarrow> refused | None \<Rightarrow> empty_response no_content_204))) s) u)))"
    unfolding Let_def
    by (rule risen_before) (auto intro!: leaves_after simp: write_record_risen [OF assms(1-3)] assms(4))
qed

lemma order_schema_store [simp]: "store (snd (order_schema L N req s)) = store s"
  by (auto simp: order_schema_def andthen_app on_nodes_app on_wire_app split: prod.splits)

lemma carry_on_store [simp]: "store (snd (carry_on L N req order stamp s)) = store s"
  by (simp add: carry_on_def andthen_app on_wire_app)

lemma schema_stamp_leaves:
  assumes "rocksdb_laws R view contents"
  shows "leaves_records L view (store s) (store (snd (schema_stamp L' R req order s)))"
  unfolding schema_stamp_def
  by (cases "od_carried order") (auto intro!: leaves_after simp: next_count_leaves [OF assms])

lemma create_table_handler_risen:
  assumes "rocksdb_laws R view contents"
  shows "risen L view (store s) (store (snd (router_create_table L' R N req name s)))"
proof (cases "parse_body L' (rq_body req)")
  case (Some body)
  have make: "risen L view (store u) (store (snd (andthen (on_store (create_table L' R t stamp)) (\<lambda>_.
      andthen (carry_on L' N req order stamp) (\<lambda>failure. ret (f failure :: response))) u)))"
    if "parse_table name body names = Inr t" for t names stamp order f and u :: "('a, 'b) router"
  proof (rule risen_before)
    have "t_name t \<noteq> default_family" using that by (auto simp: parse_table_def is_valid_name_def default_family_def Let_def split: if_splits option.splits json.splits sum.splits)
    then show "risen L view (store u) (store (snd (on_store (create_table L' R t stamp) u)))"
      by (simp add: create_table_risen [OF assms])
  qed (auto intro!: leaves_after)
  have stand: "risen L view (store u) (store (snd (andthen (carry_on L' N req order stamp) (\<lambda>failure. ret (f failure :: response)) u)))"
    for stamp order f and u :: "('a, 'b) router"
    by (rule risen_after) simp_all
  show ?thesis
    unfolding router_create_table_def Some option.case
  proof (rule risen_after)
    fix order u
    show "risen L view (store u) (store (snd ((case od_answer order of
              Some answer \<Rightarrow> ret answer
            | None \<Rightarrow> (\<lambda>s.
                case parse_table name body (table_names s) of
                  Inl e \<Rightarrow> ret (error_response (err_code e) (err_message e)) s
                | Inr t \<Rightarrow>
                    (let existing = read_table (store s) name
                     in andthen (schema_stamp L' R req order) (\<lambda>stamp.
                          case existing of
                            Inr standing \<Rightarrow>
                              if standing \<noteq> t
                              then ret (error_response Table_exists
                                     (''A table named \"'' @ name @ ''\" exists with different options.''))
                              else andthen (carry_on L' N req order stamp) (\<lambda>failure.
                                ret (case failure of Some f \<Rightarrow> f | None \<Rightarrow> json_response ok_200 (table_to_json t)))
                          | Inl _ \<Rightarrow>
                              andthen (on_store (create_table L' R t stamp)) (\<lambda>_.
                              andthen (carry_on L' N req order stamp) (\<lambda>failure.
                                ret (case failure of Some f \<Rightarrow> f
                                     | None \<Rightarrow> json_response created_201 (table_to_json t))))) s))) u)))"
      by (auto intro!: risen_after schema_stamp_leaves [OF assms] make stand simp: Let_def split: option.split sum.split)
  qed simp
qed (simp add: router_create_table_def)

lemma delete_table_handler_risen:
  assumes "rocksdb_laws R view contents" and "name \<noteq> default_family"
  shows "risen L view (store s) (store (snd (router_delete_table L' R N req name s)))"
proof -
  have drop: "risen L view (store u) (store (snd (andthen (on_store (delete_table L' R name stamp)) (\<lambda>_.
      andthen (carry_on L' N req order stamp) (\<lambda>failure. ret (f failure :: response))) u)))"
      "risen L view (store u) (store (snd (andthen (on_store (delete_table L' R name stamp)) (\<lambda>_. ret (answer :: response)) u)))"
    for stamp order f answer and u :: "('a, 'b) router"
    by (rule risen_before, simp add: delete_table_risen [OF assms], (auto intro!: leaves_after)[1])+
  have stand: "risen L view (store u) (store (snd (andthen (carry_on L' N req order stamp) (\<lambda>failure. ret (f failure :: response)) u)))"
    for stamp order f and u :: "('a, 'b) router"
    by (rule risen_after) simp_all
  have one: "risen L view (store u) (store (snd (andthen (schema_stamp L' R req order) f u)))"
    if "\<And>stamp v. risen L view (store v) (store (snd (f stamp v)))"
    for order and u :: "('a, 'b) router" and f :: "version \<Rightarrow> ('a, 'b, response) handler"
    by (rule risen_after) (auto intro: schema_stamp_leaves [OF assms(1)] that)
  show ?thesis
    unfolding router_delete_table_def
    by (rule risen_after) (auto intro!: one drop stand split: option.split)
qed

lemma table_handler_risen:
  assumes "rocksdb_laws R view contents" and "name \<noteq> default_family"
  shows "risen L view (store s) (store (snd (route_table L' R N req name s)))"
  using create_table_handler_risen [OF assms(1)] delete_table_handler_risen [OF assms]
  by (auto simp: route_table_def split: sum.split)

lemma unmoved_leaves: "unmoved_repo r u \<Longrightarrow> leaves_records L view r u"
proof -
  assume "unmoved_repo r u"
  then have "r = u\<lparr>transfers := transfers r\<rparr>" by (simp add: unmoved_repo_def)
  then obtain n where r: "r = u\<lparr>transfers := n\<rparr>" by blast
  have "sound L view u = sound L view r" unfolding r by (simp add: sound_def guarded_def repo_ok_def)
  moreover have "database u = database r" unfolding r by simp
  ultimately show ?thesis by (simp add: leaves_records_def)
qed

lemma file_handler_leaves: "leaves_records L view (store s) (store (snd (route_file L' R req name s)))"
proof -
  have "unmoved_repo (store s) (snd (export_records R name wanted (store s)))" for wanted
    by (rule keepsD [OF export_records_unmoved]) (simp add: unmoved_repo_def)
  then have "leaves_records L view (store s) (store (snd (andthen (on_store (export_records R name wanted)) (\<lambda>taken. ret (f taken)) s)))"
    for wanted and f :: "extract_t \<Rightarrow> response"
    by (intro leaves_after) (simp_all add: unmoved_leaves)
  then show ?thesis
    unfolding route_file_def by (auto split: sum.split)
qed

lemma split_handler_leaves: "store (snd (route_split L' R req name s)) = store s"
  by (auto simp: route_split_def Let_def andthen_app on_store_app split_points_still split: sum.split)

lemma read_replicas_store [simp]: "store (snd (router_read_record L' N req where_to s)) = store s"
  by (simp add: router_read_record_def)

lemma answer_page_store [simp]: "store (snd (answer_page L' R req name s)) = store s"
  by (auto simp: answer_page_def andthen_app on_store_app scan_records_still split: sum.split prod.split)

lemma scan_handler_store [simp]: "store (snd (router_scan_records L' R N req name s)) = store s"
  by (auto simp: router_scan_records_def Let_def parse_range_def split: option.split sum.split)

lemma read_here_store [simp]: "store (snd (read_here R name key s)) = store s"
  using on_store_read_still [of R name key s]
  by (auto simp: read_here_def andthen_app split: prod.split sum.split option.split)

lemma record_handler_risen:
  assumes "rocksdb_laws R view contents" and "numbers_ok L" and "name \<noteq> default_family" and "terms_fit L' N req (nodes s)"
  shows "risen L view (store s) (store (snd (route_record L' R N req name part srt s)))"
proof -
  have lead: "risen L view (store u) (store (snd (lead_write L' R N req name rec (fst (leader L' N key (nodes s))) u)))"
    for rec key and u :: "('a, 'b) router"
    using assms(4) by (intro lead_write_risen [OF assms(1-3)]) (simp add: terms_fit_def)
  have writing: "risen L view (store s) (store (snd (andthen (on_nodes (leader L' N (rec_key rec))) (\<lambda>lead.
      if ld_local lead then lead_write L' R N req name rec lead
      else if \<not> ld_known lead then ret (error_response No_leader ''No node is leading this key's partition yet.'')
      else forward_to_leader L' N req lead) s)))" for rec
    by (rule risen_after) (auto dest!: on_nodesD intro: lead simp: forward_to_leader_def)
  have read: "store (snd (andthen (on_store (read_record R name (compose_key part srt))) f s)) = store s"
    if "\<And>a. store (snd (f a s)) = store s" for f :: "string option \<Rightarrow> ('a, 'b, response) handler"
    using on_store_read_still [of R name "compose_key part srt" s] that
    by (cases "on_store (read_record R name (compose_key part srt)) s") (auto simp: andthen_app split: sum.split)
  show ?thesis
    unfolding route_record_def Let_def
    by (auto intro: writing simp: read split: sum.split option.split)
qed

lemma forwarded_handler_risen:
  assumes "rocksdb_laws R view contents" and "numbers_ok L" and "name \<noteq> default_family" and "terms_fit L' N req (nodes s)"
  shows "risen L view (store s) (store (snd (route_forwarded_record L' R N req name part srt s)))"
proof -
  have fits: "in_int64 (rq_term req)" "\<And>key. in_int64 (ld_term (fst (leader L' N key (nodes s))))"
    using assms(4) by (simp_all add: terms_fit_def)
  have writing: "risen L view (store s) (store (snd (andthen (on_nodes (leader L' N (rec_key rec))) (\<lambda>lead.
      if \<not> ld_local lead then apply_write R req name rec else lead_write L' R N req name rec lead) s)))" for rec
    by (rule risen_after)
       (auto dest!: on_nodesD intro: lead_write_risen [OF assms(1-3)] apply_write_risen [OF assms(1-3)] simp: fits)
  show ?thesis
    unfolding route_forwarded_record_def Let_def
    by (auto intro: writing apply_write_risen [OF assms(1-3) fits(1)] split: sum.split)
qed

lemma request_risen:
  assumes "rocksdb_laws R view contents" and "numbers_ok L" and "names_table req" and "terms_fit L' N req (nodes s)"
  shows "risen L view (store s) (store (snd (route L' R N req s)))"
proof (cases "length (rq_path req) \<ge> 2")
  case True
  then have "rq_path req ! 1 \<noteq> default_family" using assms(3) by (simp add: names_table_def)
  then show ?thesis
    unfolding route_def Let_def route_range_def
    by (auto intro: table_handler_risen [OF assms(1)] leaves_is_risen [OF file_handler_leaves]
        record_handler_risen [OF assms(1,2) _ assms(4)] forwarded_handler_risen [OF assms(1,2) _ assms(4)]
        simp: split_handler_leaves)
qed (auto simp: route_def Let_def)

section \<open>Starting again\<close>

lemma settled_families: "settled L view s \<Longrightarrow> families s = dom (view (database s))"
  by (simp add: settled_iff handles_ok_def)

lemma drop_all_views:
  assumes "rocksdb_laws R view contents" and "default_family \<notin> set names" and "settled L view s"
    and "for_each (drop_family R) names s = (Inr (), s')"
  shows "settled L view s' \<and> (\<forall>t. t \<notin> set names \<longrightarrow> view (database s') t = view (database s) t)"
  using assms(2-4)
proof (induction names arbitrary: s)
  case (Cons name names)
  then obtain u where u: "drop_family R name s = (Inr (), u)" "for_each (drop_family R) names u = (Inr (), s')"
    by (auto simp: andthen_app split: prod.splits sum.splits)
  have "settled L view u"
    using keepsD [OF drop_family_settled [OF assms(1)], of name L s] Cons.prems(1,2) u(1) by auto
  moreover have "view (database u) t = view (database s) t" if "t \<noteq> name" for t
    using u(1) assms(1)
  proof (cases rule: drop_familyE)
    case (gone db h)
    then have "h = name" using Cons.prems(2) by (simp add: settled_iff handles_ok_def)
    with gone that show ?thesis by simp
  qed simp_all
  ultimately show ?case using Cons.IH [OF _ _ u(2)] Cons.prems(1) by simp
qed simp

lemma open_all_views:
  assumes "rocksdb_laws R view contents" and "settled L view s" and "for_each (open_family R) names s = (Inr (), s')"
  shows "settled L view s' \<and> (\<forall>t. view (database s) t \<noteq> None \<or> t \<notin> set names \<longrightarrow> view (database s') t = view (database s) t)"
  using assms(2,3)
proof (induction names arbitrary: s)
  case (Cons name names)
  then obtain u where u: "open_family R name s = (Inr (), u)" "for_each (open_family R) names u = (Inr (), s')"
    by (auto simp: andthen_app split: prod.splits sum.splits)
  have "settled L view u"
    using keepsD [OF open_family_settled [OF assms(1)], of L s name] Cons.prems(1) u(1) by simp
  moreover have "view (database u) t = view (database s) t" if "view (database s) t \<noteq> None \<or> t \<noteq> name" for t
    using u(1) assms(1)
  proof (cases rule: open_familyE)
    case (made db)
    then have "view (database s) name = None"
      using settled_families [OF Cons.prems(1)] by (metis domIff)
    with made that show ?thesis by auto
  qed simp_all
  ultimately show ?case using Cons.IH [OF _ u(2)] by (metis list.set_intros(1) list.set_intros(2))
qed simp

text \<open>A family a store opened again has is one that was there, or one made for a table that had none.\<close>

lemma read_tables_views:
  assumes "rocksdb_laws R view contents" and "settled L view s" and "read_tables L' R s = (Inr (), s')"
  shows "settled L view s' \<and> (\<forall>t m. view (database s) t = Some m \<longrightarrow> view (database s') t = Some m \<or> view (database s') t = None)"
proof -
  obtain st held where g: "rdb_get R (database s) default_family schema_key = (st, held)" by fastforce
  define u where "u = (if st = Ok_status then s\<lparr>tables := to_schema L' held\<rparr> else s)"
  let ?named = "schema_names (tables u)"
  let ?orphaned = "filter (\<lambda>name. name \<noteq> default_family \<and> name \<notin> set ?named) (map fst (handles u))"
  obtain v where v: "for_each (drop_family R) ?orphaned u = (Inr (), v)" "for_each (open_family R) ?named v = (Inr (), s')"
    using assms(3) g by (auto simp: read_tables_def u_def [symmetric] Let_def andthen_app split: prod.splits sum.splits)
  have u: "settled L view u" "database u = database s" using assms(2) by (simp_all add: u_def)
  note drop = drop_all_views [OF assms(1) _ u(1) v(1)] and gone = drop_all_families [OF v(1)]
  have sv: "settled L view v" and kept: "\<And>t. t \<notin> set ?orphaned \<Longrightarrow> view (database v) t = view (database s) t"
    using drop u(2) by auto
  note made = open_all_views [OF assms(1) sv v(2)]
  have "view (database s') t = Some m \<or> view (database s') t = None" if m: "view (database s) t = Some m" for t m
  proof (cases "t \<in> set ?orphaned")
    case True
    then have "t \<notin> families v" using gone by simp
    then have "view (database v) t = None" using settled_families [OF sv] by (metis domIff)
    with made True show ?thesis by auto
  next
    case False
    with kept [OF this] made m show ?thesis by auto
  qed
  with made show ?thesis by blast
qed

lemma restart_risen:
  assumes "rocksdb_laws R view contents" and "reads_answer R" and "open_repository L R (database r) random = Inr s'" and "names_ok (tables s')"
  shows "risen L view r s'"
proof (rule risenI)
  assume s: "sound L view r"
  then have f: "fenced L (view (database r))" by (simp add: sound_def guarded_def)
  then show "sound L view s'"
    using open_repository_guarded [OF assms(1,2) _ assms(3)] assms(4) by (simp add: sound_def)
  fix t key h assume t: "t \<noteq> default_family" "view (database s') t \<noteq> None" and had: "stored_at view r t key = Some h"
  from assms(1,3) have "view (database s') t = view (database r) t \<or> stored_at view r t key = None"
  proof (cases rule: open_repositoryE)
    case (1 db names u v)
    have "default_family \<in> dom (view (database r))" using s by (simp add: sound_def guarded_def repo_ok_def)
    then have "rdb_list_families R (database r) \<noteq> []"
      using assms(1) unfolding rocksdb_laws_def law_open_def by (metis domIff)
    with 1(2) have db: "view db = view (database r)" by blast
    have o: "settled L view (opened db names random)" using opened_settled [of view db names L random] 1(3,4) db f by simp
    have su: "settled L view u" using keepsD [OF check_format_settled [OF assms(1)] o] 1(5) by simp
    have "only_default view (opened db names random) u"
      using only_default_put [OF assms(1), of "opened db names random" "opened db names random" format_key format_version
          "''Writing the store format''"] 1(5)
      by (auto simp: check_format_def only_default_def throw_def Let_def split: prod.splits if_splits)
    then have "view (database u) t = view (database r) t" using t(1) db by (simp add: only_default_def)
    moreover have "database s' = database v"
    proof -
      have "default_family \<in> dom (view (database v))"
        using read_tables_views [OF assms(1) su 1(6)] by (simp add: settled_iff handles_ok_def)
      from load_terms_run [OF assms(1,2) this, of L] 1(7) show ?thesis by simp
    qed
    ultimately show ?thesis
      using read_tables_views [OF assms(1) su 1(6)] t(2)
      by (cases "view (database u) t") (simp add: stored_at_def record_at_def, metis)
  qed
  with had show "\<exists>h'. stored_at view s' t key = Some h' \<and> \<not> is_newer h h'"
    by (auto simp: stored_at_def record_at_def)
qed

section \<open>The life\<close>

text \<open>
  A step of a node, told with what the other nodes held of each table where the step was a pass. The network may
  be another at every step. Where the node is started again its membership begins anew, and the schema it reads back
  gives the reserved name to no table. A request names a table other than the reserved one: the code forwards one that
  names it, and writes it, as it would any.
\<close>

inductive node_step :: "libs \<Rightarrow> 'db rocksdb \<Rightarrow> ('db \<Rightarrow> store_view) \<Rightarrow> (string \<Rightarrow> string \<Rightarrow> family_view) \<Rightarrow>
    ('db, 'w) router \<Rightarrow> ('db, 'w) router \<Rightarrow> bool" for L R view where
  served: "names_table req \<Longrightarrow> terms_fit L N req (nodes s) \<Longrightarrow> route L R N req s = (r, s') \<Longrightarrow>
    node_step L R view (\<lambda>_ _. Map.empty) s s'"
| passed: "nodes_send L R view N ms \<Longrightarrow> schemas_ok L N \<Longrightarrow>
    reconcile fuel schedules L R N stop_requested page_size secs workers s = Some (r, s') \<Longrightarrow> node_step L R view ms s s'"
| moved: "cluster_step L N (nodes s) c \<Longrightarrow> node_step L R view (\<lambda>_ _. Map.empty) s (s\<lparr>nodes := c\<rparr>)"
| drained: "node_step L R view (\<lambda>_ _. Map.empty) s (set_draining b s)"
| restarted: "open_repository L R (database (store s)) random = Inr repo \<Longrightarrow> names_ok (tables repo) \<Longrightarrow>
    node_step L R view (\<lambda>_ _. Map.empty) s (router_of repo c)"

text \<open>A life through which a table is there, with the steps taken: what the other nodes held and the state before.\<close>

inductive node_life :: "libs \<Rightarrow> 'db rocksdb \<Rightarrow> ('db \<Rightarrow> store_view) \<Rightarrow> string \<Rightarrow> ('db, 'w) router \<Rightarrow>
    ((string \<Rightarrow> string \<Rightarrow> family_view) \<times> ('db, 'w) router) list \<Rightarrow> ('db, 'w) router \<Rightarrow> bool" for L R view t where
  begins: "node_life L R view t s [] s"
| goes_on: "node_life L R view t s log u \<Longrightarrow> node_step L R view ms u v \<Longrightarrow> view (database (store v)) t \<noteq> None \<Longrightarrow>
    node_life L R view t s (log @ [(ms, u)]) v"

text \<open>A step loses no record but to the owner of its partition.\<close>

lemma node_step_keeps:
  assumes "rocksdb_laws R view contents" and "reads_answer R" and "numbers_ok L" and "sizes_ok L" and "escapes L" and "plain_stays L"
    and "node_step L R view ms s s'" and "sound L view (store s)"
  shows "sound L view (store s') \<and>
    (\<forall>t key h. t \<noteq> default_family \<longrightarrow> view (database (store s')) t \<noteq> None \<longrightarrow> stored_at view (store s) t key = Some h \<longrightarrow>
       (\<exists>h'. stored_at view (store s') t key = Some h' \<and> \<not> is_newer h h') \<or> with_owner ms (nodes s) t key h)"
proof -
  have rises: ?thesis if "risen L view (store s) (store s')"
    using that assms(8) unfolding risen_def by blast
  from assms(7) show ?thesis
  proof cases
    case (served req N r)
    with request_risen [OF assms(1,3) served(2,3)] rises show ?thesis by simp
  next
    case (passed N fuel schedules stop_requested page_size secs workers r)
    have "guarded L view (store s)" "names_ok (tables (store s))" using assms(8) by (simp_all add: sound_def)
    from a_pass_keeps [OF assms(1-6) passed(1,2) this passed(3)] show ?thesis by (simp add: sound_def)
  next
    case (restarted random repo c)
    with restart_risen [OF assms(1,2) restarted(3,4)] rises show ?thesis by (simp add: router_of_def Let_def)
  qed (use rises in \<open>simp_all add: set_draining_def\<close>)
qed

lemma life_keeps:
  assumes "rocksdb_laws R view contents" and "reads_answer R" and "numbers_ok L" and "sizes_ok L" and "escapes L" and "plain_stays L"
    and "node_life L R view t s log s'" and "sound L view (store s)"
    and "t \<noteq> default_family" and "stored_at view (store s) t key = Some h"
  shows "sound L view (store s') \<and>
    ((\<exists>h'. stored_at view (store s') t key = Some h' \<and> \<not> is_newer h h') \<or> (\<exists>(ms, u) \<in> set log. with_owner ms (nodes u) t key h))"
  using assms(7,8,10)
proof (induction rule: node_life.induct)
  case (goes_on s log u ms v)
  then have IH: "sound L view (store u)"
    "(\<exists>h'. stored_at view (store u) t key = Some h' \<and> \<not> is_newer h h') \<or> (\<exists>(ms, u) \<in> set log. with_owner ms (nodes u) t key h)"
    by blast+
  note step = node_step_keeps [OF assms(1-6) goes_on.hyps(2) IH(1)]
  show ?case
  proof (cases "\<exists>(ms, u) \<in> set log. with_owner ms (nodes u) t key h")
    case True
    with step show ?thesis by auto
  next
    case False
    with IH obtain h' where h': "stored_at view (store u) t key = Some h'" "\<not> is_newer h h'" by blast
    with step assms(9) goes_on.hyps(3)
    have "(\<exists>h2. stored_at view (store v) t key = Some h2 \<and> \<not> is_newer h' h2) \<or> with_owner ms (nodes u) t key h'" by blast
    then have "(\<exists>h2. stored_at view (store v) t key = Some h2 \<and> \<not> is_newer h h2) \<or> with_owner ms (nodes u) t key h"
      using h'(2) not_newer_trans with_owner_later by metis
    with step show ?thesis by auto
  qed
qed auto

section \<open>The properties of a life\<close>



text \<open>A node of two that runs a pass no other node answers, and is then asked for the record it holds.\<close>

definition asked_for :: request where
  "asked_for =
     \<lparr>rq_method = Verb_get, rq_path = [''table'', ''orders'', ''key'', ''k''], rq_query = [], rq_body = [],
      rq_forwarded = True, rq_term = 0, rq_count = 0\<rparr>"

lemma asked_for_names [simp]: "names_table asked_for"
  by (simp add: names_table_def asked_for_def default_family_def)

lemma asked_for_store [simp]: "store (snd (route L R N asked_for s)) = store s"
  by (auto simp: route_def route_forwarded_record_def asked_for_def Let_def is_read_def split: sum.split)

lemma asked_for_step:
  assumes "terms_fit L N asked_for (nodes s)"
  shows "node_step L R view (\<lambda>_ _. Map.empty) s (snd (route L R N asked_for s))"
  using node_step.served [OF asked_for_names assms] by (metis prod.collapse)



end
