(* ===== verification/Every_Copy.thy ===== *)
theory Every_Copy
  imports Node_Life Wire
begin

text \<open>
  A write across the cluster: the node that leads it, its client (\<^verbatim>\<open>src/http/beast_client.cpp\<close>), the sessions of the
  other nodes (\<^verbatim>\<open>src/server/session.cpp\<close>) and their routers, put together over a network that may lose a request or
  its answer. What each of them does is the model's own; what is added is which node a host and a port is. The nodes a
  request is fanned out to take it one after another.
\<close>

section \<open>A network of nodes\<close>

text \<open>What becomes of a request on its way: it arrives and is answered, it never arrives, or its answer is lost.\<close>

datatype fate = Arrives | Never_arrives string | Answer_lost string

record ('db, 'v) others =
  ot_at :: "string \<times> string \<Rightarrow> ('db, 'v) router option"
  ot_fates :: "fate list"

definition reach :: "libs \<Rightarrow> 'db rocksdb \<Rightarrow> 'v net \<Rightarrow> http_request \<Rightarrow> ('db, 'v) others \<Rightarrow>
    (string + http_response) \<times> ('db, 'v) others" where
  "reach L R N q w =
     (case locate (q_url q) of
        None \<Rightarrow> (Inl (not_a_url (q_url q)), w)
      | Some place \<Rightarrow>
          (case (ot_at w (lo_host place, lo_port place), ot_fates w) of
             (Some s, fate # fates) \<Rightarrow>
               (let (sent, s') = handle_request L R N None False (message_of place q) s;
                    reached = w\<lparr>ot_at := (ot_at w)((lo_host place, lo_port place) \<mapsto> s'), ot_fates := fates\<rparr>
                in case fate of
                     Arrives \<Rightarrow> (Inr (delivered L False sent), reached)
                   | Never_arrives why \<Rightarrow> (Inl why, w\<lparr>ot_fates := fates\<rparr>)
                   | Answer_lost why \<Rightarrow> (Inl why, reached))
           | _ \<Rightarrow> (Inl ''Connection refused'', w)))"

fun reach_all :: "libs \<Rightarrow> 'db rocksdb \<Rightarrow> 'v net \<Rightarrow> http_request list \<Rightarrow> ('db, 'v) others \<Rightarrow>
    (string + http_response) list \<times> ('db, 'v) others" where
  "reach_all L R N [] w = ([], w)"
| "reach_all L R N (q # qs) w =
     (let (answer, w) = reach L R N q w; (answers, w) = reach_all L R N qs w in (answer # answers, w))"

definition cluster_net :: "libs \<Rightarrow> 'db rocksdb \<Rightarrow> 'v net \<Rightarrow> ('db, 'v) others net" where
  "cluster_net L R N =
     \<lparr>net_send = (\<lambda>q t. reach L R N q), net_send_all = (\<lambda>qs t. reach_all L R N qs), net_stream = (\<lambda>q w. ([], w)), net_now = (\<lambda>w. 0)\<rparr>"

text \<open>The node a name of the membership is.\<close>

definition at_node :: "('db, 'v) others \<Rightarrow> string \<Rightarrow> ('db, 'v) router option" where
  "at_node w node = (case locate node of None \<Rightarrow> None | Some place \<Rightarrow> ot_at w (lo_host place, lo_port place))"

text \<open>A node is named by its scheme and its authority alone.\<close>

definition node_name :: "string \<Rightarrow> bool" where
  "node_name node \<longleftrightarrow>
     (\<exists>authority place. node = scheme @ authority \<and> locate node = Some place \<and>
        \<not> list_ex (\<lambda>c. c = CHR ''/'' \<or> c = CHR ''?'') authority)"

section \<open>An answer of the other node\<close>

lemma answer_status:
  assumes "rs_status (to_response L node (Inr (delivered L reused (make_response L None ka given False))) False) < bad_request_400"
    and "rs_status given < 2 ^ 32" and "f_sent (rs_file given) = None"
  shows "rs_status given < bad_request_400"
proof -
  have "a_status (delivered L reused (make_response L None ka given False)) = int (rs_status given)"
    using assms(3) by (simp add: make_response_def)
  with assms(1,2) show ?thesis
    by (auto simp: to_response_def body_of_def Let_def status_of_int error_response_def response_defs
        split: if_splits option.splits)
qed

lemma no_answer_status: "\<not> rs_status (to_response L node (Inl why) head) < bad_request_400"
  by (simp add: to_response_def error_response_def response_defs)

section \<open>An order that arrives\<close>

definition record_path :: "string \<Rightarrow> string \<Rightarrow> string \<Rightarrow> string list" where
  "record_path name part srt = [''table'', name, ''key'', part] @ (if srt = [] then [] else [srt])"

lemma route_order:
  assumes "rq_path req = record_path name part srt" and "rq_method req = Verb_put" and "rq_term req \<noteq> 0"
    and "parsed_record L req part srt = Inr rec"
  shows "route L R N (req\<lparr>rq_forwarded := True\<rparr>) s = apply_write R (req\<lparr>rq_forwarded := True\<rparr>) name rec s"
proof -
  have "parsed_record L (req\<lparr>rq_forwarded := True\<rparr>) part srt = Inr rec"
    using assms(2,4) by (simp add: parsed_record_def)
  with assms show ?thesis
    by (cases "srt = []") (simp_all add: route_def record_path_def route_forwarded_record_def Let_def)
qed

text \<open>What a node holds of a record: it, at a version or a later one.\<close>

definition has_it :: "('db \<Rightarrow> store_view) \<Rightarrow> string \<Rightarrow> string \<Rightarrow> string \<Rightarrow> ('db, 'v) router option \<Rightarrow> bool" where
  "has_it view name key v node \<longleftrightarrow> (\<exists>s h. node = Some s \<and> stored_at view (store s) name key = Some h \<and> \<not> is_newer v h)"

definition all_sound :: "libs \<Rightarrow> ('db \<Rightarrow> store_view) \<Rightarrow> ('db, 'v) others \<Rightarrow> bool" where
  "all_sound L view w \<longleftrightarrow> (\<forall>place s. ot_at w place = Some s \<longrightarrow> sound L view (store s))"

lemma apply_write_answer:
  assumes "apply_write R req name rec s = (r, s')" and "rq_term req \<noteq> 0"
  shows "(case r of Inl e \<Rightarrow> True | Inr a \<Rightarrow> rs_file a = no_transfer \<and> rs_status a < 2 ^ 32 \<and>
      (rs_status a < bad_request_400 \<longrightarrow> rs_status a = no_content_204))"
  using assms
  by (auto simp: apply_write_def andthen_app on_nodes_app on_store_app error_response_def response_defs
      split: if_splits sum.splits prod.splits)

lemma has_it_take_in: "\<exists>h. stored.take_in v was = Some h \<and> \<not> is_newer v h"
  using stored.newer_asym by (auto simp: stored.take_in_def split: option.split)

lemma take_in_keeps: "was = Some h \<Longrightarrow> \<not> is_newer u h \<Longrightarrow> \<exists>h'. stored.take_in v was = Some h' \<and> \<not> is_newer u h'"
  using not_newer_trans [of u h v] stored.newer_asym [of v h] by (auto simp: stored.take_in_def)

text \<open>An order that is carried out leaves the node with the record; any other leaves its records as they were.\<close>

lemma order_keeps:
  assumes "rocksdb_laws R view contents" and "numbers_ok L" and "name \<noteq> default_family" and "in_int64 (rq_term req)"
    and "rq_term req \<noteq> 0" and "sound L view (store s)" and "apply_write R req name rec s = (r, s')"
  shows "sound L view (store s')"
    and "has_it view t key u (Some s) \<Longrightarrow> has_it view t key u (Some s')"
    and "r = Inr a \<Longrightarrow> rs_status a < bad_request_400 \<Longrightarrow>
      has_it view name (rec_key rec) (compose_value (stamp_of (rq_term req) (rq_count req)) (rec_value rec)) (Some s')"
proof -
  show "sound L view (store s')"
    using apply_write_risen [OF assms(1-4), of s rec] assms(6,7) by (simp add: risen_def)
  have "repo_ok L view (store s)" using assms(6) by (simp add: sound_def guarded_def)
  note o = order_outcome [OF assms(1) this, where req = req and name = name and rec = rec, unfolded assms(7) prod.case]
  show "has_it view t key u (Some s')" if "has_it view t key u (Some s)"
  proof (cases r)
    case (Inr a)
    with o that show ?thesis
      by (cases "rs_status a = no_content_204") (auto simp: has_it_def intro: take_in_keeps)
  qed (use o that in \<open>auto simp: has_it_def\<close>)
  show "has_it view name (rec_key rec) (compose_value (stamp_of (rq_term req) (rq_count req)) (rec_value rec)) (Some s')"
    if "r = Inr a" "rs_status a < bad_request_400"
    using o that apply_write_answer [OF assms(7,5)] has_it_take_in by (auto simp: has_it_def)
qed

text \<open>What an order asks for: a record at a version, on a path that arrives as it was sent.\<close>

definition orders :: "libs \<Rightarrow> request \<Rightarrow> string \<Rightarrow> record_t \<Rightarrow> bool" where
  "orders L req name rec \<longleftrightarrow>
     (\<exists>part srt. rq_path req = record_path name part srt \<and> parsed_record L req part srt = Inr rec) \<and>
     rq_method req = Verb_put \<and> list_all (escaped_ok L) (rq_path req) \<and> ''..'' \<notin> set (rq_path req) \<and>
     name \<noteq> default_family"

lemma orders_carried: "orders L req name rec \<Longrightarrow> orders L (carried req term cnt) name rec"
proof -
  have "parsed_record L (carried req term cnt) part srt = parsed_record L req part srt" for part srt
    by (simp add: parsed_record_def carried_def Let_def)
  then show "orders L req name rec \<Longrightarrow> orders L (carried req term cnt) name rec"
    by (simp add: orders_def carried_def)
qed

definition ordered :: "request \<Rightarrow> record_t \<Rightarrow> string" where
  "ordered req rec = compose_value (stamp_of (rq_term req) (rq_count req)) (rec_value rec)"

definition stays :: "('db \<Rightarrow> store_view) \<Rightarrow> ('db, 'v) others \<Rightarrow> ('db, 'v) others \<Rightarrow> bool" where
  "stays view w w' \<longleftrightarrow>
     (\<forall>node name key v. has_it view name key v (at_node w node) \<longrightarrow> has_it view name key v (at_node w' node))"

lemma stays_refl [simp]: "stays view w w"
  by (simp add: stays_def)

lemma at_node_fates [simp]: "at_node (w\<lparr>ot_fates := fates\<rparr>) = at_node w"
  by (rule ext) (simp add: at_node_def split: option.split)

lemma all_sound_fates [simp]: "all_sound L view (w\<lparr>ot_fates := fates\<rparr>) = all_sound L view w"
  by (simp add: all_sound_def)

lemma stays_fates [simp]: "stays view w (w\<lparr>ot_fates := fates\<rparr>)"
  by (simp add: stays_def)

lemma stays_trans: "stays view u v \<Longrightarrow> stays view v w \<Longrightarrow> stays view u w"
  by (simp add: stays_def)

lemma order_handled:
  assumes "rocksdb_laws R view contents" and "numbers_ok L" and "orders L req name rec"
    and "in_int64 (rq_term req)" and "rq_term req \<noteq> 0" and "sound L view (store s)"
    and "mg_target m = target_path L (rq_path req) @ (if rq_query req \<noteq> [] then CHR ''?'' # rq_query req else [])"
    and "mg_method m = rq_method req" and "routed L m = req\<lparr>rq_forwarded := True\<rparr>"
    and "handle_request L R N None False m s = (sent, s')"
  shows "sound L view (store s')"
    and "has_it view t key u (Some s) \<Longrightarrow> has_it view t key u (Some s')"
    and "rs_status (to_response L node (Inr (delivered L False sent)) False) < bad_request_400 \<Longrightarrow>
      has_it view name (rec_key rec) (ordered req rec) (Some s')"
proof -
  from assms(3) obtain part srt where o: "rq_path req = record_path name part srt" "parsed_record L req part srt = Inr rec"
    "rq_method req = Verb_put" "list_all (escaped_ok L) (rq_path req)" "''..'' \<notin> set (rq_path req)" "name \<noteq> default_family"
    by (auto simp: orders_def)
  let ?req = "req\<lparr>rq_forwarded := True\<rparr>"
  obtain r u' where w: "apply_write R ?req name rec s = (r, u')" by fastforce
  have "mg_target m \<noteq> []" "mg_target m ! 0 = CHR ''/''" "\<not> has_traversal L (mg_target m)"
    using o(1) no_traversal [OF o(4,5), of "rq_query req"] by (simp_all add: assms(7) target_path_def record_path_def)
  then have a: "answer_to L R N m s = (case r of Inl e \<Rightarrow> error_response (thrown_code e) (thrown_message e) | Inr a \<Rightarrow> a, s')"
      and s': "s' = u'"
    and sent: "sent = make_response L None (mg_keep_alive m) (case r of Inl e \<Rightarrow> error_response (thrown_code e) (thrown_message e) | Inr a \<Rightarrow> a) False"
    using w route_order [OF o(1,3) assms(5) o(2), of R N s] assms(8-10) o(3)
    by (auto simp: handle_request_def answer_to_def is_routable_method_def split: sum.splits)
  have f: "in_int64 (rq_term ?req)" "rq_term ?req \<noteq> 0" using assms(4,5) by simp_all
  note keeps = order_keeps [OF assms(1,2) o(6) f assms(6) w]
  show "sound L view (store s')" using keeps(1) s' by simp
  show "has_it view t key u (Some s')" if "has_it view t key u (Some s)" using keeps(2) that s' by simp
  assume took: "rs_status (to_response L node (Inr (delivered L False sent)) False) < bad_request_400"
  show "has_it view name (rec_key rec) (ordered req rec) (Some s')"
  proof (cases r)
    case (Inl e)
    have "rs_status (error_response (thrown_code e) (thrown_message e)) < bad_request_400"
      by (rule answer_status [of L node False "mg_keep_alive m"]) (use took sent Inl in \<open>simp_all add: error_response_def response_defs no_transfer_def\<close>)
    moreover have "\<not> error_status (thrown_code e) < bad_request_400" by (simp add: not_less)
    ultimately show ?thesis by (simp add: error_response_def response_defs)
  next
    case (Inr a)
    have "rs_status a < bad_request_400"
      by (rule answer_status [of L node False "mg_keep_alive m"])
         (use took sent Inr apply_write_answer [OF w f(2)] in \<open>simp_all add: no_transfer_def\<close>)
    with keeps(3) [OF Inr] s' show ?thesis by (simp add: ordered_def)
  qed
qed

lemma order_reaches:
  assumes "rocksdb_laws R view contents" and "numbers_ok L" and "orders L req name rec"
    and "in_int64 (rq_term req)" and "rq_term req \<noteq> 0" and "all_sound L view w" and "node_name node"
    and "reach L R N (forwarded_to L node req) w = (answer, w')"
  shows "all_sound L view w'" and "stays view w w'"
    and "rs_status (to_response L node answer False) < bad_request_400 \<Longrightarrow>
      has_it view name (rec_key rec) (ordered req rec) (at_node w' node)"
proof -
  let ?q = "forwarded_to L node req"
  from assms(7) obtain authority place where n: "node = scheme @ authority" "locate (scheme @ authority) = Some place"
    "\<not> list_ex (\<lambda>c. c = CHR ''/'' \<or> c = CHR ''?'') authority"
    by (auto simp: node_name_def)
  have path: "list_all (escaped_ok L) (rq_path req)" "is_routable_method (rq_method req)"
    "rq_term req = 0 \<longrightarrow> rq_count req = 0"
    using assms(3,5) by (simp_all add: orders_def is_routable_method_def)
  obtain reached where r: "locate (q_url ?q) = Some reached" "lo_host reached = lo_host place" "lo_port reached = lo_port place"
    and m: "mg_target (message_of reached ?q) = target_path L (rq_path req) @ (if rq_query req \<noteq> [] then CHR ''?'' # rq_query req else [])"
      "mg_method (message_of reached ?q) = rq_method req" "routed L (message_of reached ?q) = req\<lparr>rq_forwarded := True\<rparr>"
    using request_arrives [OF n(2,3) path(1) assms(2,4) path(2,3)] n(1) by metis
  let ?at = "(lo_host place, lo_port place)"
  have none: "\<not> rs_status (to_response L node (Inl why) False) < bad_request_400" for why
    by (rule no_answer_status)
  have "all_sound L view w' \<and> stays view w w' \<and> (rs_status (to_response L node answer False) < bad_request_400 \<longrightarrow>
      has_it view name (rec_key rec) (ordered req rec) (at_node w' node))"
  proof (cases "ot_at w ?at")
    case None
    then have "w' = w" "answer = Inl ''Connection refused''"
      using assms(8) r by (simp_all add: reach_def)
    with assms(6) none show ?thesis by simp
  next
    case (Some s)
    show ?thesis
    proof (cases "ot_fates w")
      case Nil
      then have "w' = w" "answer = Inl ''Connection refused''"
        using assms(8) r Some by (simp_all add: reach_def)
      with assms(6) none show ?thesis by simp
    next
      case (Cons fate fates)
      obtain sent s' where h: "handle_request L R N None False (message_of reached ?q) s = (sent, s')" by fastforce
      have "sound L view (store s)" using assms(6) Some unfolding all_sound_def by blast
      note handled = order_handled [OF assms(1-5) this m h]
      let ?w = "w\<lparr>ot_at := (ot_at w)(?at \<mapsto> s'), ot_fates := fates\<rparr>"
      have there: "at_node ?w node = Some s'" using n by (simp add: at_node_def)
      have "all_sound L view ?w" using assms(6) handled(1) by (simp add: all_sound_def)
      moreover have "stays view w ?w"
        using handled(2) Some by (auto simp: stays_def at_node_def split: option.splits)
      moreover have "has_it view name (rec_key rec) (ordered req rec) (at_node ?w node)"
        if "rs_status (to_response L node (Inr (delivered L False sent)) False) < bad_request_400"
        using handled(3) [OF that] there by simp
      moreover have "answer = (case fate of Arrives \<Rightarrow> Inr (delivered L False sent) | Never_arrives why \<Rightarrow> Inl why | Answer_lost why \<Rightarrow> Inl why)"
        "w' = (case fate of Never_arrives why \<Rightarrow> w\<lparr>ot_fates := fates\<rparr> | _ \<Rightarrow> ?w)"
        using assms(8) r Some Cons h by (cases fate; simp add: reach_def)+
      ultimately show ?thesis using assms(6) none by (cases fate) simp_all
    qed
  qed
  then show "all_sound L view w'" and "stays view w w'"
    and "rs_status (to_response L node answer False) < bad_request_400 \<Longrightarrow>
      has_it view name (rec_key rec) (ordered req rec) (at_node w' node)"
    by blast+
qed

section \<open>A write that is acknowledged\<close>

lemma forwarded_to_each: "forwarded_to_all L ns req = map (\<lambda>node. forwarded_to L node req) ns"
  by (simp add: forwarded_to_all_def forwarded_to_def Let_def)

lemma orders_reach_all:
  assumes "rocksdb_laws R view contents" and "numbers_ok L" and "orders L req name rec"
    and "in_int64 (rq_term req)" and "rq_term req \<noteq> 0"
    and "all_sound L view w" and "list_all node_name ns"
    and "forward_all L (cluster_net L R N) ns req w = (answers, w')"
  shows "all_sound L view w' \<and> stays view w w' \<and>
    (list_all (\<lambda>b. rs_status b < bad_request_400) answers \<longrightarrow>
       (\<forall>node \<in> set ns. has_it view name (rec_key rec) (ordered req rec) (at_node w' node)))"
  using assms(6-8)
proof (induction ns arbitrary: w answers)
  case Nil
  then show ?case by (simp add: forward_all_def cluster_net_def forwarded_to_each)
next
  case (Cons node ns)
  have head: "\<not> is_head req" using assms(3) by (simp add: orders_def is_head_def)
  obtain answer u where r: "reach L R N (forwarded_to L node req) w = (answer, u)" by fastforce
  obtain more u' where m: "forward_all L (cluster_net L R N) ns req u = (more, u')" by fastforce
  from Cons.prems(3) r m head have a: "answers = to_response L node answer False # more" "u' = w'"
    by (auto simp: forward_all_def cluster_net_def forwarded_to_each responses_of_def split: prod.splits)
  note one = order_reaches [OF assms(1-5) Cons.prems(1) _ r]
  have n: "node_name node" "list_all node_name ns" using Cons.prems(2) by simp_all
  note rest = Cons.IH [OF one(1) [OF n(1)] n(2) m [unfolded a(2)]]
  show ?case
  proof (intro conjI impI ballI)
    show "all_sound L view w'" using rest a(2) by simp
    show "stays view w w'" using rest a(2) one(2) [OF n(1)] stays_trans by blast
    fix other assume took: "list_all (\<lambda>b. rs_status b < bad_request_400) answers" and "other \<in> set (node # ns)"
    then consider "other = node" | "other \<in> set ns" by auto
    then show "has_it view name (rec_key rec) (ordered req rec) (at_node w' other)"
    proof cases
      case 1
      then show ?thesis using one(3) [OF n(1)] took a rest by (simp add: stays_def)
    qed (use rest took a in simp)
  qed
qed

text \<open>
  C2. A write the leader acknowledges is on every copy. Where it answers that it took the write, there is one version the
  write was given, and the store of the leader, where it is a copy, and the store of every other node the partition is
  placed on hold the record at that version or a later one, whatever the network did with the requests and the answers;
  and no node of the cluster has gone back on a record it held. The whole way is in it: the order the forwarder writes,
  the request the other session reads off it, the route it takes, the record it is parsed to, the term the other
  membership accepts, the write of the other store, and the answer that comes back.
\<close>

theorem an_acknowledged_write_is_on_every_copy:
  assumes "rocksdb_laws R view contents" and "numbers_ok L" and "orders L req name rec"
    and "in_int64 (ld_term lead)" and "ld_term lead \<noteq> 0"
    and "guarded L view (store s)" and "all_sound L view (network (nodes s))"
    and "list_all node_name (pl_nodes (replicas (nodes s) (rec_key rec)))"
    and "lead_write L R (cluster_net L R N) req name rec lead s = (Inr a, s')" and "rs_status a < bad_request_400"
  shows "stays view (network (nodes s)) (network (nodes s')) \<and>
    (\<exists>cnt. let v = compose_value (stamp_of (ld_term lead) cnt) (rec_value rec); wh = replicas (nodes s) (rec_key rec)
       in (pl_local wh \<longrightarrow> has_it view name (rec_key rec) v (Some s')) \<and>
          (\<forall>node \<in> set (pl_nodes wh). has_it view name (rec_key rec) v (at_node (network (nodes s')) node)))"
proof -
  obtain cnt answers where f: "forward_all L (cluster_net L R N) (pl_nodes (replicas (nodes s) (rec_key rec)))
      (carried req (ld_term lead) cnt) (network (nodes s)) = (answers, network (nodes s'))"
    and taken: "list_all (\<lambda>b. rs_status b < bad_request_400) answers"
    and here: "pl_local (replicas (nodes s) (rec_key rec)) \<Longrightarrow> stored_at view (store s') name (rec_key rec) =
      stored.take_in (compose_value (stamp_of (ld_term lead) cnt) (rec_value rec)) (stored_at view (store s) name (rec_key rec))"
    using acknowledged_write [OF assms(1,6,9,10)] by blast
  have t: "in_int64 (rq_term (carried req (ld_term lead) cnt))" "rq_term (carried req (ld_term lead) cnt) \<noteq> 0"
    using assms(4,5) by (simp_all add: carried_def)
  have v: "ordered (carried req (ld_term lead) cnt) rec = compose_value (stamp_of (ld_term lead) cnt) (rec_value rec)"
    by (simp add: ordered_def carried_def)
  note all = orders_reach_all [OF assms(1,2) orders_carried [OF assms(3)] t assms(7,8) f]
  moreover have "has_it view name (rec_key rec) (compose_value (stamp_of (ld_term lead) cnt) (rec_value rec)) (Some s')"
    if "pl_local (replicas (nodes s) (rec_key rec))"
    using here [OF that] has_it_take_in by (simp add: has_it_def)
  ultimately show ?thesis using taken unfolding v Let_def by blast
qed

section \<open>A cluster of two\<close>

text \<open>The node that leads and one other, each the owner of its zone; the request arrives, and its answer too.\<close>

abbreviation two_libs :: libs where "two_libs \<equiv> example_libs Jnull"

definition the_other :: "(mem_db, unit) others" where
  "the_other = \<lparr>ot_at = [(''n2'', ''8080'') \<mapsto> example_node], ot_fates = [Arrives]\<rparr>"

definition leading :: "(mem_db, (mem_db, unit) others) router" where
  "leading =
     \<lparr>store = example_repo,
      nodes = (etcd_cluster_of (cluster_net two_libs mem_rocksdb quiet_net)
          (default_config\<lparr>cf_endpoints := [''etcd''], cf_node := ''http://n1:8080'', cf_zone := ''z1''\<rparr>) the_other)
        \<lparr>member_list := [member_of ''http://n1:8080'' ''z1'', member_of ''http://n2:8080'' ''z2'']\<rparr>,
      draining = False\<rparr>"

definition leads_in :: "int \<Rightarrow> leadership" where
  "leads_in term = \<lparr>ld_known = True, ld_local = True, ld_node = ''http://n1:8080'', ld_term = term\<rparr>"

lemma two_orders: "orders two_libs (ordered_put term) ''orders'' (example_record 0 0 ''v'')"
proof -
  have "is_valid_utf8 two_libs ''k''"
    by (subst is_valid_utf8.simps, subst is_valid_utf8.simps) (simp add: example_libs_def)
  then have "parsed_record two_libs (ordered_put term) ''k'' [] = Inr (example_record 0 0 ''v'')"
    by (simp add: parsed_record_def ordered_put_def parse_record_def parse_key_def compose_key_def valid_record_def example_record_def
        max_key_size_def max_value_size_def Let_def)
  then show ?thesis
    by (auto simp: orders_def record_path_def ordered_put_def escaped_ok_def example_libs_def default_family_def
        intro!: exI [of _ "''k''"] exI [of _ "[]"])
qed

lemma n2_name: "node_name ''http://n2:8080''"
proof -
  have "locate ''http://n2:8080'' = Some \<lparr>lo_host = ''n2'', lo_port = ''8080'', lo_target = ''/'', lo_authority = ''n2:8080''\<rparr>"
    by (simp add: locate_def scheme_def rfind_char_def)
  then show ?thesis by (auto simp: node_name_def scheme_def intro!: exI [of _ "''n2:8080''"])
qed

lemma two_replicas: "replicas (nodes leading) key = \<lparr>pl_local = True, pl_nodes = [''http://n2:8080'']\<rparr>"
  by (simp add: replicas_def copies_of_def leading_def etcd_cluster_of_def owners_of_def zone_push_def owner_of_def place_owner_def)

text \<open>The other node takes the order and says so.\<close>

lemma the_other_takes:
  "\<exists>w'. reach two_libs mem_rocksdb quiet_net (forwarded_to two_libs ''http://n2:8080'' (ordered_put 7)) the_other =
     (Inr (delivered two_libs False (make_response two_libs None True (empty_response no_content_204) False)), w')"
proof -
  let ?q = "forwarded_to two_libs ''http://n2:8080'' (ordered_put 7)" and ?rec = "(example_record 0 0 ''v'')\<lparr>rec_stamp := stamp_of 7 1\<rparr>"
  have path: "list_all (escaped_ok two_libs) (rq_path (ordered_put 7))" "''..'' \<notin> set (rq_path (ordered_put 7))"
    using two_orders [of 7] by (simp_all add: orders_def)
  have at: "locate (scheme @ ''n2:8080'') = Some \<lparr>lo_host = ''n2'', lo_port = ''8080'', lo_target = ''/'', lo_authority = ''n2:8080''\<rparr>"
    by (simp add: locate_def scheme_def rfind_char_def)
  have url: "''http://n2:8080'' = scheme @ ''n2:8080''" by (simp add: scheme_def)
  have fits: "in_int64 (rq_term (ordered_put 7))" "is_routable_method (rq_method (ordered_put 7))"
    "rq_term (ordered_put 7) = 0 \<longrightarrow> rq_count (ordered_put 7) = 0"
    by (simp_all add: ordered_put_def in_int64_def is_routable_method_def)
  obtain reached where r: "locate (q_url ?q) = Some reached" "lo_host reached = ''n2''" "lo_port reached = ''8080''"
    and m: "mg_target (message_of reached ?q) = target_path two_libs (rq_path (ordered_put 7))"
      "mg_method (message_of reached ?q) = Verb_put" "routed two_libs (message_of reached ?q) = (ordered_put 7)\<lparr>rq_forwarded := True\<rparr>"
    using request_arrives [OF at _ path(1) numbers_ok_example fits] url by (auto simp: ordered_put_def)
  obtain u where w: "write_record mem_rocksdb ''orders'' ?rec (store example_node) = (Inr (), u)"
    using mem_write_record [OF example_node_ok(1), of "''orders''" ?rec]
    by (auto simp: example_node_def example_repo_def prod_eq_iff)
  have "fst (accept ''k'' 7 (nodes example_node))"
    by (simp add: accept_def raise_term_def example_node_defs)
  with w have run: "\<exists>s'. apply_write mem_rocksdb (ordered_put 7) ''orders'' (example_record 0 0 ''v'') example_node = (Inr (empty_response 204), s')"
    by (simp add: apply_write_def andthen_app on_nodes_app on_store_app ordered_put_def example_record_def)
  have same: "(ordered_put 7)\<lparr>rq_forwarded := True\<rparr> = ordered_put 7" by (simp add: ordered_put_def)
  have parsed: "\<exists>part srt. rq_path (ordered_put 7) = record_path ''orders'' part srt \<and> parsed_record two_libs (ordered_put 7) part srt = Inr (example_record 0 0 ''v'')"
    using two_orders [of 7] by (simp add: orders_def)
  have "rq_method (ordered_put 7) = Verb_put" "rq_term (ordered_put 7) \<noteq> 0" by (simp_all add: ordered_put_def)
  then have "route two_libs mem_rocksdb quiet_net (ordered_put 7) example_node = apply_write mem_rocksdb (ordered_put 7) ''orders'' (example_record 0 0 ''v'') example_node"
    using route_order [of "ordered_put 7" "''orders''"] parsed same by metis
  with run obtain s' where run: "route two_libs mem_rocksdb quiet_net (ordered_put 7) example_node = (Inr (empty_response 204), s')" by auto
  have "\<not> has_traversal two_libs (target_path two_libs (rq_path (ordered_put 7)))"
    using no_traversal [OF path, of "[]"] by simp
  moreover have "target_path two_libs (rq_path (ordered_put 7)) \<noteq> []" "target_path two_libs (rq_path (ordered_put 7)) ! 0 = CHR ''/''"
    by (simp_all add: ordered_put_def target_path_def)
  moreover have "mg_keep_alive (message_of reached ?q)" by (simp add: message_of_def)
  ultimately have "handle_request two_libs mem_rocksdb quiet_net None False (message_of reached ?q) example_node =
      (make_response two_libs None True (empty_response 204) False, s')"
    using run by (simp add: handle_request_def answer_to_def m same is_routable_method_def)
  then show ?thesis using r by (simp add: reach_def the_other_def)
qed

lemma leading_writes:
  "\<exists>s'. lead_write two_libs mem_rocksdb (cluster_net two_libs mem_rocksdb quiet_net) (ordered_put 0) ''orders'' (example_record 0 0 ''v'')
     (leads_in 7) leading = (Inr (empty_response no_content_204), s')"
proof -
  let ?L = two_libs
  have "next_count ?L mem_rocksdb (store leading) = (Inr 1, snd (next_count ?L mem_rocksdb (store leading)))"
    by (simp add: next_count_def reserve_counts_def leading_def example_repo_def andthen_app put_def default_family_def
        count_key_def mem_get counts_per_reservation_def)
  then obtain u where c: "next_count ?L mem_rocksdb (store leading) = (Inr 1, u)" by blast
  have u: "repo_ok ?L mem_view u" "handles u = handles (store leading)"
    using keepsD [OF next_count_guarded [OF mem_rocksdb_laws, of ?L ?L] example_repo_guarded]
      next_count_stored(2) [OF mem_rocksdb_laws, of ?L "store leading"] c
    by (simp_all add: guarded_def leading_def)
  let ?rec = "(example_record 0 0 ''v'')\<lparr>rec_stamp := stamp_of 7 1\<rparr>"
  obtain u' where w: "write_record mem_rocksdb ''orders'' ?rec u = (Inr (), u')"
    using mem_write_record [OF u(1), of "''orders''" ?rec] u(2)
    by (auto simp: leading_def example_repo_def prod_eq_iff)
  have sizes: "sizes_ok ?L" by (simp add: sizes_ok_def lexical_example) (simp add: example_libs_def lex_digits_def)
  have "to_response ?L node (Inr (delivered ?L False (make_response ?L None True (empty_response 204) False))) False = empty_response 204" for node
    by (subst to_response_written [OF sizes]) (simp_all add: empty_response_def response_body_def json_content_type_def)
  moreover have "carried (ordered_put 0) 7 1 = ordered_put 7" "\<not> is_head (ordered_put 7)"
    by (simp_all add: carried_def ordered_put_def is_head_def)
  moreover have "network (nodes leading) = the_other" by (simp add: leading_def etcd_cluster_of_def)
  ultimately have f: "\<exists>w'. forward_all ?L (cluster_net ?L mem_rocksdb quiet_net) [''http://n2:8080''] (carried (ordered_put 0) 7 1) (network (nodes leading)) =
      ([empty_response 204], w')"
    using the_other_takes by (auto simp: forward_all_def cluster_net_def forwarded_to_each responses_of_def)
  show ?thesis
    using c w f two_replicas
    by (auto simp: lead_write_def leads_in_def andthen_app on_store_app on_wire_app Let_def refusal_def empty_response_def)
qed

theorem an_acknowledged_write_is_on_every_copy_witness:
  "\<exists>s' v. lead_write two_libs mem_rocksdb (cluster_net two_libs mem_rocksdb quiet_net) (ordered_put 0) ''orders'' (example_record 0 0 ''v'')
       (leads_in 7) leading = (Inr (empty_response no_content_204), s') \<and>
     has_it mem_view ''orders'' ''k'' v (Some s') \<and> has_it mem_view ''orders'' ''k'' v (at_node (network (nodes s')) ''http://n2:8080'')"
proof -
  obtain s' where run: "lead_write two_libs mem_rocksdb (cluster_net two_libs mem_rocksdb quiet_net) (ordered_put 0) ''orders''
      (example_record 0 0 ''v'') (leads_in 7) leading = (Inr (empty_response no_content_204), s')"
    using leading_writes by blast
  have here: "guarded two_libs mem_view (store leading)" using example_repo_guarded by (simp add: leading_def)
  have "names_ok (tables (store example_node))"
    by (simp add: example_node_def example_repo_def names_ok_def no_default_def default_family_def)
  then have there: "all_sound two_libs mem_view (network (nodes leading))"
    using example_node_ok(2) by (auto simp: leading_def etcd_cluster_of_def the_other_def all_sound_def sound_def)
  have lead: "in_int64 (ld_term (leads_in 7))" "ld_term (leads_in 7) \<noteq> 0" by (simp_all add: leads_in_def in_int64_def)
  have names: "list_all node_name (pl_nodes (replicas (nodes leading) (rec_key (example_record 0 0 ''v''))))"
    using n2_name by (simp add: two_replicas)
  have "rs_status (empty_response no_content_204) < bad_request_400" by (simp add: empty_response_def)
  from an_acknowledged_write_is_on_every_copy [OF mem_rocksdb_laws numbers_ok_example two_orders lead here there names run this]
  show ?thesis using run by (auto simp: two_replicas Let_def) (auto simp: example_record_def)
qed

end
